(* ===== verification/Kernel_Prelude.thy ===== *)
theory Kernel_Prelude
  imports Main "HOL-Library.Word" "HOL-Library.Monad_Syntax"
begin

text \<open>
  Shared vocabulary of the development: the machine integers of the kernel (64-bit
  \<open>usize\<close>), Rust's saturating arithmetic, and the generic facts on options and lists
  that the component theories use.

  A Rust expression that can panic (an index out of range, \<open>unwrap\<close> of a \<open>None\<close>, a
  failed \<open>assert!\<close>) is an expression of type \<^typ>\<open>'a option\<close> whose value \<^const>\<open>None\<close>
  is the panic; sequencing is the bind of the option type.  A theorem that an operation
  returns is therefore always of the form \<open>\<exists>r. op s = Some r\<close>.
\<close>

type_synonym u8 = "8 word"
type_synonym u16 = "16 word"
type_synonym u32 = "32 word"
type_synonym u64 = "64 word"
type_synonym usize = "64 word"

named_theorems option_ops \<open>unfolding the panicking primitives\<close>

definition guard_panic :: "bool \<Rightarrow> unit option" where
  "guard_panic b = (if b then Some () else None)"

lemma guard_panic_simps [simp]:
  "guard_panic True = Some ()"
  "guard_panic False = None"
  by (simp_all add: guard_panic_def)

lemma guard_panic_Some_iff [simp]: "guard_panic b = Some u \<longleftrightarrow> b"
  by (simp add: guard_panic_def)

lemma bind_Some_conv [simp]: "Option.bind (Some x) f = f x"
  by simp

lemma bind_eq_SomeE:
  assumes "Option.bind m f = Some y"
  obtains x where "m = Some x" "f x = Some y"
  using assms by (cases m) auto

subsection \<open>Saturating arithmetic\<close>

definition sat_add :: "'a::len word \<Rightarrow> 'a word \<Rightarrow> 'a word" where
  "sat_add a b = (if unat a + unat b < 2 ^ LENGTH('a) then a + b else - 1)"

definition sat_sub :: "'a::len word \<Rightarrow> 'a word \<Rightarrow> 'a word" where
  "sat_sub a b = (if b \<le> a then a - b else 0)"

definition sat_mul :: "'a::len word \<Rightarrow> 'a word \<Rightarrow> 'a word" where
  "sat_mul a b = (if unat a * unat b < 2 ^ LENGTH('a) then a * b else - 1)"

lemma unat_minus_one: "unat (- 1 :: 'a::len word) = 2 ^ LENGTH('a) - 1"
  by (simp add: unsigned_minus_1_eq_mask mask_eq_exp_minus_1)

lemma unat_le_max: "unat a \<le> 2 ^ LENGTH('a) - 1"
  for a :: "'a::len word"
proof -
  have "unat a < 2 ^ LENGTH('a)" by (rule unsigned_less)
  then show ?thesis by linarith
qed

lemma unat_sat_add: "unat (sat_add a b) = min (unat a + unat b) (2 ^ LENGTH('a) - 1)"
  for a b :: "'a::len word"
proof (cases "unat a + unat b < 2 ^ LENGTH('a)")
  case True
  then show ?thesis by (simp add: sat_add_def unat_word_ariths)
next
  case False
  then show ?thesis by (simp add: sat_add_def unat_minus_one)
qed

lemma unat_sat_sub: "unat (sat_sub a b) = unat a - unat b"
  for a b :: "'a::len word"
  by (auto simp: sat_sub_def unat_sub word_le_nat_alt)

lemma unat_sat_mul: "unat (sat_mul a b) = min (unat a * unat b) (2 ^ LENGTH('a) - 1)"
  for a b :: "'a::len word"
proof (cases "unat a * unat b < 2 ^ LENGTH('a)")
  case True
  then show ?thesis by (simp add: sat_mul_def unat_word_ariths)
next
  case False
  then have "2 ^ LENGTH('a) - 1 \<le> unat a * unat b" by linarith
  with False show ?thesis by (simp add: sat_mul_def unat_minus_one min_absorb2)
qed

lemma sat_add_ge: "a \<le> sat_add a b"
  using unat_le_max [of a] by (simp add: word_le_nat_alt unat_sat_add)

lemma unat_plus_one: "Suc (unat a) < 2 ^ LENGTH('a) \<Longrightarrow> unat (a + 1) = Suc (unat a)"
  for a :: "'a::len word"
  by (simp add: unat_word_ariths)

lemma word_less_plus_one: "a \<noteq> - 1 \<Longrightarrow> a < a + 1"
  for a :: "'a::len word"
proof -
  assume "a \<noteq> - 1"
  then have "unat a \<noteq> unat (- 1 :: 'a word)" unfolding word_unat_eq_iff .
  with unat_le_max [of a] have "Suc (unat a) < 2 ^ LENGTH('a)" by (simp add: unat_minus_one)
  then show ?thesis by (simp add: word_less_nat_alt unat_plus_one)
qed

subsection \<open>Comparisons\<close>

text \<open>\<open>core::cmp::Ordering\<close>: \<open>Ord::cmp\<close> of the 64-bit integers and \<open>Ordering::then_with\<close>.\<close>

datatype ordering = Less | Equal | Greater

definition usize_cmp :: "usize \<Rightarrow> usize \<Rightarrow> ordering" where
  "usize_cmp a b = (if a < b then Less else if a = b then Equal else Greater)"

fun then_with :: "ordering \<Rightarrow> ordering \<Rightarrow> ordering" where
  "then_with Equal r = r"
| "then_with l r = l"

subsection \<open>Lists\<close>

lemma length_filter_distinct:
  "distinct (map f xs) \<Longrightarrow> x \<in> f ` set xs \<Longrightarrow> length (filter (\<lambda>e. f e \<noteq> x) xs) = length xs - 1"
proof (induction xs)
  case (Cons a xs)
  show ?case
  proof (cases "f a = x")
    case True
    with Cons.prems have "filter (\<lambda>e. f e \<noteq> x) xs = xs" by (metis (mono_tags, lifting) distinct.simps(2) filter_True image_eqI image_set list.simps(9))
    with True show ?thesis by simp
  next
    case False
    with Cons have "length (filter (\<lambda>e. f e \<noteq> x) xs) = length xs - 1" "x \<in> f ` set xs" by auto
    with False show ?thesis by (cases xs) auto
  qed
qed simp

end
