(* ===== verification/Rb_Arena.thy ===== *)
theory Rb_Arena
  imports Kernel_Prelude
begin

text \<open>
  The arena red-black tree of \<open>process/scheduler/rbtree.rs\<close>, as the code has it: nodes live
  in a vector of optional slots, links are indices, deleted slots are kept on a free list,
  and the index of the leftmost node is cached.  Every operation of \<open>RbRootCached\<close> is
  translated statement by statement; \<^const>\<open>None\<close> is a panic (\<open>unwrap\<close> on an empty slot or a
  missing link) or, for the two fix-up loops and the searches, a loop that does not end.
\<close>

datatype rb_color = Red | Black

record ('k, 'v) rb_node =
  n_key :: 'k
  n_value :: 'v
  n_parent :: "nat option"
  n_left :: "nat option"
  n_right :: "nat option"
  n_color :: rb_color

record ('k, 'v) rb_root_cached =
  rb_root :: "nat option"
  rb_leftmost :: "nat option"
  rb_nodes :: "('k, 'v) rb_node option list"
  rb_free_slots :: "nat list"
  rb_len :: nat

definition rb_new :: "('k, 'v) rb_root_cached" where
  "rb_new = \<lparr>rb_root = None, rb_leftmost = None, rb_nodes = [], rb_free_slots = [], rb_len = 0\<rparr>"

definition rb_is_empty :: "('k, 'v) rb_root_cached \<Rightarrow> bool" where
  "rb_is_empty s = (rb_len s = 0)"

text \<open>\<open>self.nodes.get(index).and_then(as_ref)\<close>; the panicking form is \<open>rb_node_at\<close>.\<close>

definition rb_slot :: "('k, 'v) rb_root_cached \<Rightarrow> nat \<Rightarrow> ('k, 'v) rb_node option" where
  "rb_slot s i = (if i < length (rb_nodes s) then rb_nodes s ! i else None)"

definition rb_first :: "('k, 'v) rb_root_cached \<Rightarrow> 'v option" where
  "rb_first s = map_option n_value (Option.bind (rb_leftmost s) (rb_slot s))"

definition rb_first_key :: "('k, 'v) rb_root_cached \<Rightarrow> 'k option" where
  "rb_first_key s = map_option n_key (Option.bind (rb_leftmost s) (rb_slot s))"

definition rb_color_of :: "('k, 'v) rb_root_cached \<Rightarrow> nat option \<Rightarrow> rb_color" where
  "rb_color_of s i =
     (case Option.bind i (rb_slot s) of None \<Rightarrow> Black | Some n \<Rightarrow> n_color n)"

definition rb_parent :: "('k, 'v) rb_root_cached \<Rightarrow> nat \<Rightarrow> nat option option" where
  "rb_parent s i = map_option n_parent (rb_slot s i)"

definition rb_left :: "('k, 'v) rb_root_cached \<Rightarrow> nat \<Rightarrow> nat option option" where
  "rb_left s i = map_option n_left (rb_slot s i)"

definition rb_right :: "('k, 'v) rb_root_cached \<Rightarrow> nat \<Rightarrow> nat option option" where
  "rb_right s i = map_option n_right (rb_slot s i)"

definition rb_key :: "('k, 'v) rb_root_cached \<Rightarrow> nat \<Rightarrow> 'k option" where
  "rb_key s i = map_option n_key (rb_slot s i)"

text \<open>\<open>self.nodes[i].as_mut().unwrap().field = \<dots>\<close>\<close>

definition rb_modify ::
    "(('k, 'v) rb_node \<Rightarrow> ('k, 'v) rb_node) \<Rightarrow> ('k, 'v) rb_root_cached \<Rightarrow> nat
      \<Rightarrow> ('k, 'v) rb_root_cached option" where
  "rb_modify f s i =
     (case rb_slot s i of
        None \<Rightarrow> None
      | Some n \<Rightarrow> Some (s\<lparr>rb_nodes := (rb_nodes s)[i := Some (f n)]\<rparr>))"

definition rb_set_left :: "('k, 'v) rb_root_cached \<Rightarrow> nat \<Rightarrow> nat option \<Rightarrow> ('k, 'v) rb_root_cached option" where
  "rb_set_left s i l = rb_modify (n_left_update (\<lambda>_. l)) s i"

definition rb_set_right :: "('k, 'v) rb_root_cached \<Rightarrow> nat \<Rightarrow> nat option \<Rightarrow> ('k, 'v) rb_root_cached option" where
  "rb_set_right s i r = rb_modify (n_right_update (\<lambda>_. r)) s i"

definition rb_set_parent ::
    "('k, 'v) rb_root_cached \<Rightarrow> nat option \<Rightarrow> nat option \<Rightarrow> ('k, 'v) rb_root_cached option" where
  "rb_set_parent s i p =
     (case i of None \<Rightarrow> Some s | Some i \<Rightarrow> rb_modify (n_parent_update (\<lambda>_. p)) s i)"

definition rb_set_color ::
    "('k, 'v) rb_root_cached \<Rightarrow> nat option \<Rightarrow> rb_color \<Rightarrow> ('k, 'v) rb_root_cached option" where
  "rb_set_color s i c =
     (case i of None \<Rightarrow> Some s | Some i \<Rightarrow> rb_modify (n_color_update (\<lambda>_. c)) s i)"

definition rb_left_of :: "('k, 'v) rb_root_cached \<Rightarrow> nat option \<Rightarrow> nat option option" where
  "rb_left_of s i = (case i of None \<Rightarrow> Some None | Some i \<Rightarrow> rb_left s i)"

definition rb_right_of :: "('k, 'v) rb_root_cached \<Rightarrow> nat option \<Rightarrow> nat option option" where
  "rb_right_of s i = (case i of None \<Rightarrow> Some None | Some i \<Rightarrow> rb_right s i)"

partial_function (option) rb_minimum :: "('k, 'v) rb_root_cached \<Rightarrow> nat \<Rightarrow> nat option" where
  "rb_minimum s node =
     do { l \<leftarrow> rb_left s node;
          case l of None \<Rightarrow> Some node | Some left \<Rightarrow> rb_minimum s left }"

text \<open>The child link of \<open>parent\<close> (or the root) that pointed to \<open>node\<close> now points to \<open>repl\<close>.\<close>

definition rb_relink ::
    "('k, 'v) rb_root_cached \<Rightarrow> nat option \<Rightarrow> nat \<Rightarrow> nat option \<Rightarrow> ('k, 'v) rb_root_cached option" where
  "rb_relink s parent node repl =
     (case parent of
        None \<Rightarrow> Some (s\<lparr>rb_root := repl\<rparr>)
      | Some p \<Rightarrow> do { l \<leftarrow> rb_left s p;
                      if l = Some node then rb_set_left s p repl else rb_set_right s p repl })"

definition rb_transplant ::
    "('k, 'v) rb_root_cached \<Rightarrow> nat \<Rightarrow> nat option \<Rightarrow> ('k, 'v) rb_root_cached option" where
  "rb_transplant s node replacement =
     do { parent \<leftarrow> rb_parent s node;
          s \<leftarrow> rb_relink s parent node replacement;
          rb_set_parent s replacement parent }"

definition rb_rotate_left :: "('k, 'v) rb_root_cached \<Rightarrow> nat \<Rightarrow> ('k, 'v) rb_root_cached option" where
  "rb_rotate_left s node =
     do { r \<leftarrow> rb_right s node;
          pivot \<leftarrow> r;
          pivot_left \<leftarrow> rb_left s pivot;
          s \<leftarrow> rb_set_right s node pivot_left;
          s \<leftarrow> rb_set_parent s pivot_left (Some node);
          parent \<leftarrow> rb_parent s node;
          s \<leftarrow> rb_set_parent s (Some pivot) parent;
          s \<leftarrow> rb_relink s parent node (Some pivot);
          s \<leftarrow> rb_set_left s pivot (Some node);
          rb_set_parent s (Some node) (Some pivot) }"

definition rb_rotate_right :: "('k, 'v) rb_root_cached \<Rightarrow> nat \<Rightarrow> ('k, 'v) rb_root_cached option" where
  "rb_rotate_right s node =
     do { l \<leftarrow> rb_left s node;
          pivot \<leftarrow> l;
          pivot_right \<leftarrow> rb_right s pivot;
          s \<leftarrow> rb_set_left s node pivot_right;
          s \<leftarrow> rb_set_parent s pivot_right (Some node);
          parent \<leftarrow> rb_parent s node;
          s \<leftarrow> rb_set_parent s (Some pivot) parent;
          s \<leftarrow> rb_relink s parent node (Some pivot);
          s \<leftarrow> rb_set_right s pivot (Some node);
          rb_set_parent s (Some node) (Some pivot) }"

subsection \<open>Insertion\<close>

text \<open>The descent of \<open>insert\<close>: from \<open>cursor\<close> with the last node seen in \<open>parent\<close>.\<close>

partial_function (option) rb_descend ::
    "('k::linorder, 'v) rb_root_cached \<Rightarrow> 'k \<Rightarrow> nat option \<Rightarrow> nat option \<Rightarrow> nat option option" where
  "rb_descend s key parent cursor =
     (case cursor of
        None \<Rightarrow> Some parent
      | Some index \<Rightarrow>
          do { k \<leftarrow> rb_key s index;
               next \<leftarrow> (if key < k then rb_left s index else rb_right s index);
               rb_descend s key (Some index) next })"

partial_function (option) rb_insert_fixup ::
    "('k, 'v) rb_root_cached \<Rightarrow> nat \<Rightarrow> ('k, 'v) rb_root_cached option" where
  "rb_insert_fixup s node =
     do { p \<leftarrow> rb_parent s node;
          if rb_color_of s p = Red then
            do { parent \<leftarrow> p;
                 gp \<leftarrow> rb_parent s parent;
                 grandparent \<leftarrow> gp;
                 gl \<leftarrow> rb_left s grandparent;
                 if gl = Some parent then
                   do { uncle \<leftarrow> rb_right s grandparent;
                        if rb_color_of s uncle = Red then
                          do { s \<leftarrow> rb_set_color s (Some parent) Black;
                               u \<leftarrow> uncle;
                               s \<leftarrow> rb_set_color s (Some u) Black;
                               s \<leftarrow> rb_set_color s (Some grandparent) Red;
                               rb_insert_fixup s grandparent }
                        else
                          do { pr \<leftarrow> rb_right s parent;
                               (s, node) \<leftarrow>
                                 (if pr = Some node
                                  then do { s \<leftarrow> rb_rotate_left s parent; Some (s, parent) }
                                  else Some (s, node));
                               p \<leftarrow> rb_parent s node;
                               parent \<leftarrow> p;
                               gp \<leftarrow> rb_parent s parent;
                               grandparent \<leftarrow> gp;
                               s \<leftarrow> rb_set_color s (Some parent) Black;
                               s \<leftarrow> rb_set_color s (Some grandparent) Red;
                               s \<leftarrow> rb_rotate_right s grandparent;
                               rb_insert_fixup s node } }
                 else
                   do { uncle \<leftarrow> rb_left s grandparent;
                        if rb_color_of s uncle = Red then
                          do { s \<leftarrow> rb_set_color s (Some parent) Black;
                               u \<leftarrow> uncle;
                               s \<leftarrow> rb_set_color s (Some u) Black;
                               s \<leftarrow> rb_set_color s (Some grandparent) Red;
                               rb_insert_fixup s grandparent }
                        else
                          do { pl \<leftarrow> rb_left s parent;
                               (s, node) \<leftarrow>
                                 (if pl = Some node
                                  then do { s \<leftarrow> rb_rotate_right s parent; Some (s, parent) }
                                  else Some (s, node));
                               p \<leftarrow> rb_parent s node;
                               parent \<leftarrow> p;
                               gp \<leftarrow> rb_parent s parent;
                               grandparent \<leftarrow> gp;
                               s \<leftarrow> rb_set_color s (Some parent) Black;
                               s \<leftarrow> rb_set_color s (Some grandparent) Red;
                               s \<leftarrow> rb_rotate_left s grandparent;
                               rb_insert_fixup s node } } }
          else
            rb_set_color s (rb_root s) Black }"

text \<open>
  Where the new node goes: the last freed slot if there is one (\<open>free_slots.pop()\<close>; the
  vector's end is the end of the list), else a new slot at the end of the arena.
\<close>

definition rb_alloc ::
    "('k, 'v) rb_root_cached \<Rightarrow> ('k, 'v) rb_node \<Rightarrow> (('k, 'v) rb_root_cached \<times> nat) option" where
  "rb_alloc s node =
     (if rb_free_slots s \<noteq> []
      then (let index = last (rb_free_slots s) in
            if index < length (rb_nodes s)
            then Some (s\<lparr>rb_free_slots := butlast (rb_free_slots s),
                         rb_nodes := (rb_nodes s)[index := Some node]\<rparr>, index)
            else None)
      else Some (s\<lparr>rb_nodes := rb_nodes s @ [Some node]\<rparr>, length (rb_nodes s)))"

definition rb_insert ::
    "('k::linorder, 'v) rb_root_cached \<Rightarrow> 'k \<Rightarrow> 'v \<Rightarrow> ('k, 'v) rb_root_cached option" where
  "rb_insert s key value =
     do { parent \<leftarrow> rb_descend s key None (rb_root s);
          (s, index) \<leftarrow> rb_alloc s \<lparr>n_key = key, n_value = value, n_parent = parent,
                                    n_left = None, n_right = None, n_color = Red\<rparr>;
          s \<leftarrow> (case parent of
                 Some p \<Rightarrow> do { k \<leftarrow> rb_key s p;
                               if key < k then rb_set_left s p (Some index)
                               else rb_set_right s p (Some index) }
               | None \<Rightarrow> Some (s\<lparr>rb_root := Some index\<rparr>));
          s \<leftarrow> (case rb_leftmost s of
                 None \<Rightarrow> Some (s\<lparr>rb_leftmost := Some index\<rparr>)
               | Some lm \<Rightarrow> do { k \<leftarrow> rb_key s lm;
                                Some (if key < k then s\<lparr>rb_leftmost := Some index\<rparr> else s) });
          rb_insert_fixup (s\<lparr>rb_len := rb_len s + 1\<rparr>) index }"

subsection \<open>Removal\<close>

partial_function (option) rb_delete_fixup ::
    "('k, 'v) rb_root_cached \<Rightarrow> nat option \<Rightarrow> nat option \<Rightarrow> ('k, 'v) rb_root_cached option" where
  "rb_delete_fixup s node parent =
     (if node \<noteq> rb_root s \<and> rb_color_of s node = Black \<and> parent \<noteq> None then
        do { parent_index \<leftarrow> parent;
             pl \<leftarrow> rb_left s parent_index;
             if node = pl then
               do { sibling \<leftarrow> rb_right s parent_index;
                    (s, sibling) \<leftarrow>
                      (if rb_color_of s sibling = Red then
                         do { s \<leftarrow> rb_set_color s sibling Black;
                              s \<leftarrow> rb_set_color s (Some parent_index) Red;
                              s \<leftarrow> rb_rotate_left s parent_index;
                              sibling \<leftarrow> rb_right s parent_index;
                              Some (s, sibling) }
                       else Some (s, sibling));
                    near \<leftarrow> rb_left_of s sibling;
                    far \<leftarrow> rb_right_of s sibling;
                    if rb_color_of s near = Black \<and> rb_color_of s far = Black then
                      do { s \<leftarrow> rb_set_color s sibling Red;
                           parent \<leftarrow> rb_parent s parent_index;
                           rb_delete_fixup s (Some parent_index) parent }
                    else
                      do { (s, sibling) \<leftarrow>
                             (if rb_color_of s far = Black then
                                do { s \<leftarrow> rb_set_color s near Black;
                                     s \<leftarrow> rb_set_color s sibling Red;
                                     s \<leftarrow> (case sibling of Some i \<Rightarrow> rb_rotate_right s i | None \<Rightarrow> Some s);
                                     sibling \<leftarrow> rb_right s parent_index;
                                     Some (s, sibling) }
                              else Some (s, sibling));
                           s \<leftarrow> rb_set_color s sibling (rb_color_of s (Some parent_index));
                           s \<leftarrow> rb_set_color s (Some parent_index) Black;
                           far \<leftarrow> rb_right_of s sibling;
                           s \<leftarrow> rb_set_color s far Black;
                           s \<leftarrow> rb_rotate_left s parent_index;
                           rb_delete_fixup s (rb_root s) None } }
             else
               do { sibling \<leftarrow> rb_left s parent_index;
                    (s, sibling) \<leftarrow>
                      (if rb_color_of s sibling = Red then
                         do { s \<leftarrow> rb_set_color s sibling Black;
                              s \<leftarrow> rb_set_color s (Some parent_index) Red;
                              s \<leftarrow> rb_rotate_right s parent_index;
                              sibling \<leftarrow> rb_left s parent_index;
                              Some (s, sibling) }
                       else Some (s, sibling));
                    near \<leftarrow> rb_right_of s sibling;
                    far \<leftarrow> rb_left_of s sibling;
                    if rb_color_of s near = Black \<and> rb_color_of s far = Black then
                      do { s \<leftarrow> rb_set_color s sibling Red;
                           parent \<leftarrow> rb_parent s parent_index;
                           rb_delete_fixup s (Some parent_index) parent }
                    else
                      do { (s, sibling) \<leftarrow>
                             (if rb_color_of s far = Black then
                                do { s \<leftarrow> rb_set_color s near Black;
                                     s \<leftarrow> rb_set_color s sibling Red;
                                     s \<leftarrow> (case sibling of Some i \<Rightarrow> rb_rotate_left s i | None \<Rightarrow> Some s);
                                     sibling \<leftarrow> rb_left s parent_index;
                                     Some (s, sibling) }
                              else Some (s, sibling));
                           s \<leftarrow> rb_set_color s sibling (rb_color_of s (Some parent_index));
                           s \<leftarrow> rb_set_color s (Some parent_index) Black;
                           far \<leftarrow> rb_left_of s sibling;
                           s \<leftarrow> rb_set_color s far Black;
                           s \<leftarrow> rb_rotate_right s parent_index;
                           rb_delete_fixup s (rb_root s) None } } }
      else rb_set_color s node Black)"

text \<open>The search of \<open>remove\<close>; \<open>Some None\<close> is \<open>cursor?\<close> returning early.\<close>

partial_function (option) rb_search ::
    "('k::linorder, 'v) rb_root_cached \<Rightarrow> 'k \<Rightarrow> nat option \<Rightarrow> nat option option" where
  "rb_search s key cursor =
     (case cursor of
        None \<Rightarrow> Some None
      | Some index \<Rightarrow>
          do { k \<leftarrow> rb_key s index;
               if key = k then Some (Some index)
               else do { next \<leftarrow> (if key < k then rb_left s index else rb_right s index);
                         rb_search s key next } })"

text \<open>
  The unlinking part of \<open>remove\<close>: the state, the colour taken out of the tree, and the
  replacement with its parent, before the slot of \<open>target\<close> is emptied.
\<close>

definition rb_unlink ::
    "('k, 'v) rb_root_cached \<Rightarrow> nat
      \<Rightarrow> (('k, 'v) rb_root_cached \<times> rb_color \<times> nat option \<times> nat option) option" where
  "rb_unlink s target =
     do { tl \<leftarrow> rb_left s target;
          tr \<leftarrow> rb_right s target;
          if tl = None then
            do { replacement_parent \<leftarrow> rb_parent s target;
                 s' \<leftarrow> rb_transplant s target tr;
                 Some (s', rb_color_of s (Some target), tr, replacement_parent) }
          else if tr = None then
            do { replacement_parent \<leftarrow> rb_parent s target;
                 s' \<leftarrow> rb_transplant s target tl;
                 Some (s', rb_color_of s (Some target), tl, replacement_parent) }
          else
            do { r \<leftarrow> tr;
                 moved \<leftarrow> rb_minimum s r;
                 replacement \<leftarrow> rb_right s moved;
                 mp \<leftarrow> rb_parent s moved;
                 (s', replacement_parent) \<leftarrow>
                   (if mp = Some target then
                      do { s' \<leftarrow> rb_set_parent s replacement (Some moved);
                           Some (s', Some moved) }
                    else
                      do { s' \<leftarrow> rb_transplant s moved replacement;
                           target_right \<leftarrow> rb_right s' target;
                           s' \<leftarrow> rb_set_right s' moved target_right;
                           s' \<leftarrow> rb_set_parent s' target_right (Some moved);
                           Some (s', mp) });
                 s' \<leftarrow> rb_transplant s' target (Some moved);
                 target_left \<leftarrow> rb_left s' target;
                 s' \<leftarrow> rb_set_left s' moved target_left;
                 s' \<leftarrow> rb_set_parent s' target_left (Some moved);
                 s' \<leftarrow> rb_set_color s' (Some moved) (rb_color_of s' (Some target));
                 Some (s', rb_color_of s (Some moved), replacement, replacement_parent) } }"

text \<open>\<open>nodes[target].take()\<close>, the push on the free list, and the refreshed leftmost cache.\<close>

definition rb_release ::
    "('k, 'v) rb_root_cached \<Rightarrow> nat \<Rightarrow> (('k, 'v) rb_root_cached \<times> 'v) option" where
  "rb_release s target =
     do { n \<leftarrow> rb_slot s target;
          s \<leftarrow> Some (s\<lparr>rb_nodes := (rb_nodes s)[target := None],
                      rb_free_slots := rb_free_slots s @ [target],
                      rb_len := rb_len s - 1\<rparr>);
          lm \<leftarrow> (case rb_root s of
                  None \<Rightarrow> Some None
                | Some root \<Rightarrow> do { m \<leftarrow> rb_minimum s root; Some (Some m) });
          Some (s\<lparr>rb_leftmost := lm\<rparr>, n_value n) }"

definition rb_remove ::
    "('k::linorder, 'v) rb_root_cached \<Rightarrow> 'k \<Rightarrow> (('k, 'v) rb_root_cached \<times> 'v option) option" where
  "rb_remove s key =
     do { found \<leftarrow> rb_search s key (rb_root s);
          case found of
            None \<Rightarrow> Some (s, None)
          | Some target \<Rightarrow>
              do { (s, removed_color, replacement, replacement_parent) \<leftarrow> rb_unlink s target;
                   (s, removed) \<leftarrow> rb_release s target;
                   s \<leftarrow> (if removed_color = Black
                         then rb_delete_fixup s replacement replacement_parent
                         else Some s);
                   Some (s, Some removed) } }"

definition rb_pop_first ::
    "('k::linorder, 'v) rb_root_cached \<Rightarrow> (('k, 'v) rb_root_cached \<times> 'v option) option" where
  "rb_pop_first s =
     (case rb_first_key s of None \<Rightarrow> Some (s, None) | Some key \<Rightarrow> rb_remove s key)"

text \<open>\<open>remove_where\<close> scans the arena in slot order and removes by the key it finds.\<close>

definition rb_remove_where ::
    "('v \<Rightarrow> bool) \<Rightarrow> ('k::linorder, 'v) rb_root_cached \<Rightarrow> (('k, 'v) rb_root_cached \<times> 'v option) option" where
  "rb_remove_where P s =
     (case List.find (\<lambda>n. P (n_value n)) (List.map_filter id (rb_nodes s)) of
        None \<Rightarrow> Some (s, None)
      | Some n \<Rightarrow> rb_remove s (n_key n))"

end
