(* ===== verification/Rb_Shape.thy ===== *)
theory Rb_Shape
  imports Rb_Arena
begin

text \<open>
  The abstraction of the arena: a tree whose nodes carry their slot index, contexts
  (one-hole trees) for the position of a loop inside it, the relation between an arena and
  a tree, and the effect of the primitive updates and of the two rotations on it.
\<close>

subsection \<open>Index trees and contexts\<close>

datatype ('k, 'v) itree =
    Leaf
  | Node nat rb_color 'k 'v "('k, 'v) itree" "('k, 'v) itree"

datatype ('k, 'v) frame =
    InL nat rb_color 'k 'v "('k, 'v) itree" \<comment> \<open>the hole is the left child; the right subtree is kept\<close>
  | InR nat rb_color 'k 'v "('k, 'v) itree" \<comment> \<open>the hole is the right child; the left subtree is kept\<close>

type_synonym ('k, 'v) ctx = "('k, 'v) frame list"

fun tref :: "('k, 'v) itree \<Rightarrow> nat option" where
  "tref Leaf = None"
| "tref (Node i c k v l r) = Some i"

fun hue :: "('k, 'v) itree \<Rightarrow> rb_color" where
  "hue Leaf = Black"
| "hue (Node i c k v l r) = c"

fun paint :: "rb_color \<Rightarrow> ('k, 'v) itree \<Rightarrow> ('k, 'v) itree" where
  "paint c Leaf = Leaf"
| "paint c (Node i c' k v l r) = Node i c k v l r"

fun entries :: "('k, 'v) itree \<Rightarrow> (nat \<times> 'k \<times> 'v) list" where
  "entries Leaf = []"
| "entries (Node i c k v l r) = entries l @ (i, k, v) # entries r"

abbreviation idxs :: "('k, 'v) itree \<Rightarrow> nat list" where
  "idxs t \<equiv> map fst (entries t)"

fun ids :: "('k, 'v) itree \<Rightarrow> nat set" where
  "ids Leaf = {}"
| "ids (Node i c k v l r) = insert i (ids l \<union> ids r)"

fun apart :: "('k, 'v) itree \<Rightarrow> bool" where
  "apart Leaf = True"
| "apart (Node i c k v l r) =
     (i \<notin> ids l \<and> i \<notin> ids r \<and> ids l \<inter> ids r = {} \<and> apart l \<and> apart r)"

lemma ids_entries: "fst ` set (entries t) = ids t"
  by (induction t) (auto simp: image_Un)

lemma distinct_idxs: "distinct (idxs t) = apart t"
  by (induction t) (auto simp: ids_entries)

fun frame_idx :: "('k, 'v) frame \<Rightarrow> nat" where
  "frame_idx (InL i c k v r) = i"
| "frame_idx (InR i c k v l) = i"

fun frame_color :: "('k, 'v) frame \<Rightarrow> rb_color" where
  "frame_color (InL i c k v r) = c"
| "frame_color (InR i c k v l) = c"

fun frame_sib :: "('k, 'v) frame \<Rightarrow> ('k, 'v) itree" where
  "frame_sib (InL i c k v r) = r"
| "frame_sib (InR i c k v l) = l"

fun plug :: "('k, 'v) ctx \<Rightarrow> ('k, 'v) itree \<Rightarrow> ('k, 'v) itree" where
  "plug [] t = t"
| "plug (InL i c k v r # fs) t = plug fs (Node i c k v t r)"
| "plug (InR i c k v l # fs) t = plug fs (Node i c k v l t)"

fun up :: "('k, 'v) ctx \<Rightarrow> nat option" where
  "up [] = None"
| "up (f # fs) = Some (frame_idx f)"

fun before :: "('k, 'v) ctx \<Rightarrow> (nat \<times> 'k \<times> 'v) list" where
  "before [] = []"
| "before (InL i c k v r # fs) = before fs"
| "before (InR i c k v l # fs) = before fs @ entries l @ [(i, k, v)]"

fun after :: "('k, 'v) ctx \<Rightarrow> (nat \<times> 'k \<times> 'v) list" where
  "after [] = []"
| "after (InL i c k v r # fs) = (i, k, v) # entries r @ after fs"
| "after (InR i c k v l # fs) = after fs"

fun ctx_idxs :: "('k, 'v) ctx \<Rightarrow> nat set" where
  "ctx_idxs [] = {}"
| "ctx_idxs (f # fs) = insert (frame_idx f) (ids (frame_sib f) \<union> ctx_idxs fs)"

lemma entries_plug: "entries (plug fs t) = before fs @ entries t @ after fs"
  by (induction fs t rule: plug.induct) auto

lemma plug_append: "plug (fs @ gs) t = plug gs (plug fs t)"
  by (induction fs t rule: plug.induct) auto

lemma before_append: "before (fs @ gs) = before gs @ before fs"
  by (induction fs rule: before.induct) auto

lemma after_append: "after (fs @ gs) = after fs @ after gs"
  by (induction fs rule: after.induct) auto

lemma ctx_idxs_before_after: "ctx_idxs fs = fst ` set (before fs) \<union> fst ` set (after fs)"
  by (induction fs rule: before.induct) (auto simp: ids_entries image_Un)

lemma ctx_idxs_append: "ctx_idxs (fs @ gs) = ctx_idxs fs \<union> ctx_idxs gs"
  by (induction fs) auto

lemma entries_paint [simp]: "entries (paint c t) = entries t"
  by (cases t) auto

lemma tref_paint [simp]: "tref (paint c t) = tref t"
  by (cases t) auto

lemma tref_in_idxs: "tref t = Some i \<Longrightarrow> i \<in> ids t"
  by (cases t) auto

lemma tref_neq [simp]: "i \<notin> ids t \<Longrightarrow> tref t \<noteq> Some i" "i \<notin> ids t \<Longrightarrow> Some i \<noteq> tref t"
  by (cases t; auto)+

lemma tref_None_iff [simp]: "tref t = None \<longleftrightarrow> t = Leaf"
  by (cases t) auto

lemma hue_paint: "hue (paint c t) = (if t = Leaf then Black else c)"
  by (cases t) auto

text \<open>Distinct indices, split along a context.\<close>

fun ctx_sep :: "('k, 'v) ctx \<Rightarrow> bool" where
  "ctx_sep [] = True"
| "ctx_sep (f # fs) =
     (apart (frame_sib f) \<and> frame_idx f \<notin> ids (frame_sib f)
      \<and> frame_idx f \<notin> ctx_idxs fs \<and> ids (frame_sib f) \<inter> ctx_idxs fs = {} \<and> ctx_sep fs)"

definition sep :: "('k, 'v) ctx \<Rightarrow> ('k, 'v) itree \<Rightarrow> bool" where
  "sep fs t \<longleftrightarrow> apart t \<and> ids t \<inter> ctx_idxs fs = {} \<and> ctx_sep fs"

lemma sep_plug: "sep fs t = apart (plug fs t)"
  unfolding sep_def by (induction fs t rule: plug.induct) auto

lemma sep_entries_cong: "entries t = entries t' \<Longrightarrow> sep fs t = sep fs t'"
  by (metis sep_plug distinct_idxs entries_plug)

lemma Un_disjoint [simp]:
  "(A \<union> B) \<inter> C = {} \<longleftrightarrow> A \<inter> C = {} \<and> B \<inter> C = {}"
  "C \<inter> (A \<union> B) = {} \<longleftrightarrow> C \<inter> A = {} \<and> C \<inter> B = {}"
  by blast+

subsection \<open>An arena holds a tree\<close>

type_synonym ('k, 'v) cells = "nat \<Rightarrow> ('k, 'v) rb_node option"

fun tree_at :: "('k, 'v) cells \<Rightarrow> nat option \<Rightarrow> ('k, 'v) itree \<Rightarrow> bool" where
  "tree_at m p Leaf = True"
| "tree_at m p (Node i c k v l r) =
     (m i = Some \<lparr>n_key = k, n_value = v, n_parent = p, n_left = tref l, n_right = tref r, n_color = c\<rparr>
      \<and> tree_at m (Some i) l \<and> tree_at m (Some i) r)"

fun ctx_at :: "('k, 'v) cells \<Rightarrow> nat option \<Rightarrow> ('k, 'v) ctx \<Rightarrow> bool" where
  "ctx_at m h [] = True"
| "ctx_at m h (InL i c k v r # fs) =
     (m i = Some \<lparr>n_key = k, n_value = v, n_parent = up fs, n_left = h, n_right = tref r, n_color = c\<rparr>
      \<and> tree_at m (Some i) r \<and> ctx_at m (Some i) fs)"
| "ctx_at m h (InR i c k v l # fs) =
     (m i = Some \<lparr>n_key = k, n_value = v, n_parent = up fs, n_left = tref l, n_right = h, n_color = c\<rparr>
      \<and> tree_at m (Some i) l \<and> ctx_at m (Some i) fs)"

lemma tree_at_plug:
  "tree_at m None (plug fs t) \<longleftrightarrow> ctx_at m (tref t) fs \<and> tree_at m (up fs) t"
  by (induction fs t rule: plug.induct) auto

lemma tree_at_upd [simp]: "i \<notin> ids t \<Longrightarrow> tree_at (m(i := x)) p t = tree_at m p t"
  by (induction t arbitrary: p) auto

lemma ctx_at_upd [simp]: "i \<notin> ctx_idxs fs \<Longrightarrow> ctx_at (m(i := x)) h fs = ctx_at m h fs"
  by (induction m h fs rule: ctx_at.induct) auto

lemma tree_at_cell:
  "tree_at m p t \<Longrightarrow> (i, k, v) \<in> set (entries t) \<Longrightarrow> \<exists>n. m i = Some n \<and> n_key n = k \<and> n_value n = v"
  by (induction t arbitrary: p) auto

lemma tree_at_dom: "tree_at m p t \<Longrightarrow> i \<in> ids t \<Longrightarrow> m i \<noteq> None"
  by (auto simp: ids_entries [symmetric] dest: tree_at_cell)

definition tip :: "('k, 'v) ctx \<Rightarrow> ('k, 'v) itree \<Rightarrow> nat option" where
  "tip fs t = tref (plug fs t)"

lemma tip_simps [simp]:
  "tip [] t = tref t"
  "tip (InL i c k v r # fs) t = tip fs (Node i c k v t r)"
  "tip (InR i c k v l # fs) t = tip fs (Node i c k v l t)"
  by (simp_all add: tip_def)

lemma tip_eq: "tip fs t = (if fs = [] then tref t else Some (frame_idx (last fs)))"
  unfolding tip_def by (induction fs t rule: plug.induct) auto

lemma up_in_ctx [simp]: "up fs = Some p \<Longrightarrow> p \<in> ctx_idxs fs"
  by (cases fs) auto

text \<open>The state \<open>s\<close> holds the tree \<open>plug fs t\<close>.\<close>

definition holds :: "('k, 'v) rb_root_cached \<Rightarrow> ('k, 'v) ctx \<Rightarrow> ('k, 'v) itree \<Rightarrow> bool" where
  "holds s fs t \<longleftrightarrow> ctx_at (rb_slot s) (tref t) fs \<and> tree_at (rb_slot s) (up fs) t
     \<and> rb_root s = tip fs t \<and> sep fs t"

lemma holds_plug: "holds s fs t = holds s [] (plug fs t)"
  by (auto simp: holds_def tree_at_plug tip_def sep_plug)

lemma holds_InL: "holds s (InL i c k v r # fs) t = holds s fs (Node i c k v t r)"
  by (subst (1 2) holds_plug) simp

lemma holds_InR: "holds s (InR i c k v l # fs) t = holds s fs (Node i c k v l t)"
  by (subst (1 2) holds_plug) simp

lemma holds_append: "holds s (fs @ gs) t = holds s gs (plug fs t)"
  by (subst (1 2) holds_plug) (simp add: plug_append)

text \<open>What the in-place updates leave alone.\<close>

definition same_frame :: "('k, 'v) rb_root_cached \<Rightarrow> ('k, 'v) rb_root_cached \<Rightarrow> bool" where
  "same_frame s s' \<longleftrightarrow> rb_leftmost s' = rb_leftmost s \<and> rb_free_slots s' = rb_free_slots s
     \<and> rb_len s' = rb_len s \<and> length (rb_nodes s') = length (rb_nodes s)
     \<and> dom (rb_slot s') = dom (rb_slot s)"

lemma same_frame_refl [simp]: "same_frame s s"
  by (simp add: same_frame_def)

lemma same_frame_trans [trans]: "same_frame s s' \<Longrightarrow> same_frame s' s'' \<Longrightarrow> same_frame s s''"
  by (simp add: same_frame_def)

subsection \<open>In-place updates\<close>

definition put :: "('k, 'v) rb_root_cached \<Rightarrow> nat \<Rightarrow> ('k, 'v) rb_node \<Rightarrow> ('k, 'v) rb_root_cached" where
  "put s i n = s\<lparr>rb_nodes := (rb_nodes s)[i := Some n]\<rparr>"

lemma rb_slot_lt: "rb_slot s i = Some n \<Longrightarrow> i < length (rb_nodes s)"
  by (simp add: rb_slot_def split: if_splits)

lemma rb_slot_put [simp]: "rb_slot s i = Some n' \<Longrightarrow> rb_slot (put s i n) = (rb_slot s)(i \<mapsto> n)"
  by (auto simp: rb_slot_def put_def fun_eq_iff split: if_splits)

lemma put_fields [simp]:
  "rb_root (put s i n) = rb_root s"
  "rb_leftmost (put s i n) = rb_leftmost s"
  "rb_free_slots (put s i n) = rb_free_slots s"
  "rb_len (put s i n) = rb_len s"
  "length (rb_nodes (put s i n)) = length (rb_nodes s)"
  by (simp_all add: put_def)

lemma rb_slot_other_fields [simp]:
  "rb_slot (s\<lparr>rb_root := x\<rparr>) = rb_slot s"
  "rb_slot (s\<lparr>rb_leftmost := y\<rparr>) = rb_slot s"
  "rb_slot (s\<lparr>rb_len := n\<rparr>) = rb_slot s"
  "rb_slot (s\<lparr>rb_free_slots := fr\<rparr>) = rb_slot s"
  by (simp_all add: rb_slot_def fun_eq_iff)

lemma same_frame_put [simp]: "rb_slot s i = Some n' \<Longrightarrow> same_frame s0 (put s i n) = same_frame s0 s"
  by (auto simp: same_frame_def dom_def)

lemma same_frame_root [simp]: "same_frame s0 (s\<lparr>rb_root := x\<rparr>) = same_frame s0 s"
  by (simp add: same_frame_def)

lemma rb_modify_Some [simp]: "rb_slot s i = Some n \<Longrightarrow> rb_modify f s i = Some (put s i (f n))"
  by (simp add: rb_modify_def put_def)

lemmas rb_access = rb_left_def rb_right_def rb_parent_def rb_key_def rb_color_of_def
  rb_left_of_def rb_right_of_def
lemmas rb_update = rb_set_left_def rb_set_right_def rb_set_parent_def rb_set_color_def

subsection \<open>Rotations\<close>

lemma rotate_left_holds:
  assumes "holds s fs (Node x cx kx vx a (Node y cy ky vy b c))"
  shows "\<exists>s'. rb_rotate_left s x = Some s' \<and> same_frame s s'
     \<and> holds s' fs (Node y cy ky vy (Node x cx kx vx a b) c)"
proof -
  have sep': "sep fs (Node y cy ky vy (Node x cx kx vx a b) c)"
    using assms sep_entries_cong [of "Node x cx kx vx a (Node y cy ky vy b c)"
        "Node y cy ky vy (Node x cx kx vx a b) c" fs] by (simp add: holds_def)
  note defs = rb_rotate_left_def rb_access rb_update rb_relink_def
  from assms have at: "ctx_at (rb_slot s) (Some x) fs"
      "tree_at (rb_slot s) (up fs) (Node x cx kx vx a (Node y cy ky vy b c))"
      "rb_root s = tip fs (Node x cx kx vx a (Node y cy ky vy b c))"
      "sep fs (Node x cx kx vx a (Node y cy ky vy b c))"
    by (simp_all add: holds_def)
  show ?thesis
  proof (cases fs rule: before.cases)
    case 1
    show ?thesis
      using at sep' 1
      by (cases b; simp add: defs sep_def; simp add: holds_def tip_eq sep_def)
  next
    case (2 i cf k v r fs')
    show ?thesis
      using at sep' 2
      by (cases b; simp add: defs sep_def; simp add: holds_def tip_eq sep_def)
  next
    case (3 i cf k v l fs')
    show ?thesis
      using at sep' 3
      by (cases b; simp add: defs sep_def; simp add: holds_def tip_eq sep_def)
  qed
qed

lemma rotate_right_holds:
  assumes "holds s fs (Node y cy ky vy (Node x cx kx vx a b) c)"
  shows "\<exists>s'. rb_rotate_right s y = Some s' \<and> same_frame s s'
     \<and> holds s' fs (Node x cx kx vx a (Node y cy ky vy b c))"
proof -
  have sep': "sep fs (Node x cx kx vx a (Node y cy ky vy b c))"
    using assms sep_entries_cong [of "Node x cx kx vx a (Node y cy ky vy b c)"
        "Node y cy ky vy (Node x cx kx vx a b) c" fs] by (simp add: holds_def)
  note defs = rb_rotate_right_def rb_access rb_update rb_relink_def
  from assms have at: "ctx_at (rb_slot s) (Some y) fs"
      "tree_at (rb_slot s) (up fs) (Node y cy ky vy (Node x cx kx vx a b) c)"
      "rb_root s = tip fs (Node y cy ky vy (Node x cx kx vx a b) c)"
      "sep fs (Node y cy ky vy (Node x cx kx vx a b) c)"
    by (simp_all add: holds_def)
  show ?thesis
  proof (cases fs rule: before.cases)
    case 1
    show ?thesis
      using at sep' 1
      by (cases b; simp add: defs sep_def; simp add: holds_def tip_eq sep_def)
  next
    case (2 i cf k v r fs')
    show ?thesis
      using at sep' 2
      by (cases b; simp add: defs sep_def; simp add: holds_def tip_eq sep_def)
  next
    case (3 i cf k v l fs')
    show ?thesis
      using at sep' 3
      by (cases b; simp add: defs sep_def; simp add: holds_def tip_eq sep_def)
  qed
qed

subsection \<open>Reading and painting at the hole\<close>

lemma holds_slot:
  "holds s fs (Node i c k v l r) \<Longrightarrow>
   rb_slot s i = Some \<lparr>n_key = k, n_value = v, n_parent = up fs, n_left = tref l, n_right = tref r, n_color = c\<rparr>"
  by (simp add: holds_def)

lemma holds_read:
  assumes "holds s fs (Node i c k v l r)"
  shows "rb_left s i = Some (tref l)" "rb_right s i = Some (tref r)"
    "rb_parent s i = Some (up fs)" "rb_key s i = Some k"
    "rb_left_of s (Some i) = Some (tref l)" "rb_right_of s (Some i) = Some (tref r)"
    "rb_color_of s (Some i) = c"
  using holds_slot [OF assms] by (simp_all add: rb_access)

lemma holds_color: "holds s fs t \<Longrightarrow> rb_color_of s (tref t) = hue t"
  by (cases t) (simp_all add: holds_read, simp add: rb_color_of_def)

lemma holds_frame_slot:
  assumes "holds s (f # fs) t"
  shows "rb_parent s (frame_idx f) = Some (up fs)"
    "rb_color_of s (Some (frame_idx f)) = frame_color f"
    "rb_left s (frame_idx f) = Some (case f of InL i c k v r \<Rightarrow> tref t | InR i c k v l \<Rightarrow> tref l)"
    "rb_right s (frame_idx f) = Some (case f of InL i c k v r \<Rightarrow> tref r | InR i c k v l \<Rightarrow> tref t)"
  using assms by (cases f; simp add: holds_InL holds_InR holds_read)+

lemma holds_up_color: "holds s fs t \<Longrightarrow> rb_color_of s (up fs) = (case fs of [] \<Rightarrow> Black | f # _ \<Rightarrow> frame_color f)"
  by (cases fs) (simp_all add: holds_frame_slot, simp add: rb_color_of_def)

lemma set_color_holds:
  assumes "holds s fs t"
  shows "\<exists>s'. rb_set_color s (tref t) c = Some s' \<and> same_frame s s' \<and> holds s' fs (paint c t)"
proof (cases t)
  case Leaf
  with assms show ?thesis by (simp add: rb_set_color_def)
next
  case (Node i c' k v l r)
  with assms have sl: "rb_slot s i = Some \<lparr>n_key = k, n_value = v, n_parent = up fs,
      n_left = tref l, n_right = tref r, n_color = c'\<rparr>"
    by (simp add: holds_slot)
  have "tip fs (Node i c k v l r) = tip fs (Node i c' k v l r)"
    by (simp add: tip_eq)
  with assms sl Node show ?thesis
    by (simp add: rb_set_color_def holds_def sep_def)
qed

lemma set_color_Node:
  assumes "holds s fs (Node i c' k v l r)"
  obtains s' where "rb_set_color s (Some i) c = Some s'" "same_frame s s'"
    "holds s' fs (Node i c k v l r)"
  using set_color_holds [OF assms, of c] by auto

lemma rotate_left_Node:
  assumes "holds s fs (Node x cx kx vx a (Node y cy ky vy b c))"
  obtains s' where "rb_rotate_left s x = Some s'" "same_frame s s'"
    "holds s' fs (Node y cy ky vy (Node x cx kx vx a b) c)"
  using rotate_left_holds [OF assms] by auto

lemma rotate_right_Node:
  assumes "holds s fs (Node y cy ky vy (Node x cx kx vx a b) c)"
  obtains s' where "rb_rotate_right s y = Some s'" "same_frame s s'"
    "holds s' fs (Node x cx kx vx a (Node y cy ky vy b c))"
  using rotate_right_holds [OF assms] by auto

subsection \<open>Red-black invariants\<close>

fun bheight :: "('k, 'v) itree \<Rightarrow> nat" where
  "bheight Leaf = 0"
| "bheight (Node i c k v l r) = bheight l + (if c = Black then 1 else 0)"

fun invh :: "('k, 'v) itree \<Rightarrow> bool" where
  "invh Leaf = True"
| "invh (Node i c k v l r) = (bheight l = bheight r \<and> invh l \<and> invh r)"

fun invc :: "('k, 'v) itree \<Rightarrow> bool" where
  "invc Leaf = True"
| "invc (Node i c k v l r) =
     ((c = Red \<longrightarrow> hue l = Black \<and> hue r = Black) \<and> invc l \<and> invc r)"

text \<open>
  The same for a context: \<open>cinvh n fs\<close> when a hole of black height \<open>n\<close> is what the context
  needs, \<open>cinvc fs\<close> when the frames have no red node with a red parent or a red sibling and
  the outermost frame is black.
\<close>

fun cinvh :: "nat \<Rightarrow> ('k, 'v) ctx \<Rightarrow> bool" where
  "cinvh n [] = True"
| "cinvh n (f # fs) =
     (bheight (frame_sib f) = n \<and> invh (frame_sib f)
      \<and> cinvh (n + (if frame_color f = Black then 1 else 0)) fs)"

fun ctop :: "('k, 'v) ctx \<Rightarrow> rb_color" where
  "ctop [] = Black"
| "ctop (f # fs) = frame_color f"

fun cinvc :: "('k, 'v) ctx \<Rightarrow> bool" where
  "cinvc [] = True"
| "cinvc (f # fs) =
     (invc (frame_sib f) \<and> cinvc fs
      \<and> (frame_color f = Red \<longrightarrow> hue (frame_sib f) = Black \<and> fs \<noteq> [] \<and> ctop fs = Black))"

definition balanced :: "('k, 'v) itree \<Rightarrow> bool" where
  "balanced t \<longleftrightarrow> invc t \<and> invh t \<and> hue t = Black"

lemma not_Black [simp]: "c \<noteq> Black \<longleftrightarrow> c = Red"
  by (cases c) auto

lemma not_Red [simp]: "c \<noteq> Red \<longleftrightarrow> c = Black"
  by (cases c) auto

lemma invh_plug: "invh (plug fs t) \<longleftrightarrow> invh t \<and> cinvh (bheight t) fs"
  by (induction fs t rule: plug.induct) auto

lemma invc_plug:
  "invc t \<Longrightarrow> cinvc fs \<Longrightarrow> (ctop fs = Red \<longrightarrow> hue t = Black) \<Longrightarrow> invc (plug fs t)"
proof (induction fs arbitrary: t)
  case (Cons f fs)
  show ?case
  proof (cases f)
    case (InL i c k v r)
    with Cons.prems Cons.IH [of "Node i c k v t r"] show ?thesis
      by (cases c) auto
  next
    case (InR i c k v l)
    with Cons.prems Cons.IH [of "Node i c k v l t"] show ?thesis
      by (cases c) auto
  qed
qed simp

lemma invc_plugD:
  "invc (plug fs t) \<Longrightarrow> hue (plug fs t) = Black
    \<Longrightarrow> invc t \<and> cinvc fs \<and> (ctop fs = Red \<longrightarrow> hue t = Black)"
proof (induction fs arbitrary: t)
  case (Cons f fs)
  show ?case
  proof (cases f)
    case (InL i c k v r)
    with Cons.prems Cons.IH [of "Node i c k v t r"] show ?thesis
      by (cases fs; cases c) auto
  next
    case (InR i c k v l)
    with Cons.prems Cons.IH [of "Node i c k v l t"] show ?thesis
      by (cases fs; cases c) auto
  qed
qed simp

lemma hue_plug: "fs \<noteq> [] \<Longrightarrow> hue (plug fs t) = frame_color (last fs)"
proof (induction fs arbitrary: t)
  case (Cons f fs)
  then show ?case by (cases f; cases fs) auto
qed simp

lemma cinvc_last: "cinvc fs \<Longrightarrow> fs \<noteq> [] \<Longrightarrow> frame_color (last fs) = Black"
  by (induction fs) auto

lemma balanced_plug:
  assumes "invc t" "invh t" "cinvc fs" "cinvh (bheight t) fs" "ctop fs = Red \<longrightarrow> hue t = Black"
    "fs = [] \<longrightarrow> hue t = Black"
  shows "balanced (plug fs t)"
  using assms invh_plug [of fs t] invc_plug [of t fs]
  by (cases "fs = []") (auto simp: balanced_def hue_plug cinvc_last)

lemma balanced_plugD:
  assumes "balanced (plug fs t)"
  shows "invc t" "invh t" "cinvc fs" "cinvh (bheight t) fs" "ctop fs = Red \<longrightarrow> hue t = Black"
    "fs = [] \<longrightarrow> hue t = Black"
  using assms invh_plug [of fs t] invc_plugD [of fs t]
  by (auto simp: balanced_def)

end
