(* ===== verification/Rb_Insert.thy ===== *)
theory Rb_Insert
  imports Rb_Shape
begin

text \<open>
  Insertion: the fix-up loop ends and restores the red-black shape, and \<open>insert\<close> puts the
  new entry behind every entry whose key is not larger.
\<close>

subsection \<open>The loop of \<open>insert_fixup\<close>\<close>

lemma balanced_paint_plug:
  assumes "invc t" "invh t" "cinvc fs" "cinvh (bheight t) fs" "ctop fs = Red \<longrightarrow> hue t = Black"
  shows "balanced (paint Black (plug fs t))"
proof (cases "fs = []")
  case True
  with assms show ?thesis by (cases t) (auto simp: balanced_def)
next
  case False
  with assms have b: "balanced (plug fs t)" by (intro balanced_plug) auto
  then have "paint Black (plug fs t) = plug fs t"
    by (cases "plug fs t") (auto simp: balanced_def)
  with b show ?thesis by simp
qed

text \<open>
  \<open>settles s r fs t\<close>: the computation \<open>r\<close>, started in \<open>s\<close>, ends in a state that holds a
  balanced tree with the entries of \<open>plug fs t\<close> in their order, the rest of \<open>s\<close> unchanged.
\<close>

definition settles ::
    "('k, 'v) rb_root_cached \<Rightarrow> ('k, 'v) rb_root_cached option \<Rightarrow> ('k, 'v) ctx \<Rightarrow> ('k, 'v) itree \<Rightarrow> bool" where
  "settles s r fs t \<longleftrightarrow> (\<exists>s' t'. r = Some s' \<and> same_frame s s' \<and> holds s' [] t' \<and> balanced t'
     \<and> entries t' = entries (plug fs t))"

lemma settles_step:
  assumes "\<exists>s1. r = F s1 \<and> same_frame s s1 \<and> holds s1 fs1 t1"
    and "\<And>s1. holds s1 fs1 t1 \<Longrightarrow> settles s1 (F s1) fs1 t1"
    and "entries (plug fs1 t1) = entries (plug fs t)"
  shows "settles s r fs t"
  using assms same_frame_trans unfolding settles_def by metis

lemma insert_fixup_exit:
  assumes "holds s fs (Node x c k v l r)" "ctop fs = Black"
    "invc (Node x c k v l r)" "invh (Node x c k v l r)" "cinvc fs"
    "cinvh (bheight (Node x c k v l r)) fs"
  shows "settles s (rb_insert_fixup s x) fs (Node x c k v l r)"
proof -
  let ?t = "Node x c k v l r"
  have "rb_parent s x = Some (up fs)" "rb_color_of s (up fs) = Black"
    using assms(1,2) by (auto simp: holds_read holds_up_color split: list.split)
  then have eq: "rb_insert_fixup s x = rb_set_color s (rb_root s) Black"
    by (subst rb_insert_fixup.simps) simp
  have h: "holds s [] (plug fs ?t)" using assms(1) holds_plug [of s fs ?t] by blast
  then have "rb_root s = tref (plug fs ?t)" by (simp add: holds_def)
  with eq set_color_holds [OF h, of Black] obtain s' where
    "rb_insert_fixup s x = Some s'" "same_frame s s'" "holds s' [] (paint Black (plug fs ?t))"
    by auto
  moreover have "balanced (paint Black (plug fs ?t))"
    using assms by (intro balanced_paint_plug) auto
  ultimately show ?thesis
    unfolding settles_def by (intro exI [of _ s'] exI [of _ "paint Black (plug fs ?t)"]) simp
qed

text \<open>A red uncle: both sons of the grandparent become black and the loop moves up.\<close>

lemma fixup_recolor_left:
  assumes h: "holds s (f # InL g Black kg vg u # fs) t" and x: "tref t = Some x"
    and red: "frame_color f = Red" "hue u = Red"
  shows "\<exists>s'. rb_insert_fixup s x = rb_insert_fixup s' g \<and> same_frame s s'
    \<and> holds s' fs (Node g Red kg vg (paint Black (plug [f] t)) (paint Black u))"
proof -
  obtain p where p: "frame_idx f = p" by simp
  let ?P = "plug [f] t"
  have hP: "holds s (InL g Black kg vg u # fs) ?P" using h by (cases f) (simp_all add: holds_InL holds_InR)
  then have hG: "holds s fs (Node g Black kg vg ?P u)" by (simp add: holds_InL)
  then have hU: "holds s (InR g Black kg vg ?P # fs) u" by (simp add: holds_InR)
  have tP: "tref ?P = Some p" using p by (cases f) auto
  obtain u' where u': "tref u = Some u'" using red(2) by (cases u) auto
  obtain s1 where s1: "rb_set_color s (tref ?P) Black = Some s1" "same_frame s s1"
      "holds s1 (InL g Black kg vg u # fs) (paint Black ?P)"
    using set_color_holds [OF hP, of Black] by auto
  have "holds s1 (InR g Black kg vg (paint Black ?P) # fs) u"
    using s1(3) by (simp add: holds_InL holds_InR)
  then obtain s2 where s2: "rb_set_color s1 (tref u) Black = Some s2" "same_frame s1 s2"
      "holds s2 (InR g Black kg vg (paint Black ?P) # fs) (paint Black u)"
    using set_color_holds by blast
  have "holds s2 fs (Node g Black kg vg (paint Black ?P) (paint Black u))"
    using s2(3) by (simp add: holds_InR)
  then obtain s3 where s3: "rb_set_color s2 (Some g) Red = Some s3" "same_frame s2 s3"
      "holds s3 fs (Node g Red kg vg (paint Black ?P) (paint Black u))"
    by (rule set_color_Node)
  have xi: "rb_parent s x = Some (Some p)"
    using h x p by (cases t) (auto simp: holds_read)
  have "rb_insert_fixup s x = rb_insert_fixup s3 g"
    using holds_frame_slot [OF h] holds_frame_slot [OF hP] holds_color [OF hU] red p x xi tP u' s1 s2 s3
    by (subst rb_insert_fixup.simps) simp
  with s1 s2 s3 show ?thesis using same_frame_trans by blast
qed

lemma holds_sib_neq:
  assumes "holds s (f # fs) t" "tref t = Some x"
  shows "tref (frame_sib f) \<noteq> Some x"
  using assms tref_in_idxs [of t x] tref_in_idxs [of "frame_sib f" x]
  by (auto simp: holds_def sep_def)

lemma fixup_recolor_right:
  assumes h: "holds s (f # InR g Black kg vg u # fs) t" and x: "tref t = Some x"
    and red: "frame_color f = Red" "hue u = Red"
  shows "\<exists>s'. rb_insert_fixup s x = rb_insert_fixup s' g \<and> same_frame s s'
    \<and> holds s' fs (Node g Red kg vg (paint Black u) (paint Black (plug [f] t)))"
proof -
  obtain p where p: "frame_idx f = p" by simp
  let ?P = "plug [f] t"
  have hP: "holds s (InR g Black kg vg u # fs) ?P" using h by (cases f) (simp_all add: holds_InL holds_InR)
  then have hG: "holds s fs (Node g Black kg vg u ?P)" by (simp add: holds_InR)
  then have hU: "holds s (InL g Black kg vg ?P # fs) u" by (simp add: holds_InL)
  have tP: "tref ?P = Some p" using p by (cases f) auto
  obtain u' where u': "tref u = Some u'" using red(2) by (cases u) auto
  obtain s1 where s1: "rb_set_color s (tref ?P) Black = Some s1" "same_frame s s1"
      "holds s1 (InR g Black kg vg u # fs) (paint Black ?P)"
    using set_color_holds [OF hP, of Black] by auto
  have "holds s1 (InL g Black kg vg (paint Black ?P) # fs) u"
    using s1(3) by (simp add: holds_InL holds_InR)
  then obtain s2 where s2: "rb_set_color s1 (tref u) Black = Some s2" "same_frame s1 s2"
      "holds s2 (InL g Black kg vg (paint Black ?P) # fs) (paint Black u)"
    using set_color_holds by blast
  have "holds s2 fs (Node g Black kg vg (paint Black u) (paint Black ?P))"
    using s2(3) by (simp add: holds_InL)
  then obtain s3 where s3: "rb_set_color s2 (Some g) Red = Some s3" "same_frame s2 s3"
      "holds s3 fs (Node g Red kg vg (paint Black u) (paint Black ?P))"
    by (rule set_color_Node)
  have xi: "rb_parent s x = Some (Some p)"
    using h x p by (cases t) (auto simp: holds_read)
  have "rb_insert_fixup s x = rb_insert_fixup s3 g"
    using holds_frame_slot [OF h] holds_frame_slot [OF hP] holds_sib_neq [OF hP tP] holds_color [OF hU]
      red p x xi tP u' s1 s2 s3
    by (subst rb_insert_fixup.simps) simp
  with s1 s2 s3 show ?thesis using same_frame_trans by blast
qed

text \<open>A black uncle: one or two rotations, after which the parent is black.\<close>

lemma fixup_outer_left:
  assumes h: "holds s (InL p Red kp vp b # InL g Black kg vg u # fs) (Node x c k v l r)" and u: "hue u = Black"
  shows "\<exists>s'. rb_insert_fixup s x = rb_insert_fixup s' x \<and> same_frame s s'
    \<and> holds s' (InL p Black kp vp (Node g Red kg vg b u) # fs) (Node x c k v l r)"
proof -
  let ?X = "Node x c k v l r"
  have hP: "holds s (InL g Black kg vg u # fs) (Node p Red kp vp ?X b)" using h by (simp add: holds_InL)
  then have hU: "holds s (InR g Black kg vg (Node p Red kp vp ?X b) # fs) u" by (simp add: holds_InL holds_InR)
  obtain s1 where s1: "rb_set_color s (Some p) Black = Some s1" "same_frame s s1"
      "holds s1 (InL g Black kg vg u # fs) (Node p Black kp vp ?X b)"
    using hP by (rule set_color_Node)
  then have "holds s1 fs (Node g Black kg vg (Node p Black kp vp ?X b) u)" by (simp add: holds_InL)
  then obtain s2 where s2: "rb_set_color s1 (Some g) Red = Some s2" "same_frame s1 s2"
      "holds s2 fs (Node g Red kg vg (Node p Black kp vp ?X b) u)"
    by (rule set_color_Node)
  obtain s3 where s3: "rb_rotate_right s2 g = Some s3" "same_frame s2 s3"
      "holds s3 fs (Node p Black kp vp ?X (Node g Red kg vg b u))"
    using s2(3) by (rule rotate_right_Node)
  have "rb_insert_fixup s x = rb_insert_fixup s3 x"
    using holds_read [OF h] holds_frame_slot [OF h] holds_frame_slot [OF hP] holds_sib_neq [OF h]
      holds_color [OF hU] u s1 s2 s3
    by (subst rb_insert_fixup.simps) simp
  with s1 s2 s3 show ?thesis using same_frame_trans by (metis holds_InL)
qed

lemma fixup_inner_left:
  assumes h: "holds s (InR p Red kp vp a # InL g Black kg vg u # fs) (Node x c k v l r)" and u: "hue u = Black"
  shows "\<exists>s'. rb_insert_fixup s x = rb_insert_fixup s' p \<and> same_frame s s'
    \<and> holds s' (InL x Black k v (Node g Red kg vg r u) # fs) (Node p Red kp vp a l)"
proof -
  let ?X = "Node x c k v l r"
  have hP: "holds s (InL g Black kg vg u # fs) (Node p Red kp vp a ?X)" using h by (simp add: holds_InR)
  then have hU: "holds s (InR g Black kg vg (Node p Red kp vp a ?X) # fs) u" by (simp add: holds_InL holds_InR)
  obtain s0 where s0: "rb_rotate_left s p = Some s0" "same_frame s s0"
      "holds s0 (InL g Black kg vg u # fs) (Node x c k v (Node p Red kp vp a l) r)"
    using hP by (rule rotate_left_Node)
  then have h0: "holds s0 (InL x c k v r # InL g Black kg vg u # fs) (Node p Red kp vp a l)" by (simp add: holds_InL)
  obtain s1 where s1: "rb_set_color s0 (Some x) Black = Some s1" "same_frame s0 s1"
      "holds s1 (InL g Black kg vg u # fs) (Node x Black k v (Node p Red kp vp a l) r)"
    using s0(3) by (rule set_color_Node)
  then have "holds s1 fs (Node g Black kg vg (Node x Black k v (Node p Red kp vp a l) r) u)" by (simp add: holds_InL)
  then obtain s2 where s2: "rb_set_color s1 (Some g) Red = Some s2" "same_frame s1 s2"
      "holds s2 fs (Node g Red kg vg (Node x Black k v (Node p Red kp vp a l) r) u)"
    by (rule set_color_Node)
  obtain s3 where s3: "rb_rotate_right s2 g = Some s3" "same_frame s2 s3"
      "holds s3 fs (Node x Black k v (Node p Red kp vp a l) (Node g Red kg vg r u))"
    using s2(3) by (rule rotate_right_Node)
  have "rb_insert_fixup s x = rb_insert_fixup s3 p"
    using holds_read [OF h] holds_frame_slot [OF h] holds_frame_slot [OF hP] holds_color [OF hU] u
      s0 s1 s2 s3 holds_read [OF h0] holds_frame_slot [OF h0]
    by (subst rb_insert_fixup.simps) simp
  with s0 s1 s2 s3 show ?thesis using same_frame_trans by (metis holds_InL)
qed

lemma fixup_outer_right:
  assumes h: "holds s (InR p Red kp vp a # InR g Black kg vg u # fs) (Node x c k v l r)" and u: "hue u = Black"
  shows "\<exists>s'. rb_insert_fixup s x = rb_insert_fixup s' x \<and> same_frame s s'
    \<and> holds s' (InR p Black kp vp (Node g Red kg vg u a) # fs) (Node x c k v l r)"
proof -
  let ?X = "Node x c k v l r"
  have hP: "holds s (InR g Black kg vg u # fs) (Node p Red kp vp a ?X)" using h by (simp add: holds_InR)
  then have hU: "holds s (InL g Black kg vg (Node p Red kp vp a ?X) # fs) u" by (simp add: holds_InL holds_InR)
  obtain s1 where s1: "rb_set_color s (Some p) Black = Some s1" "same_frame s s1"
      "holds s1 (InR g Black kg vg u # fs) (Node p Black kp vp a ?X)"
    using hP by (rule set_color_Node)
  then have "holds s1 fs (Node g Black kg vg u (Node p Black kp vp a ?X))" by (simp add: holds_InR)
  then obtain s2 where s2: "rb_set_color s1 (Some g) Red = Some s2" "same_frame s1 s2"
      "holds s2 fs (Node g Red kg vg u (Node p Black kp vp a ?X))"
    by (rule set_color_Node)
  obtain s3 where s3: "rb_rotate_left s2 g = Some s3" "same_frame s2 s3"
      "holds s3 fs (Node p Black kp vp (Node g Red kg vg u a) ?X)"
    using s2(3) by (rule rotate_left_Node)
  have "rb_insert_fixup s x = rb_insert_fixup s3 x"
    using holds_read [OF h] holds_frame_slot [OF h] holds_frame_slot [OF hP] holds_sib_neq [OF h]
      holds_sib_neq [OF hP] holds_color [OF hU] u s1 s2 s3
    by (subst rb_insert_fixup.simps) simp
  with s1 s2 s3 show ?thesis using same_frame_trans by (metis holds_InR)
qed

lemma fixup_inner_right:
  assumes h: "holds s (InL p Red kp vp b # InR g Black kg vg u # fs) (Node x c k v l r)" and u: "hue u = Black"
  shows "\<exists>s'. rb_insert_fixup s x = rb_insert_fixup s' p \<and> same_frame s s'
    \<and> holds s' (InR x Black k v (Node g Red kg vg u l) # fs) (Node p Red kp vp r b)"
proof -
  let ?X = "Node x c k v l r"
  have hP: "holds s (InR g Black kg vg u # fs) (Node p Red kp vp ?X b)" using h by (simp add: holds_InL)
  then have hU: "holds s (InL g Black kg vg (Node p Red kp vp ?X b) # fs) u" by (simp add: holds_InL holds_InR)
  obtain s0 where s0: "rb_rotate_right s p = Some s0" "same_frame s s0"
      "holds s0 (InR g Black kg vg u # fs) (Node x c k v l (Node p Red kp vp r b))"
    using hP by (rule rotate_right_Node)
  then have h0: "holds s0 (InR x c k v l # InR g Black kg vg u # fs) (Node p Red kp vp r b)" by (simp add: holds_InR)
  obtain s1 where s1: "rb_set_color s0 (Some x) Black = Some s1" "same_frame s0 s1"
      "holds s1 (InR g Black kg vg u # fs) (Node x Black k v l (Node p Red kp vp r b))"
    using s0(3) by (rule set_color_Node)
  then have "holds s1 fs (Node g Black kg vg u (Node x Black k v l (Node p Red kp vp r b)))" by (simp add: holds_InR)
  then obtain s2 where s2: "rb_set_color s1 (Some g) Red = Some s2" "same_frame s1 s2"
      "holds s2 fs (Node g Red kg vg u (Node x Black k v l (Node p Red kp vp r b)))"
    by (rule set_color_Node)
  obtain s3 where s3: "rb_rotate_left s2 g = Some s3" "same_frame s2 s3"
      "holds s3 fs (Node x Black k v (Node g Red kg vg u l) (Node p Red kp vp r b))"
    using s2(3) by (rule rotate_left_Node)
  have "rb_insert_fixup s x = rb_insert_fixup s3 p"
    using holds_read [OF h] holds_frame_slot [OF h] holds_frame_slot [OF hP] holds_sib_neq [OF hP]
      holds_color [OF hU] u s0 s1 s2 s3 holds_read [OF h0] holds_frame_slot [OF h0]
    by (subst rb_insert_fixup.simps) simp
  with s0 s1 s2 s3 show ?thesis using same_frame_trans by (metis holds_InR)
qed

text \<open>
  The whole loop: from a red node whose only possible flaw is a red parent, it ends with a
  balanced tree holding the same entries in the same order.
\<close>

lemma invc_plug1: "invc (plug [f] t) \<longleftrightarrow>
    invc t \<and> invc (frame_sib f) \<and> (frame_color f = Red \<longrightarrow> hue t = Black \<and> hue (frame_sib f) = Black)"
  by (cases f) auto

lemma invc_paint_plug1: "invc (paint Black (plug [f] t)) \<longleftrightarrow> invc t \<and> invc (frame_sib f)"
  by (cases f) auto

lemma bheight_paint_plug1:
  "bheight t = bheight (frame_sib f) \<Longrightarrow> bheight (paint Black (plug [f] t)) = Suc (bheight t)"
  by (cases f) auto

lemma invh_paint [simp]: "invh (paint c t) = invh t"
  by (cases t) auto

lemma invh_plug1:
  "invh (plug [f] t) \<longleftrightarrow> bheight t = bheight (frame_sib f) \<and> invh t \<and> invh (frame_sib f)"
  by (cases f) auto

lemma paint_Red_facts:
  "hue u = Red \<Longrightarrow> bheight (paint Black u) = Suc (bheight u)"
  "invc u \<Longrightarrow> invc (paint Black u)"
  by (cases u; auto)+

lemma fixup_black_left:
  assumes h: "holds s (f # InL g Black kg vg u # fs) (Node x Red k v l r)"
    and "frame_color f = Red" "hue u = Black"
    and "invc (Node x Red k v l r)" "invh (Node x Red k v l r)"
    and "cinvc (f # InL g Black kg vg u # fs)" "cinvh (bheight l) (f # InL g Black kg vg u # fs)"
  shows "settles s (rb_insert_fixup s x) (f # InL g Black kg vg u # fs) (Node x Red k v l r)"
proof (cases f)
  case (InL p cp kp vp b)
  with assms have cp: "cp = Red" by simp
  show ?thesis unfolding InL cp
    by (rule settles_step [OF fixup_outer_left [OF h [unfolded InL cp] assms(3)]])
      (use assms InL in \<open>auto simp: entries_plug intro!: insert_fixup_exit\<close>)
next
  case (InR p cp kp vp a)
  with assms have cp: "cp = Red" by simp
  show ?thesis unfolding InR cp
    by (rule settles_step [OF fixup_inner_left [OF h [unfolded InR cp] assms(3)]])
      (use assms InR in \<open>auto simp: entries_plug intro!: insert_fixup_exit\<close>)
qed

lemma fixup_black_right:
  assumes h: "holds s (f # InR g Black kg vg u # fs) (Node x Red k v l r)"
    and "frame_color f = Red" "hue u = Black"
    and "invc (Node x Red k v l r)" "invh (Node x Red k v l r)"
    and "cinvc (f # InR g Black kg vg u # fs)" "cinvh (bheight l) (f # InR g Black kg vg u # fs)"
  shows "settles s (rb_insert_fixup s x) (f # InR g Black kg vg u # fs) (Node x Red k v l r)"
proof (cases f)
  case (InL p cp kp vp b)
  with assms have cp: "cp = Red" by simp
  show ?thesis unfolding InL cp
    by (rule settles_step [OF fixup_inner_right [OF h [unfolded InL cp] assms(3)]])
      (use assms InL in \<open>auto simp: entries_plug intro!: insert_fixup_exit\<close>)
next
  case (InR p cp kp vp a)
  with assms have cp: "cp = Red" by simp
  show ?thesis unfolding InR cp
    by (rule settles_step [OF fixup_outer_right [OF h [unfolded InR cp] assms(3)]])
      (use assms InR in \<open>auto simp: entries_plug intro!: insert_fixup_exit\<close>)
qed

lemma recolor_inv:
  assumes "frame_color f = Red" "hue u = Red" "invc t" "invh t"
    "cinvc (f # f2 # fs)" "cinvh (bheight t) (f # f2 # fs)" "frame_sib f2 = u" "frame_color f2 = Black"
  shows "invc (paint Black (plug [f] t))" "invc (paint Black u)" "invh (plug [f] t)" "invh u"
    "bheight (paint Black (plug [f] t)) = Suc (bheight t)" "bheight (paint Black u) = Suc (bheight t)"
    "hue (paint Black (plug [f] t)) = Black" "hue (paint Black u) = Black"
    "cinvc fs" "cinvh (Suc (bheight t)) fs"
  using assms by (auto simp: invc_paint_plug1 bheight_paint_plug1 invh_plug1 paint_Red_facts hue_paint)

lemma insert_fixup_holds:
  assumes "holds s fs (Node x Red k v l r)" "invc (Node x Red k v l r)" "invh (Node x Red k v l r)"
    "cinvc fs" "cinvh (bheight l) fs"
  shows "settles s (rb_insert_fixup s x) fs (Node x Red k v l r)"
  using assms
proof (induction "length fs" arbitrary: s fs x k v l r rule: less_induct)
  case less
  let ?X = "Node x Red k v l r"
  show ?case
  proof (cases "ctop fs = Black")
    case True
    with less.prems show ?thesis by (intro insert_fixup_exit) auto
  next
    case False
    then obtain f gs where f: "fs = f # gs" "frame_color f = Red" by (cases fs) auto
    then obtain f2 fs' where f2: "gs = f2 # fs'" "frame_color f2 = Black"
      using less.prems by (cases gs) auto
    note fs0 = f(1) [unfolded f2(1)]
    note facts = less.prems [unfolded fs0]
    have bh: "cinvh (bheight ?X) (f # f2 # fs')" using facts(5) by simp
    note inv = recolor_inv [OF f(2) _ facts(2,3,4) bh refl f2(2)]
    show ?thesis
    proof (cases f2)
      case (InL g c kg vg u)
      with f2 have f2': "f2 = InL g Black kg vg u" by simp
      show ?thesis
      proof (cases "hue u")
        case Red
        have "settles s1 (rb_insert_fixup s1 g) fs' (Node g Red kg vg (paint Black (plug [f] ?X)) (paint Black u))"
          if "holds s1 fs' (Node g Red kg vg (paint Black (plug [f] ?X)) (paint Black u))" for s1
          by (rule less.hyps [OF _ that]) (use inv Red f2' fs0 in simp_all)
        then show ?thesis unfolding fs0 f2'
          by (rule settles_step [OF fixup_recolor_left [OF facts(1) [unfolded f2'] tref.simps(2) f(2) Red]])
            (use before_append [of "[f]" "InL g Black kg vg u # fs'"] after_append [of "[f]" "InL g Black kg vg u # fs'"]
              in \<open>simp_all add: entries_plug\<close>)
      next
        case Black
        show ?thesis unfolding fs0 f2'
          using facts [unfolded f2'] f(2) Black by (intro fixup_black_left)
      qed
    next
      case (InR g c kg vg u)
      with f2 have f2': "f2 = InR g Black kg vg u" by simp
      show ?thesis
      proof (cases "hue u")
        case Red
        have "settles s1 (rb_insert_fixup s1 g) fs' (Node g Red kg vg (paint Black u) (paint Black (plug [f] ?X)))"
          if "holds s1 fs' (Node g Red kg vg (paint Black u) (paint Black (plug [f] ?X)))" for s1
          by (rule less.hyps [OF _ that]) (use inv Red f2' fs0 in simp_all)
        then show ?thesis unfolding fs0 f2'
          by (rule settles_step [OF fixup_recolor_right [OF facts(1) [unfolded f2'] tref.simps(2) f(2) Red]])
            (use before_append [of "[f]" "InR g Black kg vg u # fs'"] after_append [of "[f]" "InR g Black kg vg u # fs'"]
              in \<open>simp_all add: entries_plug\<close>)
      next
        case Black
        show ?thesis unfolding fs0 f2'
          using facts [unfolded f2'] f(2) Black by (intro fixup_black_right)
      qed
    qed
  qed
qed

end
