(* ===== verification/Rb_Repr.thy ===== *)
theory Rb_Repr
  imports Rb_Insert
begin

text \<open>
  The representation invariant of the whole structure (tree, free list, cached leftmost
  index, length), its executable contents, and the correctness of \<open>insert\<close>.
\<close>

subsection \<open>Representation\<close>

definition first_idx :: "(nat \<times> 'k \<times> 'v) list \<Rightarrow> nat option" where
  "first_idx es = (case es of [] \<Rightarrow> None | e # _ \<Rightarrow> Some (fst e))"

definition free_ok :: "('k, 'v) rb_root_cached \<Rightarrow> bool" where
  "free_ok s \<longleftrightarrow> distinct (rb_free_slots s)
     \<and> set (rb_free_slots s) = {..<length (rb_nodes s)} - dom (rb_slot s)"

definition rb_repr :: "('k, 'v) rb_root_cached \<Rightarrow> ('k, 'v) itree \<Rightarrow> bool" where
  "rb_repr s t \<longleftrightarrow> holds s [] t \<and> dom (rb_slot s) = ids t \<and> free_ok s
     \<and> rb_leftmost s = first_idx (entries t) \<and> rb_len s = length (entries t)"

abbreviation keys :: "(nat \<times> 'k \<times> 'v) list \<Rightarrow> 'k list" where
  "keys es \<equiv> map (\<lambda>e. fst (snd e)) es"

definition rb_inv :: "('k::linorder, 'v) rb_root_cached \<Rightarrow> bool" where
  "rb_inv s \<longleftrightarrow> (\<exists>t. rb_repr s t \<and> balanced t \<and> sorted (keys (entries t)))"

text \<open>The entries in key order, read off the arena with as much fuel as it has slots.\<close>

fun rb_walk :: "('k, 'v) rb_root_cached \<Rightarrow> nat \<Rightarrow> nat option \<Rightarrow> ('k \<times> 'v) list" where
  "rb_walk s (Suc n) (Some i) =
     (case rb_slot s i of
        None \<Rightarrow> []
      | Some nd \<Rightarrow> rb_walk s n (n_left nd) @ (n_key nd, n_value nd) # rb_walk s n (n_right nd))"
| "rb_walk s n c = []"

definition rb_contents :: "('k, 'v) rb_root_cached \<Rightarrow> ('k \<times> 'v) list" where
  "rb_contents s = rb_walk s (length (rb_nodes s)) (rb_root s)"

lemma free_ok_cong:
  "free_ok s \<Longrightarrow> same_frame s s' \<Longrightarrow> free_ok s'"
  by (simp add: free_ok_def same_frame_def)

lemma walk_tree_at:
  "tree_at (rb_slot s) p t \<Longrightarrow> length (entries t) \<le> n \<Longrightarrow> rb_walk s n (tref t) = map snd (entries t)"
proof (induction t arbitrary: n p)
  case (Node i c k v l r)
  then show ?case by (cases n) auto
qed simp

lemma dom_slot_finite: "finite (dom (rb_slot s))" "card (dom (rb_slot s)) \<le> length (rb_nodes s)"
proof -
  have sub: "dom (rb_slot s) \<subseteq> {..<length (rb_nodes s)}" by (auto dest: rb_slot_lt)
  then show "finite (dom (rb_slot s))" by (rule finite_subset) simp
  show "card (dom (rb_slot s)) \<le> length (rb_nodes s)"
    using card_mono [OF _ sub] by simp
qed

lemma repr_length: "rb_repr s t \<Longrightarrow> length (entries t) \<le> length (rb_nodes s)"
  using dom_slot_finite(2) [of s] distinct_card [of "idxs t"]
  by (simp add: rb_repr_def holds_def sep_def distinct_idxs ids_entries)

lemma repr_contents: "rb_repr s t \<Longrightarrow> rb_contents s = map snd (entries t)"
  using repr_length [of s t] walk_tree_at [of s None t "length (rb_nodes s)"]
  by (auto simp: rb_contents_def rb_repr_def holds_def)

lemma keys_snd: "keys es = map fst (map snd es)"
  by simp

lemma rb_inv_sorted: "rb_inv s \<Longrightarrow> sorted (map fst (rb_contents s))"
  by (auto simp: rb_inv_def repr_contents comp_def)

subsection \<open>The descent\<close>

lemma descend_holds:
  assumes "holds s fs t" "sorted (keys (entries t))"
  shows "\<exists>gs. plug gs Leaf = t \<and> rb_descend s key (up fs) (tref t) = Some (up (gs @ fs))
     \<and> (\<forall>e \<in> set (before gs). fst (snd e) \<le> key) \<and> (\<forall>e \<in> set (after gs). key < fst (snd e))"
  using assms
proof (induction t arbitrary: fs)
  case Leaf
  show ?case by (rule exI [of _ "[]"]) (simp add: rb_descend.simps)
next
  case (Node i c k v l r)
  note rd = holds_read [OF Node.prems(1)]
  show ?case
  proof (cases "key < k")
    case True
    from Node.prems have "holds s (InL i c k v r # fs) l" by (simp add: holds_InL)
    from Node.IH(1) [OF this] Node.prems obtain gs where gs: "plug gs Leaf = l"
        "rb_descend s key (Some i) (tref l) = Some (up (gs @ InL i c k v r # fs))"
        "\<forall>e \<in> set (before gs). fst (snd e) \<le> key" "\<forall>e \<in> set (after gs). key < fst (snd e)"
      by (auto simp: sorted_append)
    have "rb_descend s key (up fs) (Some i) = rb_descend s key (Some i) (tref l)"
      using True rd by (subst rb_descend.simps) simp
    with gs True Node.prems(2) show ?thesis
      by (intro exI [of _ "gs @ [InL i c k v r]"])
        (auto simp: plug_append before_append after_append sorted_append)
  next
    case False
    from Node.prems have "holds s (InR i c k v l # fs) r" by (simp add: holds_InR)
    from Node.IH(2) [OF this] Node.prems obtain gs where gs: "plug gs Leaf = r"
        "rb_descend s key (Some i) (tref r) = Some (up (gs @ InR i c k v l # fs))"
        "\<forall>e \<in> set (before gs). fst (snd e) \<le> key" "\<forall>e \<in> set (after gs). key < fst (snd e)"
      by (auto simp: sorted_append)
    have "rb_descend s key (up fs) (Some i) = rb_descend s key (Some i) (tref r)"
      using False rd by (subst rb_descend.simps) simp
    with gs False Node.prems(2) show ?thesis
      by (intro exI [of _ "gs @ [InR i c k v l]"])
        (auto simp: plug_append before_append after_append sorted_append)
  qed
qed

subsection \<open>The new slot and its link\<close>

lemma alloc_fresh:
  assumes "free_ok s"
  obtains s' i where "rb_alloc s n = Some (s', i)" "rb_slot s i = None" "rb_slot s' = (rb_slot s)(i \<mapsto> n)"
    "free_ok s'" "rb_root s' = rb_root s" "rb_leftmost s' = rb_leftmost s" "rb_len s' = rb_len s"
proof (cases "rb_free_slots s = []")
  case True
  let ?s = "s\<lparr>rb_nodes := rb_nodes s @ [Some n]\<rparr>"
  have slot: "rb_slot ?s = (rb_slot s)(length (rb_nodes s) \<mapsto> n)"
    by (auto simp: rb_slot_def fun_eq_iff nth_append)
  with assms True have "free_ok ?s" by (fastforce simp: free_ok_def lessThan_Suc)
  with True slot show ?thesis
    by (intro that [of ?s "length (rb_nodes s)"]) (auto simp: rb_alloc_def rb_slot_def)
next
  case False
  then obtain fr i where fr: "rb_free_slots s = fr @ [i]"
    by (cases "rb_free_slots s" rule: rev_cases) auto
  then have i: "i < length (rb_nodes s)" "rb_slot s i = None" "i \<notin> set fr" "distinct fr"
    "set fr = {..<length (rb_nodes s)} - insert i (dom (rb_slot s))"
    using assms unfolding free_ok_def by auto
  let ?s = "s\<lparr>rb_free_slots := fr, rb_nodes := (rb_nodes s)[i := Some n]\<rparr>"
  have slot: "rb_slot ?s = (rb_slot s)(i \<mapsto> n)"
    using i(1) by (auto simp: rb_slot_def fun_eq_iff)
  have "free_ok ?s" using i by (auto simp: free_ok_def slot)
  with fr i(1,2) slot show ?thesis
    by (intro that [of ?s i]) (auto simp: rb_alloc_def)
qed

lemma link_holds:
  fixes s :: "('k::linorder, 'v) rb_root_cached"
  assumes h: "holds s gs Leaf" and i: "i \<notin> ctx_idxs gs"
    and s': "rb_slot s' = (rb_slot s)(i \<mapsto> \<lparr>n_key = key, n_value = v, n_parent = up gs,
      n_left = None, n_right = None, n_color = Red\<rparr>)" "rb_root s' = rb_root s"
    and key: "\<forall>e \<in> set (before gs). fst (snd e) \<le> key" "\<forall>e \<in> set (after gs). key < fst (snd e)"
  shows "\<exists>s''. (case up gs of
        Some p \<Rightarrow> do { k \<leftarrow> rb_key s' p;
          if key < k then rb_set_left s' p (Some i) else rb_set_right s' p (Some i) }
      | None \<Rightarrow> Some (s'\<lparr>rb_root := Some i\<rparr>)) = Some s''
    \<and> same_frame s' s'' \<and> holds s'' gs (Node i Red key v Leaf Leaf)"
proof (cases gs)
  case Nil
  with h i s' show ?thesis
    by (auto simp: holds_def sep_def same_frame_def)
next
  case (Cons f fs)
  have *: "tip (f # fs) (Node i Red key v Leaf Leaf) = tip (f # fs) Leaf" by (simp add: tip_eq)
  show ?thesis
  proof (cases f)
    case (InL p c k v' r)
    with Cons key(2) have "key < k" by simp
    with InL Cons h i s' * show ?thesis
      by (simp add: holds_def sep_def rb_access rb_update)
  next
    case (InR p c k v' l)
    with Cons key(1) have "\<not> key < k" by auto
    with InR Cons h i s' * show ?thesis
      by (simp add: holds_def sep_def rb_access rb_update)
  qed
qed

subsection \<open>Insertion as a whole\<close>

text \<open>Where the entry goes: behind the entries whose key is not larger (a stable insert).\<close>

definition ins_entry :: "'k::linorder \<Rightarrow> 'v \<Rightarrow> ('k \<times> 'v) list \<Rightarrow> ('k \<times> 'v) list" where
  "ins_entry k v es = takeWhile (\<lambda>e. fst e \<le> k) es @ (k, v) # dropWhile (\<lambda>e. fst e \<le> k) es"

lemma ins_entry_split:
  assumes "\<forall>e \<in> set xs. fst e \<le> k" "\<forall>e \<in> set ys. k < fst e"
  shows "ins_entry k v (xs @ ys) = xs @ (k, v) # ys"
  using assms by (cases ys) (auto simp: ins_entry_def takeWhile_append dropWhile_append)

lemma leftmost_insert:
  fixes s :: "('k::linorder, 'v) rb_root_cached"
  assumes s: "rb_leftmost s = first_idx (before gs @ after gs)"
    and k: "\<And>i k v. (i, k, v) \<in> set (before gs @ after gs) \<Longrightarrow> rb_key s i = Some k"
    and key: "\<forall>e \<in> set (before gs). fst (snd e) \<le> key" "\<forall>e \<in> set (after gs). key < fst (snd e)"
  shows "(case rb_leftmost s of
        None \<Rightarrow> Some (s\<lparr>rb_leftmost := Some i\<rparr>)
      | Some lm \<Rightarrow> do { k \<leftarrow> rb_key s lm; Some (if key < k then s\<lparr>rb_leftmost := Some i\<rparr> else s) })
    = Some (s\<lparr>rb_leftmost := first_idx (before gs @ (i, key, v) # after gs)\<rparr>)"
proof (cases "before gs")
  case Nil
  show ?thesis
  proof (cases "after gs")
    case (Cons e es)
    with Nil s k [of "fst e" "fst (snd e)" "snd (snd e)"] key show ?thesis by (simp add: first_idx_def)
  qed (use Nil s in \<open>simp add: first_idx_def\<close>)
next
  case (Cons e es)
  with s k [of "fst e" "fst (snd e)" "snd (snd e)"] key show ?thesis
    by (cases s) (auto simp: first_idx_def)
qed

lemma insert_repr:
  assumes r: "rb_repr s t" and b: "balanced t" and srt: "sorted (keys (entries t))"
  obtains s' t' es fs i where "rb_insert s key v = Some s'" "rb_repr s' t'" "balanced t'"
    "entries t = es @ fs" "entries t' = es @ (i, key, v) # fs"
    "\<forall>e \<in> set es. fst (snd e) \<le> key" "\<forall>e \<in> set fs. key < fst (snd e)"
proof -
  from r have h: "holds s [] t" and fr: "free_ok s" and d: "dom (rb_slot s) = ids t"
    by (simp_all add: rb_repr_def)
  from descend_holds [OF h srt, of key] h obtain gs where gs: "plug gs Leaf = t"
      "rb_descend s key None (rb_root s) = Some (up gs)"
      and key: "\<forall>e \<in> set (before gs). fst (snd e) \<le> key" "\<forall>e \<in> set (after gs). key < fst (snd e)"
    by (auto simp: holds_def)
  have ent: "entries t = before gs @ after gs" using gs(1) entries_plug [of gs Leaf] by simp
  have hg: "holds s gs Leaf" using h gs(1) holds_plug by metis
  let ?n = "\<lparr>n_key = key, n_value = v, n_parent = up gs, n_left = None, n_right = None, n_color = Red\<rparr>"
  obtain s1 i where s1: "rb_alloc s ?n = Some (s1, i)" "rb_slot s i = None" "rb_slot s1 = (rb_slot s)(i \<mapsto> ?n)"
      "free_ok s1" "rb_root s1 = rb_root s" "rb_leftmost s1 = rb_leftmost s" "rb_len s1 = rb_len s"
    using alloc_fresh [OF fr] by metis
  have "i \<notin> ids t" using d s1(2) by (metis domIff)
  then have i: "i \<notin> ctx_idxs gs" by (metis ctx_idxs_before_after ent ids_entries image_Un set_append)
  let ?N = "Node i Red key v Leaf Leaf"
  obtain s2 where s2: "(case up gs of
        Some p \<Rightarrow> do { k \<leftarrow> rb_key s1 p;
          if key < k then rb_set_left s1 p (Some i) else rb_set_right s1 p (Some i) }
      | None \<Rightarrow> Some (s1\<lparr>rb_root := Some i\<rparr>)) = Some s2" "same_frame s1 s2" "holds s2 gs ?N"
    using link_holds [OF hg i s1(3,5) key] by blast
  have k2: "rb_key s2 j = Some k" if "(j, k, w) \<in> set (before gs @ after gs)" for j k w
  proof -
    have "holds s2 [] (plug gs ?N)" using s2(3) holds_plug by blast
    with that show ?thesis
      using tree_at_cell [of "rb_slot s2" None "plug gs ?N" j k w]
      by (auto simp: holds_def entries_plug rb_key_def)
  qed
  have "rb_leftmost s2 = first_idx (before gs @ after gs)"
    using s2(2) s1(6) r ent by (simp add: same_frame_def rb_repr_def)
  note lm = leftmost_insert [OF this k2 key, where i = i and v = v]
  let ?s3 = "s2\<lparr>rb_leftmost := first_idx (before gs @ (i, key, v) # after gs), rb_len := rb_len s2 + 1\<rparr>"
  have h3: "holds ?s3 gs ?N" using s2(3) by (simp add: holds_def)
  have "settles ?s3 (rb_insert_fixup ?s3 i) gs ?N"
    using b gs(1) balanced_plugD [of gs Leaf] by (intro insert_fixup_holds [OF h3]) auto
  then obtain s4 t4 where s4: "rb_insert_fixup ?s3 i = Some s4" "same_frame ?s3 s4" "holds s4 [] t4"
      "balanced t4" "entries t4 = before gs @ (i, key, v) # after gs"
    by (auto simp: settles_def entries_plug)
  have res: "rb_insert s key v = Some s4"
    using gs(2) s1(1) s2(1) lm s4(1) by (simp add: rb_insert_def)
  have "dom (rb_slot s4) = insert i (ids t)"
    using s4(2) s2(2) s1(3) d by (simp add: same_frame_def)
  also have "\<dots> = ids t4" using s4(5) ent by (simp add: ids_entries [symmetric] image_Un)
  finally have "rb_repr s4 t4"
    using s4(2,3,5) s2(2) s1(4,7) r ent
    by (simp add: rb_repr_def same_frame_def free_ok_def)
  with res s4 ent key show ?thesis using that by metis
qed

end
