(* ===== verification/Rb_Delete.thy ===== *)
theory Rb_Delete
  imports Rb_Repr
begin

text \<open>
  The loop of \<open>delete_fixup\<close>: started at a subtree whose black height is one too small, it
  ends with a balanced tree that holds the same entries in the same order.
\<close>

lemma last_in_ctx: "fs \<noteq> [] \<Longrightarrow> frame_idx (last fs) \<in> ctx_idxs fs"
  by (induction fs) auto

lemma holds_not_root: "holds s (f # fs) t \<Longrightarrow> tref t \<noteq> rb_root s"
proof -
  assume h: "holds s (f # fs) t"
  with last_in_ctx [of "f # fs"] show ?thesis by (auto simp: holds_def sep_def tip_eq dest: tref_in_idxs)
qed

lemma holds_sib_neq': "holds s (f # fs) t \<Longrightarrow> frame_sib f \<noteq> Leaf \<Longrightarrow> tref t \<noteq> tref (frame_sib f)"
  using holds_sib_neq [of s f fs t] by (cases t) (auto simp: eq_commute [of None])

text \<open>What one turn of the loop reads at the parent, on either side.\<close>

lemma enter_left:
  assumes h: "holds s fs (Node p c kp vp t (Node w cw kw vw wl wr))" and b: "hue t = Black"
  shows "tref t \<noteq> rb_root s" "rb_color_of s (tref t) = Black" "rb_color_of s (Some w) = cw"
    "rb_left s p = Some (tref t)" "rb_right s p = Some (Some w)" "rb_color_of s (Some p) = c"
    "rb_parent s p = Some (up fs)" "rb_left_of s (Some w) = Some (tref wl)" "rb_right_of s (Some w) = Some (tref wr)"
    "rb_color_of s (tref wl) = hue wl" "rb_color_of s (tref wr) = hue wr"
proof -
  from h have 1: "holds s (InL p c kp vp (Node w cw kw vw wl wr) # fs) t" by (simp add: holds_InL)
  from h have 2: "holds s (InR p c kp vp t # fs) (Node w cw kw vw wl wr)" by (simp add: holds_InR)
  from 2 have 3: "holds s (InL w cw kw vw wr # InR p c kp vp t # fs) wl" by (simp add: holds_InL)
  from 2 have 4: "holds s (InR w cw kw vw wl # InR p c kp vp t # fs) wr" by (simp add: holds_InR)
  show "tref t \<noteq> rb_root s" "rb_color_of s (tref t) = Black" "rb_color_of s (Some w) = cw"
    "rb_left s p = Some (tref t)" "rb_right s p = Some (Some w)" "rb_color_of s (Some p) = c"
    "rb_parent s p = Some (up fs)" "rb_left_of s (Some w) = Some (tref wl)" "rb_right_of s (Some w) = Some (tref wr)"
    "rb_color_of s (tref wl) = hue wl" "rb_color_of s (tref wr) = hue wr"
    using holds_not_root [OF 1] holds_color [OF 1] b holds_read [OF h] holds_read [OF 2]
      holds_color [OF 3] holds_color [OF 4] by simp_all
qed

lemma enter_right:
  assumes h: "holds s fs (Node p c kp vp (Node w cw kw vw wl wr) t)" and b: "hue t = Black"
  shows "tref t \<noteq> rb_root s" "rb_color_of s (tref t) = Black" "rb_color_of s (Some w) = cw"
    "tref t \<noteq> Some w" "rb_left s p = Some (Some w)" "rb_color_of s (Some p) = c"
    "rb_parent s p = Some (up fs)" "rb_left_of s (Some w) = Some (tref wl)" "rb_right_of s (Some w) = Some (tref wr)"
    "rb_color_of s (tref wl) = hue wl" "rb_color_of s (tref wr) = hue wr"
proof -
  from h have 1: "holds s (InR p c kp vp (Node w cw kw vw wl wr) # fs) t" by (simp add: holds_InR)
  from h have 2: "holds s (InL p c kp vp t # fs) (Node w cw kw vw wl wr)" by (simp add: holds_InL)
  from 2 have 3: "holds s (InL w cw kw vw wr # InL p c kp vp t # fs) wl" by (simp add: holds_InL)
  from 2 have 4: "holds s (InR w cw kw vw wl # InL p c kp vp t # fs) wr" by (simp add: holds_InR)
  show "tref t \<noteq> rb_root s" "rb_color_of s (tref t) = Black" "rb_color_of s (Some w) = cw"
    "tref t \<noteq> Some w" "rb_left s p = Some (Some w)" "rb_color_of s (Some p) = c"
    "rb_parent s p = Some (up fs)" "rb_left_of s (Some w) = Some (tref wl)" "rb_right_of s (Some w) = Some (tref wr)"
    "rb_color_of s (tref wl) = hue wl" "rb_color_of s (tref wr) = hue wr"
    using holds_not_root [OF 1] holds_color [OF 1] b holds_read [OF h] holds_read [OF 2]
      holds_color [OF 3] holds_color [OF 4] holds_sib_neq' [OF 1] by simp_all
qed

lemma delete_exit:
  assumes h: "holds s fs t" and e: "fs = [] \<or> hue t = Red"
    and i: "invc (paint Black t)" "invh t" "cinvc fs" "cinvh (Suc (bheight t)) fs"
  shows "settles s (rb_delete_fixup s (tref t) (up fs)) fs t"
proof -
  have "rb_delete_fixup s (tref t) (up fs) = rb_set_color s (tref t) Black"
    using e h holds_color [OF h] by (subst rb_delete_fixup.simps) (auto simp: holds_def)
  with set_color_holds [OF h, of Black] obtain s' where s':
      "rb_delete_fixup s (tref t) (up fs) = Some s'" "same_frame s s'" "holds s' fs (paint Black t)"
    by auto
  have "balanced (plug fs (paint Black t))"
  proof (cases "fs = []")
    case True
    with i show ?thesis by (cases t) (auto simp: balanced_def)
  next
    case False
    with e i show ?thesis by (intro balanced_plug) (auto simp: paint_Red_facts hue_paint)
  qed
  with s' show ?thesis using holds_plug [of s' fs "paint Black t"]
    by (auto simp: settles_def entries_plug)
qed

subsection \<open>The four cases, focus on the left\<close>

lemma delete_red_sibling_left:
  assumes h: "holds s fs (Node p Black kp vp t (Node w Red kw vw wl wr))" and b: "hue t = Black"
    and wl: "hue wl = Black" "wl \<noteq> Leaf"
  shows "\<exists>s'. rb_delete_fixup s (tref t) (Some p) = rb_delete_fixup s' (tref t) (Some p) \<and> same_frame s s'
    \<and> holds s' (InL w Black kw vw wr # fs) (Node p Red kp vp t wl)"
proof -
  from h have "holds s (InR p Black kp vp t # fs) (Node w Red kw vw wl wr)" by (simp add: holds_InR)
  then obtain s1 where s1: "rb_set_color s (Some w) Black = Some s1" "same_frame s s1"
      "holds s1 (InR p Black kp vp t # fs) (Node w Black kw vw wl wr)" by (rule set_color_Node)
  then have "holds s1 fs (Node p Black kp vp t (Node w Black kw vw wl wr))" by (simp add: holds_InR)
  then obtain s2 where s2: "rb_set_color s1 (Some p) Red = Some s2" "same_frame s1 s2"
      "holds s2 fs (Node p Red kp vp t (Node w Black kw vw wl wr))" by (rule set_color_Node)
  obtain s3 where s3: "rb_rotate_left s2 p = Some s3" "same_frame s2 s3"
      "holds s3 fs (Node w Black kw vw (Node p Red kp vp t wl) wr)"
    using s2(3) by (rule rotate_left_Node)
  then have h3: "holds s3 (InL w Black kw vw wr # fs) (Node p Red kp vp t wl)" by (simp add: holds_InL)
  obtain n kn vn nl nr where n: "wl = Node n Black kn vn nl nr" using wl by (cases wl) auto
  have "rb_delete_fixup s (tref t) (Some p) = rb_delete_fixup s3 (tref t) (Some p)"
    using enter_left [OF h b] enter_left [OF h3 [unfolded n] b] s1(1) s2(1) s3(1)
    by (subst (1 2) rb_delete_fixup.simps) simp
  with s1 s2 s3 h3 show ?thesis using same_frame_trans by metis
qed

lemma delete_black_nephews_left:
  assumes h: "holds s fs (Node p c kp vp t (Node w Black kw vw wl wr))" and b: "hue t = Black"
    and n: "hue wl = Black" "hue wr = Black"
  shows "\<exists>s'. rb_delete_fixup s (tref t) (Some p) = rb_delete_fixup s' (Some p) (up fs) \<and> same_frame s s'
    \<and> holds s' fs (Node p c kp vp t (Node w Red kw vw wl wr))"
proof -
  from h have "holds s (InR p c kp vp t # fs) (Node w Black kw vw wl wr)" by (simp add: holds_InR)
  then obtain s1 where s1: "rb_set_color s (Some w) Red = Some s1" "same_frame s s1"
      "holds s1 (InR p c kp vp t # fs) (Node w Red kw vw wl wr)" by (rule set_color_Node)
  then have h1: "holds s1 fs (Node p c kp vp t (Node w Red kw vw wl wr))" by (simp add: holds_InR)
  have "rb_delete_fixup s (tref t) (Some p) = rb_delete_fixup s1 (Some p) (up fs)"
    using enter_left [OF h b] enter_left [OF h1 b] s1(1) n
    by (subst rb_delete_fixup.simps) simp
  with s1 h1 show ?thesis by blast
qed

lemma delete_near_nephew_left:
  assumes h: "holds s fs (Node p c kp vp t (Node w Black kw vw (Node n Red kn vn nl nr) wr))"
    and b: "hue t = Black" "hue wr = Black"
  shows "\<exists>s'. rb_delete_fixup s (tref t) (Some p) = rb_delete_fixup s' (tref t) (Some p) \<and> same_frame s s'
    \<and> holds s' fs (Node p c kp vp t (Node n Black kn vn nl (Node w Red kw vw nr wr)))"
proof -
  from h have "holds s (InL w Black kw vw wr # InR p c kp vp t # fs) (Node n Red kn vn nl nr)"
    by (simp add: holds_InL holds_InR)
  then obtain s1 where s1: "rb_set_color s (Some n) Black = Some s1" "same_frame s s1"
      "holds s1 (InL w Black kw vw wr # InR p c kp vp t # fs) (Node n Black kn vn nl nr)"
    by (rule set_color_Node)
  then have "holds s1 (InR p c kp vp t # fs) (Node w Black kw vw (Node n Black kn vn nl nr) wr)"
    by (simp add: holds_InL)
  then obtain s2 where s2: "rb_set_color s1 (Some w) Red = Some s2" "same_frame s1 s2"
      "holds s2 (InR p c kp vp t # fs) (Node w Red kw vw (Node n Black kn vn nl nr) wr)"
    by (rule set_color_Node)
  obtain s3 where s3: "rb_rotate_right s2 w = Some s3" "same_frame s2 s3"
      "holds s3 (InR p c kp vp t # fs) (Node n Black kn vn nl (Node w Red kw vw nr wr))"
    using s2(3) by (rule rotate_right_Node)
  then have h3: "holds s3 fs (Node p c kp vp t (Node n Black kn vn nl (Node w Red kw vw nr wr)))"
    by (simp add: holds_InR)
  have "rb_delete_fixup s (tref t) (Some p) = rb_delete_fixup s3 (tref t) (Some p)"
    using enter_left [OF h b(1)] enter_left [OF h3 b(1)] s1(1) s2(1) s3(1) b(2)
    by (subst (1 2) rb_delete_fixup.simps) simp
  with s1 s2 s3 h3 show ?thesis using same_frame_trans by metis
qed

lemma delete_far_nephew_left:
  assumes h: "holds s fs (Node p c kp vp t (Node w Black kw vw wl (Node f Red kf vf fl fr)))"
    and b: "hue t = Black"
  shows "\<exists>s'. rb_delete_fixup s (tref t) (Some p) = rb_set_color s' (rb_root s') Black \<and> same_frame s s'
    \<and> holds s' fs (Node w c kw vw (Node p Black kp vp t wl) (Node f Black kf vf fl fr))"
proof -
  from h have "holds s (InR p c kp vp t # fs) (Node w Black kw vw wl (Node f Red kf vf fl fr))"
    by (simp add: holds_InR)
  then obtain s1 where s1: "rb_set_color s (Some w) c = Some s1" "same_frame s s1"
      "holds s1 (InR p c kp vp t # fs) (Node w c kw vw wl (Node f Red kf vf fl fr))"
    by (rule set_color_Node)
  then have "holds s1 fs (Node p c kp vp t (Node w c kw vw wl (Node f Red kf vf fl fr)))"
    by (simp add: holds_InR)
  then obtain s2 where s2: "rb_set_color s1 (Some p) Black = Some s2" "same_frame s1 s2"
      "holds s2 fs (Node p Black kp vp t (Node w c kw vw wl (Node f Red kf vf fl fr)))"
    by (rule set_color_Node)
  note r2 = enter_left [OF s2(3) b]
  from s2(3) have "holds s2 (InR w c kw vw wl # InR p Black kp vp t # fs) (Node f Red kf vf fl fr)"
    by (simp add: holds_InR)
  then obtain s3 where s3: "rb_set_color s2 (Some f) Black = Some s3" "same_frame s2 s3"
      "holds s3 (InR w c kw vw wl # InR p Black kp vp t # fs) (Node f Black kf vf fl fr)"
    by (rule set_color_Node)
  then have "holds s3 fs (Node p Black kp vp t (Node w c kw vw wl (Node f Black kf vf fl fr)))"
    by (simp add: holds_InR)
  then obtain s4 where s4: "rb_rotate_left s3 p = Some s4" "same_frame s3 s4"
      "holds s4 fs (Node w c kw vw (Node p Black kp vp t wl) (Node f Black kf vf fl fr))"
    by (rule rotate_left_Node)
  have "rb_delete_fixup s4 (rb_root s4) None = rb_set_color s4 (rb_root s4) Black"
    by (subst rb_delete_fixup.simps) simp
  then have "rb_delete_fixup s (tref t) (Some p) = rb_set_color s4 (rb_root s4) Black"
    using enter_left [OF h b] s1(1) s2(1) s3(1) s4(1) r2
    by (subst rb_delete_fixup.simps) simp
  with s1 s2 s3 s4 show ?thesis using same_frame_trans by metis
qed

subsection \<open>The four cases, focus on the right\<close>

lemma delete_red_sibling_right:
  assumes h: "holds s fs (Node p Black kp vp (Node w Red kw vw wr wl) t)" and b: "hue t = Black"
    and wl: "hue wl = Black" "wl \<noteq> Leaf"
  shows "\<exists>s'. rb_delete_fixup s (tref t) (Some p) = rb_delete_fixup s' (tref t) (Some p) \<and> same_frame s s'
    \<and> holds s' (InR w Black kw vw wr # fs) (Node p Red kp vp wl t)"
proof -
  from h have "holds s (InL p Black kp vp t # fs) (Node w Red kw vw wr wl)" by (simp add: holds_InL)
  then obtain s1 where s1: "rb_set_color s (Some w) Black = Some s1" "same_frame s s1"
      "holds s1 (InL p Black kp vp t # fs) (Node w Black kw vw wr wl)" by (rule set_color_Node)
  then have "holds s1 fs (Node p Black kp vp (Node w Black kw vw wr wl) t)" by (simp add: holds_InL)
  then obtain s2 where s2: "rb_set_color s1 (Some p) Red = Some s2" "same_frame s1 s2"
      "holds s2 fs (Node p Red kp vp (Node w Black kw vw wr wl) t)" by (rule set_color_Node)
  obtain s3 where s3: "rb_rotate_right s2 p = Some s3" "same_frame s2 s3"
      "holds s3 fs (Node w Black kw vw wr (Node p Red kp vp wl t))"
    using s2(3) by (rule rotate_right_Node)
  then have h3: "holds s3 (InR w Black kw vw wr # fs) (Node p Red kp vp wl t)" by (simp add: holds_InR)
  obtain n kn vn nl nr where n: "wl = Node n Black kn vn nr nl" using wl by (cases wl) auto
  have "rb_delete_fixup s (tref t) (Some p) = rb_delete_fixup s3 (tref t) (Some p)"
    using enter_right [OF h b] enter_right [OF h3 [unfolded n] b] s1(1) s2(1) s3(1)
    by (subst (1 2) rb_delete_fixup.simps) simp
  with s1 s2 s3 h3 show ?thesis using same_frame_trans by metis
qed

lemma delete_black_nephews_right:
  assumes h: "holds s fs (Node p c kp vp (Node w Black kw vw wr wl) t)" and b: "hue t = Black"
    and n: "hue wl = Black" "hue wr = Black"
  shows "\<exists>s'. rb_delete_fixup s (tref t) (Some p) = rb_delete_fixup s' (Some p) (up fs) \<and> same_frame s s'
    \<and> holds s' fs (Node p c kp vp (Node w Red kw vw wr wl) t)"
proof -
  from h have "holds s (InL p c kp vp t # fs) (Node w Black kw vw wr wl)" by (simp add: holds_InL)
  then obtain s1 where s1: "rb_set_color s (Some w) Red = Some s1" "same_frame s s1"
      "holds s1 (InL p c kp vp t # fs) (Node w Red kw vw wr wl)" by (rule set_color_Node)
  then have h1: "holds s1 fs (Node p c kp vp (Node w Red kw vw wr wl) t)" by (simp add: holds_InL)
  have "rb_delete_fixup s (tref t) (Some p) = rb_delete_fixup s1 (Some p) (up fs)"
    using enter_right [OF h b] enter_right [OF h1 b] s1(1) n
    by (subst rb_delete_fixup.simps) simp
  with s1 h1 show ?thesis by blast
qed

lemma delete_near_nephew_right:
  assumes h: "holds s fs (Node p c kp vp (Node w Black kw vw wr (Node n Red kn vn nr nl)) t)"
    and b: "hue t = Black" "hue wr = Black"
  shows "\<exists>s'. rb_delete_fixup s (tref t) (Some p) = rb_delete_fixup s' (tref t) (Some p) \<and> same_frame s s'
    \<and> holds s' fs (Node p c kp vp (Node n Black kn vn (Node w Red kw vw wr nr) nl) t)"
proof -
  from h have "holds s (InR w Black kw vw wr # InL p c kp vp t # fs) (Node n Red kn vn nr nl)"
    by (simp add: holds_InR holds_InL)
  then obtain s1 where s1: "rb_set_color s (Some n) Black = Some s1" "same_frame s s1"
      "holds s1 (InR w Black kw vw wr # InL p c kp vp t # fs) (Node n Black kn vn nr nl)"
    by (rule set_color_Node)
  then have "holds s1 (InL p c kp vp t # fs) (Node w Black kw vw wr (Node n Black kn vn nr nl))"
    by (simp add: holds_InR)
  then obtain s2 where s2: "rb_set_color s1 (Some w) Red = Some s2" "same_frame s1 s2"
      "holds s2 (InL p c kp vp t # fs) (Node w Red kw vw wr (Node n Black kn vn nr nl))"
    by (rule set_color_Node)
  obtain s3 where s3: "rb_rotate_left s2 w = Some s3" "same_frame s2 s3"
      "holds s3 (InL p c kp vp t # fs) (Node n Black kn vn (Node w Red kw vw wr nr) nl)"
    using s2(3) by (rule rotate_left_Node)
  then have h3: "holds s3 fs (Node p c kp vp (Node n Black kn vn (Node w Red kw vw wr nr) nl) t)"
    by (simp add: holds_InL)
  have "rb_delete_fixup s (tref t) (Some p) = rb_delete_fixup s3 (tref t) (Some p)"
    using enter_right [OF h b(1)] enter_right [OF h3 b(1)] s1(1) s2(1) s3(1) b(2)
    by (subst (1 2) rb_delete_fixup.simps) simp
  with s1 s2 s3 h3 show ?thesis using same_frame_trans by metis
qed

lemma delete_far_nephew_right:
  assumes h: "holds s fs (Node p c kp vp (Node w Black kw vw (Node f Red kf vf fr fl) wl) t)"
    and b: "hue t = Black"
  shows "\<exists>s'. rb_delete_fixup s (tref t) (Some p) = rb_set_color s' (rb_root s') Black \<and> same_frame s s'
    \<and> holds s' fs (Node w c kw vw (Node f Black kf vf fr fl) (Node p Black kp vp wl t))"
proof -
  from h have "holds s (InL p c kp vp t # fs) (Node w Black kw vw (Node f Red kf vf fr fl) wl)"
    by (simp add: holds_InL)
  then obtain s1 where s1: "rb_set_color s (Some w) c = Some s1" "same_frame s s1"
      "holds s1 (InL p c kp vp t # fs) (Node w c kw vw (Node f Red kf vf fr fl) wl)"
    by (rule set_color_Node)
  then have "holds s1 fs (Node p c kp vp (Node w c kw vw (Node f Red kf vf fr fl) wl) t)"
    by (simp add: holds_InL)
  then obtain s2 where s2: "rb_set_color s1 (Some p) Black = Some s2" "same_frame s1 s2"
      "holds s2 fs (Node p Black kp vp (Node w c kw vw (Node f Red kf vf fr fl) wl) t)"
    by (rule set_color_Node)
  note r2 = enter_right [OF s2(3) b]
  from s2(3) have "holds s2 (InL w c kw vw wl # InL p Black kp vp t # fs) (Node f Red kf vf fr fl)"
    by (simp add: holds_InL)
  then obtain s3 where s3: "rb_set_color s2 (Some f) Black = Some s3" "same_frame s2 s3"
      "holds s3 (InL w c kw vw wl # InL p Black kp vp t # fs) (Node f Black kf vf fr fl)"
    by (rule set_color_Node)
  then have "holds s3 fs (Node p Black kp vp (Node w c kw vw (Node f Black kf vf fr fl) wl) t)"
    by (simp add: holds_InL)
  then obtain s4 where s4: "rb_rotate_right s3 p = Some s4" "same_frame s3 s4"
      "holds s4 fs (Node w c kw vw (Node f Black kf vf fr fl) (Node p Black kp vp wl t))"
    by (rule rotate_right_Node)
  have "rb_delete_fixup s4 (rb_root s4) None = rb_set_color s4 (rb_root s4) Black"
    by (subst rb_delete_fixup.simps) simp
  then have "rb_delete_fixup s (tref t) (Some p) = rb_set_color s4 (rb_root s4) Black"
    using enter_right [OF h b] s1(1) s2(1) s3(1) s4(1) r2
    by (subst rb_delete_fixup.simps) simp
  with s1 s2 s3 s4 show ?thesis using same_frame_trans by metis
qed

subsection \<open>The loop\<close>

lemma settle_root:
  assumes h: "holds s fs t" and i: "invc t" "invh t" "cinvc fs" "cinvh (bheight t) fs" "ctop fs = Red \<longrightarrow> hue t = Black"
  shows "settles s (rb_set_color s (rb_root s) Black) fs t"
proof -
  from h have h0: "holds s [] (plug fs t)" using holds_plug by blast
  then have "rb_root s = tref (plug fs t)" by (simp add: holds_def)
  with set_color_holds [OF h0, of Black] balanced_paint_plug [OF i] show ?thesis
    unfolding settles_def by (metis entries_paint)
qed

lemma far_nephew_left_settles:
  assumes h: "holds s fs (Node p c kp vp t (Node w Black kw vw wl (Node f Red kf vf fl fr)))"
    and t: "hue t = Black" "invc t" "invh t"
    and ctx: "cinvc (InL p c kp vp (Node w Black kw vw wl (Node f Red kf vf fl fr)) # fs)"
      "cinvh (Suc (bheight t)) (InL p c kp vp (Node w Black kw vw wl (Node f Red kf vf fl fr)) # fs)"
  shows "settles s (rb_delete_fixup s (tref t) (Some p)) fs
    (Node p c kp vp t (Node w Black kw vw wl (Node f Red kf vf fl fr)))"
  by (rule settles_step [OF delete_far_nephew_left [OF h t(1)] settle_root])
    (use t ctx in \<open>auto simp: entries_plug\<close>)

lemma black_sibling_left_settles:
  assumes h: "holds s fs (Node p c kp vp t (Node w Black kw vw wl wr))"
    and t: "hue t = Black" "invc t" "invh t"
    and ctx: "cinvc (InL p c kp vp (Node w Black kw vw wl wr) # fs)"
      "cinvh (Suc (bheight t)) (InL p c kp vp (Node w Black kw vw wl wr) # fs)"
    and red: "c = Red \<or> hue wl = Red \<or> hue wr = Red"
  shows "settles s (rb_delete_fixup s (tref t) (Some p)) fs (Node p c kp vp t (Node w Black kw vw wl wr))"
proof (cases "hue wr")
  case Red
  then obtain f kf vf fl fr where "wr = Node f Red kf vf fl fr" by (cases wr) auto
  with h t ctx show ?thesis by (auto intro: far_nephew_left_settles)
next
  case wr: Black
  show ?thesis
  proof (cases "hue wl")
    case Red
    then obtain n kn vn nl nr where n: "wl = Node n Red kn vn nl nr" by (cases wl) auto
    show ?thesis unfolding n
      by (rule settles_step [OF delete_near_nephew_left [OF h [unfolded n] t(1) wr] far_nephew_left_settles])
        (use t ctx n wr in \<open>auto simp: entries_plug\<close>)
  next
    case Black
    with red wr have c: "c = Red" by simp
    have "settles s1 (rb_delete_fixup s1 (Some p) (up fs)) fs (Node p c kp vp t (Node w Red kw vw wl wr))"
      if "holds s1 fs (Node p c kp vp t (Node w Red kw vw wl wr))" for s1
      using delete_exit [OF that] t ctx Black wr c by auto
    then show ?thesis
      by (rule settles_step [OF delete_black_nephews_left [OF h t(1) Black wr]])
        (simp_all add: entries_plug)
  qed
qed

lemma far_nephew_right_settles:
  assumes h: "holds s fs (Node p c kp vp (Node w Black kw vw (Node f Red kf vf fr fl) wl) t)"
    and t: "hue t = Black" "invc t" "invh t"
    and ctx: "cinvc (InR p c kp vp (Node w Black kw vw (Node f Red kf vf fr fl) wl) # fs)"
      "cinvh (Suc (bheight t)) (InR p c kp vp (Node w Black kw vw (Node f Red kf vf fr fl) wl) # fs)"
  shows "settles s (rb_delete_fixup s (tref t) (Some p)) fs
    (Node p c kp vp (Node w Black kw vw (Node f Red kf vf fr fl) wl) t)"
  by (rule settles_step [OF delete_far_nephew_right [OF h t(1)] settle_root])
    (use t ctx in \<open>auto simp: entries_plug\<close>)

lemma black_sibling_right_settles:
  assumes h: "holds s fs (Node p c kp vp (Node w Black kw vw wr wl) t)"
    and t: "hue t = Black" "invc t" "invh t"
    and ctx: "cinvc (InR p c kp vp (Node w Black kw vw wr wl) # fs)"
      "cinvh (Suc (bheight t)) (InR p c kp vp (Node w Black kw vw wr wl) # fs)"
    and red: "c = Red \<or> hue wl = Red \<or> hue wr = Red"
  shows "settles s (rb_delete_fixup s (tref t) (Some p)) fs (Node p c kp vp (Node w Black kw vw wr wl) t)"
proof (cases "hue wr")
  case Red
  then obtain f kf vf fl fr where "wr = Node f Red kf vf fr fl" by (cases wr) auto
  with h t ctx show ?thesis by (auto intro: far_nephew_right_settles)
next
  case wr: Black
  show ?thesis
  proof (cases "hue wl")
    case Red
    then obtain n kn vn nl nr where n: "wl = Node n Red kn vn nr nl" by (cases wl) auto
    show ?thesis unfolding n
      by (rule settles_step [OF delete_near_nephew_right [OF h [unfolded n] t(1) wr] far_nephew_right_settles])
        (use t ctx n wr in \<open>auto simp: entries_plug\<close>)
  next
    case Black
    with red wr have c: "c = Red" by simp
    have "settles s1 (rb_delete_fixup s1 (Some p) (up fs)) fs (Node p c kp vp (Node w Red kw vw wr wl) t)"
      if "holds s1 fs (Node p c kp vp (Node w Red kw vw wr wl) t)" for s1
      using delete_exit [OF that] t ctx Black wr c by auto
    then show ?thesis
      by (rule settles_step [OF delete_black_nephews_right [OF h t(1) Black wr]])
        (simp_all add: entries_plug)
  qed
qed

lemma black_bheight_pos: "bheight t = Suc n \<Longrightarrow> \<exists>i c k v l r. t = Node i c k v l r"
  by (cases t) auto

lemma delete_turn_left:
  assumes h: "holds s (InL p c kp vp sib # fs) t" and t: "hue t = Black" "invc t" "invh t"
    and ctx: "cinvc (InL p c kp vp sib # fs)" "cinvh (Suc (bheight t)) (InL p c kp vp sib # fs)"
    and IH: "\<And>s t. holds s fs t \<Longrightarrow> invc (paint Black t) \<Longrightarrow> invh t \<Longrightarrow> cinvh (Suc (bheight t)) fs
      \<Longrightarrow> settles s (rb_delete_fixup s (tref t) (up fs)) fs t"
  shows "settles s (rb_delete_fixup s (tref t) (Some p)) fs (Node p c kp vp t sib)"
proof -
  from ctx obtain w cw kw vw wl wr where w: "sib = Node w cw kw vw wl wr"
    using black_bheight_pos [of sib "bheight t"] by auto
  from h w have h: "holds s fs (Node p c kp vp t (Node w cw kw vw wl wr))" by (simp add: holds_InL)
  show ?thesis
  proof (cases cw)
    case Red
    with ctx w have wl: "c = Black" "hue wl = Black" "bheight wl = Suc (bheight t)" by auto
    then obtain n kn vn nl nr where n: "wl = Node n Black kn vn nl nr"
      using black_bheight_pos [of wl] by fastforce
    note step = delete_red_sibling_left [OF h [unfolded Red wl(1)] t(1) wl(2)]
    show ?thesis unfolding w Red wl(1) n
      by (rule settles_step [OF step [unfolded n] black_sibling_left_settles])
        (use t ctx w wl Red n in \<open>auto simp: entries_plug\<close>)
  next
    case Black
    show ?thesis
    proof (cases "c = Red \<or> hue wl = Red \<or> hue wr = Red")
      case True
      with h t ctx Black w show ?thesis by (auto intro: black_sibling_left_settles)
    next
      case False
      then have c: "hue wl = Black" "hue wr = Black" "c = Black" by auto
      have "settles s1 (rb_delete_fixup s1 (Some p) (up fs)) fs (Node p c kp vp t (Node w Red kw vw wl wr))"
        if "holds s1 fs (Node p c kp vp t (Node w Red kw vw wl wr))" for s1
        using IH [OF that] t ctx Black c w by auto
      then show ?thesis unfolding w Black
        by (rule settles_step [OF delete_black_nephews_left [OF h [unfolded Black] t(1) c(1,2)]])
          (simp_all add: entries_plug)
    qed
  qed
qed

lemma delete_turn_right:
  assumes h: "holds s (InR p c kp vp sib # fs) t" and t: "hue t = Black" "invc t" "invh t"
    and ctx: "cinvc (InR p c kp vp sib # fs)" "cinvh (Suc (bheight t)) (InR p c kp vp sib # fs)"
    and IH: "\<And>s t. holds s fs t \<Longrightarrow> invc (paint Black t) \<Longrightarrow> invh t \<Longrightarrow> cinvh (Suc (bheight t)) fs
      \<Longrightarrow> settles s (rb_delete_fixup s (tref t) (up fs)) fs t"
  shows "settles s (rb_delete_fixup s (tref t) (Some p)) fs (Node p c kp vp sib t)"
proof -
  from ctx obtain w cw kw vw wl wr where w: "sib = Node w cw kw vw wr wl"
    using black_bheight_pos [of sib "bheight t"] by auto
  from h w have h: "holds s fs (Node p c kp vp (Node w cw kw vw wr wl) t)" by (simp add: holds_InR)
  show ?thesis
  proof (cases cw)
    case Red
    with ctx w have wl: "c = Black" "hue wl = Black" "bheight wl = Suc (bheight t)" by auto
    then obtain n kn vn nl nr where n: "wl = Node n Black kn vn nr nl"
      using black_bheight_pos [of wl] by fastforce
    note step = delete_red_sibling_right [OF h [unfolded Red wl(1)] t(1) wl(2)]
    show ?thesis unfolding w Red wl(1) n
      by (rule settles_step [OF step [unfolded n] black_sibling_right_settles])
        (use t ctx w wl Red n in \<open>auto simp: entries_plug\<close>)
  next
    case Black
    show ?thesis
    proof (cases "c = Red \<or> hue wl = Red \<or> hue wr = Red")
      case True
      with h t ctx Black w show ?thesis by (auto intro: black_sibling_right_settles)
    next
      case False
      then have c: "hue wl = Black" "hue wr = Black" "c = Black" by auto
      have "settles s1 (rb_delete_fixup s1 (Some p) (up fs)) fs (Node p c kp vp (Node w Red kw vw wr wl) t)"
        if "holds s1 fs (Node p c kp vp (Node w Red kw vw wr wl) t)" for s1
        using IH [OF that] t ctx Black c w by auto
      then show ?thesis unfolding w Black
        by (rule settles_step [OF delete_black_nephews_right [OF h [unfolded Black] t(1) c(1,2)]])
          (simp_all add: entries_plug)
    qed
  qed
qed

lemma delete_fixup_holds:
  assumes "holds s fs t" "invc (paint Black t)" "invh t" "cinvc fs" "cinvh (Suc (bheight t)) fs"
  shows "settles s (rb_delete_fixup s (tref t) (up fs)) fs t"
  using assms
proof (induction fs arbitrary: s t)
  case Nil
  then show ?case using delete_exit [of s "[]" t] by simp
next
  case (Cons f fs)
  show ?case
  proof (cases "hue t")
    case Red
    with Cons.prems show ?thesis using delete_exit [of s "f # fs" t] by simp
  next
    case Black
    have c: "cinvc fs" using Cons.prems(4) by simp
    have t: "invc t" using Cons.prems(2) Black by (cases t) auto
    show ?thesis
    proof (cases f)
      case (InL p c kp vp sib)
      show ?thesis
        using delete_turn_left [OF Cons.prems(1) [unfolded InL] Black t Cons.prems(3) Cons.prems(4,5) [unfolded InL]
            Cons.IH [OF _ _ _ c]]
        by (simp add: InL settles_def)
    next
      case (InR p c kp vp sib)
      show ?thesis
        using delete_turn_right [OF Cons.prems(1) [unfolded InR] Black t Cons.prems(3) Cons.prems(4,5) [unfolded InR]
            Cons.IH [OF _ _ _ c]]
        by (simp add: InR settles_def)
    qed
  qed
qed

end
