(* ===== verification/Rb_Remove.thy ===== *)
theory Rb_Remove
  imports Rb_Delete
begin

text \<open>
  Removal: the search, the unlinking of the found node, the release of its slot, and
  \<open>remove\<close>, \<open>pop_first\<close> and \<open>remove_where\<close> as a whole.
\<close>

subsection \<open>Search and minimum\<close>

lemma search_holds:
  assumes "holds s fs t" "sorted (keys (entries t))"
  shows "rb_search s key (tref t) = Some None \<and> key \<notin> set (keys (entries t))
    \<or> (\<exists>gs i c v l r. t = plug gs (Node i c key v l r) \<and> rb_search s key (tref t) = Some (Some i))"
  using assms
proof (induction t arbitrary: fs)
  case Leaf
  then show ?case by (simp add: rb_search.simps)
next
  case (Node i c k v l r)
  note rd = holds_read [OF Node.prems(1)]
  have hl: "holds s (InL i c k v r # fs) l" and hr: "holds s (InR i c k v l # fs) r"
    using Node.prems(1) by (simp_all add: holds_InL holds_InR)
  have srt: "sorted (keys (entries l))" "sorted (keys (entries r))"
      "\<forall>x \<in> set (keys (entries l)). x \<le> k" "\<forall>x \<in> set (keys (entries r)). k \<le> x"
    using Node.prems(2) by (auto simp: sorted_append)
  consider "key = k" | "key < k" | "k < key" by (rule linorder_cases) auto
  then show ?case
  proof cases
    case 1
    with rd have "rb_search s key (Some i) = Some (Some i)" by (subst rb_search.simps) auto
    with 1 show ?thesis by (intro disjI2 exI [of _ "[]"]) auto
  next
    case 2
    with rd have "rb_search s key (Some i) = rb_search s key (tref l)" by (subst rb_search.simps) auto
    moreover have "key \<notin> set (keys (entries r))" using srt(4) 2 by fastforce
    moreover have "t' = plug gs X \<Longrightarrow> Node i c k v t' r = plug (gs @ [InL i c k v r]) X" for t' gs X
      by (simp add: plug_append)
    ultimately show ?thesis using Node.IH(1) [OF hl srt(1)] 2 by (auto; metis)
  next
    case 3
    with rd have "rb_search s key (Some i) = rb_search s key (tref r)" by (subst rb_search.simps) auto
    moreover have "key \<notin> set (keys (entries l))" using srt(3) 3 by fastforce
    moreover have "t' = plug gs X \<Longrightarrow> Node i c k v l t' = plug (gs @ [InR i c k v l]) X" for t' gs X
      by (simp add: plug_append)
    ultimately show ?thesis using Node.IH(2) [OF hr srt(2)] 3 by (auto; metis)
  qed
qed

lemma minimum_holds:
  assumes "holds s fs t" "tref t = Some i"
  shows "\<exists>gs m c k v r. t = plug gs (Node m c k v Leaf r) \<and> before gs = [] \<and> rb_minimum s i = Some m"
  using assms
proof (induction t arbitrary: fs i)
  case (Node j c k v l r)
  then have i: "i = j" by simp
  note rd = holds_read [OF Node.prems(1)]
  show ?case
  proof (cases "tref l")
    case None
    with rd i have "rb_minimum s i = Some i" by (subst rb_minimum.simps) simp
    with None i show ?thesis by (intro exI [of _ "[]"]) auto
  next
    case (Some a)
    have "holds s (InL j c k v r # fs) l" using Node.prems(1) by (simp add: holds_InL)
    from Node.IH(1) [OF this Some] obtain gs m c' k' v' r' where
      "l = plug gs (Node m c' k' v' Leaf r')" "before gs = []" "rb_minimum s a = Some m" by blast
    moreover from this rd i Some have "rb_minimum s i = Some m" by (subst rb_minimum.simps) simp
    ultimately show ?thesis
      by (intro exI [of _ "gs @ [InL j c k v r]"]) (auto simp: plug_append before_append)
  qed
qed simp

subsection \<open>Unlinking\<close>

lemma transplant_child:
  assumes h: "holds s fs (Node i c k v l r)" and x: "x = l \<or> x = r"
  shows "\<exists>s'. rb_transplant s i (tref x) = Some s' \<and> same_frame s s' \<and> holds s' fs x
    \<and> (\<forall>j. j \<notin> ids x \<union> ctx_idxs fs \<longrightarrow> rb_slot s' j = rb_slot s j)"
proof -
  note sl = holds_slot [OF h]
  have at: "ctx_at (rb_slot s) (Some i) fs" "tree_at (rb_slot s) (Some i) x" "rb_root s = tip fs (Node i c k v l r)"
    "sep fs x" "i \<notin> ids x" "i \<notin> ctx_idxs fs"
    using h x by (auto simp: holds_def sep_def)
  note defs = rb_transplant_def rb_relink_def rb_access rb_update
  show ?thesis
  proof (cases fs rule: up.cases)
    case 1
    with at sl show ?thesis
      by (cases x; simp add: defs sep_def; simp add: holds_def sep_def same_frame_def)
  next
    case (2 f fs')
    then show ?thesis
      using at sl
      by (cases f; cases x; simp add: defs sep_def; simp add: holds_def tip_eq sep_def)
  qed
qed

text \<open>
  The second half of the two-children case: \<open>moved\<close>, whose right subtree is already in place,
  takes over the position, the left subtree and the colour of \<open>target\<close>.
\<close>

definition regraft :: "('k, 'v) rb_root_cached \<Rightarrow> nat \<Rightarrow> nat \<Rightarrow> ('k, 'v) rb_root_cached option" where
  "regraft s target moved =
     do { s \<leftarrow> rb_transplant s target (Some moved);
          target_left \<leftarrow> rb_left s target;
          s \<leftarrow> rb_set_left s moved target_left;
          s \<leftarrow> rb_set_parent s target_left (Some moved);
          rb_set_color s (Some moved) (rb_color_of s (Some target)) }"

lemma regraft_holds:
  assumes at: "ctx_at (rb_slot s) (Some i) fs" "rb_root s = tip fs (Node i c k v l R)"
    and i: "rb_slot s i = Some \<lparr>n_key = k, n_value = v, n_parent = up fs, n_left = tref l, n_right = x, n_color = c\<rparr>"
    and m: "rb_slot s m = Some \<lparr>n_key = km, n_value = vm, n_parent = p, n_left = y, n_right = tref R, n_color = cm\<rparr>"
    and sub: "tree_at (rb_slot s) (Some i) l" "tree_at (rb_slot s) (Some m) R"
    and dis: "sep fs (Node m c km vm l R)" "i \<noteq> m" "i \<notin> ids l" "i \<notin> ids R" "i \<notin> ctx_idxs fs"
  shows "\<exists>s'. regraft s i m = Some s' \<and> same_frame s s' \<and> holds s' fs (Node m c km vm l R)"
proof -
  note defs = regraft_def rb_transplant_def rb_relink_def rb_access rb_update
  show ?thesis
  proof (cases fs rule: up.cases)
    case 1
    with assms show ?thesis
      by (cases l; simp add: defs sep_def; simp add: holds_def sep_def same_frame_def)
  next
    case (2 f fs')
    then show ?thesis
      using assms
      by (cases f; cases l; simp add: defs sep_def; simp add: holds_def tip_eq sep_def)
  qed
qed

lemma plug_eq_Leaf: "plug fs t = Leaf \<longleftrightarrow> fs = [] \<and> t = Leaf"
  by (induction fs t rule: plug.induct) auto

lemma ids_plug: "ids (plug fs t) = ids t \<union> ctx_idxs fs"
  by (induction fs t rule: plug.induct) auto

text \<open>The first half, when \<open>moved\<close> lies deeper: it is cut out and gets the right subtree.\<close>

lemma cut_moved_holds:
  assumes h: "holds s fs (Node i c k v l (plug gs (Node m cm km vm Leaf rm)))" and gs: "gs \<noteq> []"
  shows "\<exists>s'. do { s' \<leftarrow> rb_transplant s m (tref rm);
                  target_right \<leftarrow> rb_right s' i;
                  s' \<leftarrow> rb_set_right s' m target_right;
                  s' \<leftarrow> rb_set_parent s' target_right (Some m);
                  regraft s' i m } = Some s'
    \<and> same_frame s s' \<and> holds s' fs (Node m c km vm l (plug gs rm))"
proof -
  let ?R = "plug gs rm" and ?M = "Node m cm km vm Leaf rm"
  have hm: "holds s (gs @ InR i c k v l # fs) ?M" using h by (simp add: holds_append holds_InR)
  then have ms: "m \<notin> ids rm" "m \<notin> ctx_idxs (gs @ InR i c k v l # fs)" by (auto simp: holds_def sep_def)
  obtain s1 where s1: "rb_transplant s m (tref rm) = Some s1" "same_frame s s1"
      "holds s1 (gs @ InR i c k v l # fs) rm" "rb_slot s1 m = rb_slot s m"
    using transplant_child [OF hm, of rm] ms by auto
  then have h1: "holds s1 fs (Node i c k v l ?R)" by (simp add: holds_append holds_InR)
  obtain r0 c0 k0 v0 l' r' where R: "?R = Node r0 c0 k0 v0 l' r'"
    using gs by (cases gs; cases "plug gs rm") (auto simp: plug_eq_Leaf)
  have mR: "m \<notin> ids ?R" "m \<noteq> i" "m \<notin> ids l" "m \<notin> ctx_idxs fs"
    using ms by (auto simp: ids_plug ctx_idxs_append)
  have sl: "rb_slot s1 m = Some \<lparr>n_key = km, n_value = vm, n_parent = up (gs @ InR i c k v l # fs),
      n_left = None, n_right = tref rm, n_color = cm\<rparr>"
    using holds_slot [OF hm] s1(4) by simp
  let ?nm = "\<lparr>n_key = km, n_value = vm, n_parent = up (gs @ InR i c k v l # fs), n_left = None,
      n_right = Some r0, n_color = cm\<rparr>"
  let ?nr = "\<lparr>n_key = k0, n_value = v0, n_parent = Some m, n_left = tref l', n_right = tref r', n_color = c0\<rparr>"
  let ?s3 = "put (put s1 m ?nm) r0 ?nr"
  have r0: "rb_slot s1 r0 = Some (?nr\<lparr>n_parent := Some i\<rparr>)" "r0 \<noteq> m" "r0 \<noteq> i" "r0 \<notin> ids l" "r0 \<notin> ctx_idxs fs"
    using h1 R mR by (auto simp: holds_def sep_def)
  have ii: "i \<notin> ids l" "i \<notin> ids ?R" "i \<notin> ctx_idxs fs" using h1 by (auto simp: holds_def sep_def)
  have rest: "tree_at (rb_slot ?s3) (Some m) ?R" "tree_at (rb_slot ?s3) (Some i) l" "ctx_at (rb_slot ?s3) (Some i) fs"
      "rb_root ?s3 = tip fs (Node i c k v l ?R)" "sep fs (Node m c km vm l ?R)"
    using h1 mR r0 sl ii unfolding R by (auto simp: holds_def sep_def)
  have "\<exists>s'. regraft ?s3 i m = Some s' \<and> same_frame ?s3 s' \<and> holds s' fs (Node m c km vm l ?R)"
    by (rule regraft_holds [OF rest(3,4) _ _ rest(2,1,5)])
      (use h1 mR r0 sl ii R in \<open>auto simp: holds_def\<close>)
  moreover have "same_frame s ?s3" using s1(2) sl r0 by simp
  moreover have "do { target_right \<leftarrow> rb_right s1 i; s' \<leftarrow> rb_set_right s1 m target_right;
      rb_set_parent s' target_right (Some m) } = Some ?s3"
    using holds_read [OF h1] sl r0 R by (simp add: rb_update)
  ultimately show ?thesis using s1(1) same_frame_trans [of s ?s3] by (auto simp: bind_eq_Some_conv)
qed

text \<open>What is left to do after a node of colour \<open>col\<close> has gone from above the focus.\<close>

definition owes :: "('k, 'v) ctx \<Rightarrow> ('k, 'v) itree \<Rightarrow> rb_color \<Rightarrow> bool" where
  "owes fs t col \<longleftrightarrow> invc (paint Black t) \<and> invh t \<and> cinvc fs
     \<and> cinvh (bheight t + (if col = Black then 1 else 0)) fs
     \<and> (col = Red \<longrightarrow> invc t \<and> (ctop fs = Red \<or> fs = [] \<longrightarrow> hue t = Black))"

lemma owes_Red: "owes fs t Red \<Longrightarrow> balanced (plug fs t)"
  unfolding owes_def by (intro balanced_plug) auto

lemma unlink_shape:
  assumes "balanced (plug fs (Node i c k v l r))" "l = Leaf \<and> x = r \<or> r = Leaf \<and> x = l"
  shows "owes fs x c"
  using balanced_plugD [OF assms(1)] assms(2) by (cases c) (auto simp: owes_def paint_Red_facts)

lemma owes_reframe: "owes (gs @ InR i c k v l # fs) t col \<longleftrightarrow> owes (gs @ InR j c k' v' l # fs) t col"
proof -
  have "cinvc (gs @ InR i c k v l # fs) = cinvc (gs @ InR j c k' v' l # fs)
      \<and> ctop (gs @ InR i c k v l # fs) = ctop (gs @ InR j c k' v' l # fs)"
    by (induction gs) auto
  moreover have "cinvh n (gs @ InR i c k v l # fs) = cinvh n (gs @ InR j c k' v' l # fs)" for n
    by (induction gs arbitrary: n) auto
  ultimately show ?thesis by (simp add: owes_def)
qed

lemma unlink_one_child:
  assumes h: "holds s fs (Node i c k v l r)" and x: "l = Leaf \<and> x = r \<or> l \<noteq> Leaf \<and> r = Leaf \<and> x = l"
  shows "\<exists>s'. rb_unlink s i = Some (s', c, tref x, up fs) \<and> same_frame s s' \<and> holds s' fs x"
proof -
  obtain s' where s': "rb_transplant s i (tref x) = Some s'" "same_frame s s'" "holds s' fs x"
    using transplant_child [OF h, of x] x by blast
  with holds_read [OF h] x show ?thesis by (auto simp: rb_unlink_def)
qed

lemma unlink_two_children:
  assumes h: "holds s fs (Node i c k v l r)" and l: "l \<noteq> Leaf" and r: "r \<noteq> Leaf"
  shows "\<exists>s' gs m cm km vm rm. r = plug gs (Node m cm km vm Leaf rm) \<and> before gs = []
    \<and> rb_unlink s i = Some (s', cm, tref rm, up (gs @ InR m c km vm l # fs))
    \<and> same_frame s s' \<and> holds s' (gs @ InR m c km vm l # fs) rm"
proof -
  from h have hr: "holds s (InR i c k v l # fs) r" by (simp add: holds_InR)
  obtain r0 where r0: "tref r = Some r0" using r by (cases r) auto
  from minimum_holds [OF hr r0] obtain gs m cm km vm rm where
    g: "r = plug gs (Node m cm km vm Leaf rm)" "rb_minimum s r0 = Some m" "before gs = []" by blast
  have hm: "holds s (gs @ InR i c k v l # fs) (Node m cm km vm Leaf rm)"
    using h g(1) by (simp add: holds_append holds_InR)
  note rd = holds_read [OF h] holds_read [OF hm] g(2) r0 l
  show ?thesis
  proof (cases "gs = []")
    case True
    have hR: "holds s (InR m cm km vm Leaf # InR i c k v l # fs) rm" using hm True by (simp add: holds_InR)
    have ids: "i \<noteq> m" using hm True by (auto simp: holds_def sep_def)
    have "tree_at (rb_slot s) (Some m) rm" using hR by (simp add: holds_def)
    then have par: "rb_set_parent s (tref rm) (Some m) = Some s \<or>
        (\<exists>n. rb_slot s (the (tref rm)) = Some n \<and> n_parent n = Some m \<and> tref rm \<noteq> None)"
      by (cases rm) (auto simp: rb_set_parent_def)
    have noop: "rb_set_parent s (tref rm) (Some m) = Some s"
      using par by (cases rm) (auto simp: rb_update rb_modify_def rb_slot_def list_update_same_conv split: if_splits)
    have "\<exists>s'. regraft s i m = Some s' \<and> same_frame s s' \<and> holds s' fs (Node m c km vm l rm)"
      by (rule regraft_holds [where R = rm])
        (use h g True in \<open>auto simp: holds_def sep_def tip_eq\<close>)
    then obtain s' where s': "regraft s i m = Some s'" "same_frame s s'" "holds s' fs (Node m c km vm l rm)"
      by blast
    have "rb_unlink s i = Some (s', cm, tref rm, Some m)"
      using rd True noop s'(1) by (auto simp: rb_unlink_def regraft_def bind_eq_Some_conv)
    with s' g True show ?thesis by (intro exI [of _ s'] exI [of _ "[]"]) (auto simp: holds_InR)
  next
    case False
    then have up: "up (gs @ InR i c k v l # fs) = up (gs @ InR m c km vm l # fs)"
        "up (gs @ InR i c k v l # fs) \<noteq> Some i"
      using hm by (cases gs; auto simp: holds_def sep_def ctx_idxs_append)+
    from cut_moved_holds [OF h [unfolded g(1)] False] obtain s' where
      s': "do { s' \<leftarrow> rb_transplant s m (tref rm); target_right \<leftarrow> rb_right s' i;
                s' \<leftarrow> rb_set_right s' m target_right; s' \<leftarrow> rb_set_parent s' target_right (Some m);
                regraft s' i m } = Some s'" "same_frame s s'" "holds s' fs (Node m c km vm l (plug gs rm))"
      by blast
    have "rb_unlink s i = Some (s', cm, tref rm, up (gs @ InR m c km vm l # fs))"
      using rd up s'(1) by (auto simp: rb_unlink_def regraft_def bind_eq_Some_conv)
    moreover have "holds s' (gs @ InR m c km vm l # fs) rm" using s'(3) by (simp add: holds_append holds_InR)
    ultimately show ?thesis using s'(2) g(1,3) by blast
  qed
qed

lemma unlink_holds:
  assumes h: "holds s fs (Node i c k v l r)" and b: "balanced (plug fs (Node i c k v l r))"
  shows "\<exists>s' col fs' t'. rb_unlink s i = Some (s', col, tref t', up fs') \<and> same_frame s s' \<and> holds s' fs' t'
    \<and> owes fs' t' col \<and> entries (plug fs' t') = before fs @ entries l @ entries r @ after fs"
proof (cases "l = Leaf \<or> r = Leaf")
  case True
  then obtain x where x: "l = Leaf \<and> x = r \<or> l \<noteq> Leaf \<and> r = Leaf \<and> x = l" by auto
  from unlink_one_child [OF h this] obtain s' where s':
    "rb_unlink s i = Some (s', c, tref x, up fs)" "same_frame s s'" "holds s' fs x" by blast
  moreover have "owes fs x c" using unlink_shape [OF b] x by blast
  moreover have "entries (plug fs x) = before fs @ entries l @ entries r @ after fs"
    using x by (auto simp: entries_plug)
  ultimately show ?thesis by blast
next
  case False
  with unlink_two_children [OF h] obtain s' gs m cm km vm rm where u: "r = plug gs (Node m cm km vm Leaf rm)"
      "rb_unlink s i = Some (s', cm, tref rm, up (gs @ InR m c km vm l # fs))"
      "same_frame s s'" "holds s' (gs @ InR m c km vm l # fs) rm" "before gs = []" by blast
  have "balanced (plug (gs @ InR i c k v l # fs) (Node m cm km vm Leaf rm))"
    using b u(1) by (simp add: plug_append)
  then have "owes (gs @ InR m c km vm l # fs) rm cm"
    using unlink_shape owes_reframe by metis
  with u show ?thesis by (fastforce simp: entries_plug before_append after_append)
qed

subsection \<open>Releasing the slot\<close>

lemma first_idx_minimum:
  assumes "holds s fs t" "tref t = Some i"
  shows "rb_minimum s i = first_idx (entries t)"
  using minimum_holds [OF assms] by (auto simp: first_idx_def entries_plug)

lemma release_holds:
  assumes h: "holds s fs t" and i: "i \<notin> ids (plug fs t)" "rb_slot s i = Some n"
    and fr: "free_ok s" and d: "dom (rb_slot s) = insert i (ids (plug fs t))"
    and len: "rb_len s = Suc (length (entries (plug fs t)))"
  shows "\<exists>s'. rb_release s i = Some (s', n_value n) \<and> holds s' fs t \<and> dom (rb_slot s') = ids (plug fs t)
    \<and> free_ok s' \<and> rb_leftmost s' = first_idx (entries (plug fs t)) \<and> rb_len s' = length (entries (plug fs t))"
proof -
  let ?s = "s\<lparr>rb_nodes := (rb_nodes s)[i := None], rb_free_slots := rb_free_slots s @ [i], rb_len := rb_len s - 1\<rparr>"
  have lt: "i < length (rb_nodes s)" using i(2) by (rule rb_slot_lt)
  have slot: "rb_slot (s\<lparr>rb_nodes := (rb_nodes s)[i := None]\<rparr>) = (rb_slot s)(i := None)"
    using lt by (auto simp: rb_slot_def fun_eq_iff)
  have ctx: "i \<notin> ctx_idxs fs" "i \<notin> ids t" using i(1) by (auto simp: ids_plug)
  have h': "holds ?s fs t" using h ctx by (simp add: holds_def slot)
  then have h0: "holds ?s [] (plug fs t)" using holds_plug by blast
  have lm: "(case rb_root ?s of None \<Rightarrow> Some None | Some root \<Rightarrow> do { m \<leftarrow> rb_minimum ?s root; Some (Some m) })
      = Some (first_idx (entries (plug fs t)))"
  proof (cases "rb_root ?s")
    case None
    with h0 show ?thesis by (auto simp: holds_def first_idx_def)
  next
    case (Some r0)
    with h0 have "rb_minimum ?s r0 = first_idx (entries (plug fs t))"
      by (intro first_idx_minimum [OF h0]) (simp add: holds_def)
    moreover have "entries (plug fs t) \<noteq> []" using h0 Some by (cases "plug fs t") (auto simp: holds_def)
    ultimately show ?thesis using Some by (auto simp: first_idx_def split: list.split)
  qed
  have "free_ok ?s" using fr i(2) lt d by (auto simp: free_ok_def slot)
  moreover have "dom (rb_slot ?s) = ids (plug fs t)" using d i(1) by (auto simp: slot)
  moreover have "rb_release s i = Some (?s\<lparr>rb_leftmost := first_idx (entries (plug fs t))\<rparr>, n_value n)"
    using lm i(2) unfolding rb_release_def by (simp del: One_nat_def)
  ultimately show ?thesis using h' len
    by (intro exI [of _ "?s\<lparr>rb_leftmost := first_idx (entries (plug fs t))\<rparr>"])
      (simp add: holds_def free_ok_def)
qed

subsection \<open>Keys and values stay in their slots\<close>

definition payload :: "('k, 'v) rb_root_cached \<Rightarrow> nat \<Rightarrow> ('k \<times> 'v) option" where
  "payload s i = map_option (\<lambda>n. (n_key n, n_value n)) (rb_slot s i)"

lemma payload_root [simp]: "payload (s\<lparr>rb_root := x\<rparr>) = payload s"
  by (simp add: payload_def fun_eq_iff)

lemma payload_modify:
  assumes "rb_modify f s i = Some s'" "\<And>n. n_key (f n) = n_key n" "\<And>n. n_value (f n) = n_value n"
  shows "payload s' = payload s"
  using assms by (cases "rb_slot s i") (auto simp: payload_def fun_eq_iff rb_modify_def put_def [symmetric])

lemma payload_update:
  "rb_set_left s i x = Some s' \<Longrightarrow> payload s' = payload s"
  "rb_set_right s i x = Some s' \<Longrightarrow> payload s' = payload s"
  "rb_set_parent s y x = Some s' \<Longrightarrow> payload s' = payload s"
  "rb_set_color s y c = Some s' \<Longrightarrow> payload s' = payload s"
  by (auto simp: rb_update intro: payload_modify split: option.splits)

lemma payload_transplant: "rb_transplant s i x = Some s' \<Longrightarrow> payload s' = payload s"
  by (auto simp: rb_transplant_def rb_relink_def bind_eq_Some_conv
      split: option.splits if_splits dest!: payload_update)

lemma payload_unlink: "rb_unlink s i = Some (s', z) \<Longrightarrow> payload s' = payload s"
  by (auto simp: rb_unlink_def bind_eq_Some_conv split: if_splits
      dest!: payload_update payload_transplant)

subsection \<open>Removal as a whole\<close>

lemma remove_repr:
  assumes r: "rb_repr s t" and b: "balanced t" and srt: "sorted (keys (entries t))"
  shows "key \<notin> set (keys (entries t)) \<and> rb_remove s key = Some (s, None)
    \<or> (\<exists>s' t' es fs i v. rb_remove s key = Some (s', Some v) \<and> rb_repr s' t' \<and> balanced t'
        \<and> entries t = es @ (i, key, v) # fs \<and> entries t' = es @ fs)"
proof -
  from r have h: "holds s [] t" and root: "rb_root s = tref t" by (simp_all add: rb_repr_def holds_def)
  from search_holds [OF h srt, of key] consider
      "key \<notin> set (keys (entries t))" "rb_search s key (tref t) = Some None"
    | gs i c v l r where "t = plug gs (Node i c key v l r)" "rb_search s key (tref t) = Some (Some i)"
    by blast
  then show ?thesis
  proof cases
    case 1
    with root show ?thesis by (simp add: rb_remove_def)
  next
    case (2 gs i c v l r)
    let ?X = "Node i c key v l r"
    have hX: "holds s gs ?X" using h 2(1) holds_plug by blast
    obtain s1 col fs1 t1 where s1: "rb_unlink s i = Some (s1, col, tref t1, up fs1)" "same_frame s s1"
        "holds s1 fs1 t1" "owes fs1 t1 col"
        and ent: "entries (plug fs1 t1) = (before gs @ entries l) @ (entries r @ after gs)"
      using unlink_holds [OF hX] b 2(1) by auto
    have entt: "entries t = (before gs @ entries l) @ (i, key, v) # (entries r @ after gs)"
      using 2(1) by (simp add: entries_plug)
    have i: "i \<notin> ids (plug fs1 t1)" "ids t = insert i (ids (plug fs1 t1))"
      using h entt ent distinct_idxs [of t] by (auto simp: holds_def sep_def ids_entries [symmetric])
    have "payload s1 i = payload s i" using payload_unlink [OF s1(1)] by simp
    then obtain n where n: "rb_slot s1 i = Some n" "n_value n = v"
      using holds_slot [OF hX] by (auto simp: payload_def)
    obtain s2 where s2: "rb_release s1 i = Some (s2, v)" "holds s2 fs1 t1" "dom (rb_slot s2) = ids (plug fs1 t1)"
        "free_ok s2" "rb_leftmost s2 = first_idx (entries (plug fs1 t1))" "rb_len s2 = length (entries (plug fs1 t1))"
      using release_holds [OF s1(3) i(1) n(1)] n(2) r i(2) s1(2) entt ent free_ok_cong [OF _ s1(2)]
      by (auto simp: rb_repr_def same_frame_def)
    have "settles s2 (if col = Black then rb_delete_fixup s2 (tref t1) (up fs1) else Some s2) fs1 t1"
      using s1(4) delete_fixup_holds [OF s2(2)] owes_Red [of fs1 t1] s2(2) holds_plug [of s2 fs1 t1]
      by (cases col) (auto simp: owes_def settles_def)
    then obtain s3 t3 where s3: "(if col = Black then rb_delete_fixup s2 (tref t1) (up fs1) else Some s2) = Some s3"
        "same_frame s2 s3" "holds s3 [] t3" "balanced t3" "entries t3 = entries (plug fs1 t1)"
      unfolding settles_def by blast
    have "rb_repr s3 t3"
      using s3 s2 free_ok_cong [OF s2(4) s3(2)] ids_entries [of t3] ids_entries [of "plug fs1 t1"]
      by (simp add: rb_repr_def same_frame_def)
    moreover have "rb_remove s key = Some (s3, Some v)"
      using root 2(2) s1(1) s2(1) s3(1) by (simp add: rb_remove_def)
    ultimately show ?thesis using s3(4,5) entt ent by metis
  qed
qed

end
