(* ===== verification/Rb_Queue.thy ===== *)
theory Rb_Queue
  imports Rb_Remove
begin

text \<open>
  The contract of the cached red-black tree as its clients use it: an ordered queue of
  key-value pairs.  The arena tree implements it; what follows from the contract alone is
  proved once here.
\<close>

locale ordered_queue =
  fixes inv :: "'q \<Rightarrow> bool"
    and contents :: "'q \<Rightarrow> ('k::linorder \<times> 'v) list"
    and new :: 'q
    and insert :: "'q \<Rightarrow> 'k \<Rightarrow> 'v \<Rightarrow> 'q option"
    and first :: "'q \<Rightarrow> 'v option"
    and first_key :: "'q \<Rightarrow> 'k option"
    and is_empty :: "'q \<Rightarrow> bool"
    and remove :: "'q \<Rightarrow> 'k \<Rightarrow> ('q \<times> 'v option) option"
    and pop_first :: "'q \<Rightarrow> ('q \<times> 'v option) option"
    and remove_where :: "('v \<Rightarrow> bool) \<Rightarrow> 'q \<Rightarrow> ('q \<times> 'v option) option"
  assumes inv_new: "inv new" "contents new = []"
    and inv_sorted: "inv q \<Longrightarrow> sorted (map fst (contents q))"
    and insert_law: "inv q \<Longrightarrow>
      \<exists>q'. insert q k v = Some q' \<and> inv q' \<and> contents q' = ins_entry k v (contents q)"
    and first_law: "inv q \<Longrightarrow> first q = map_option snd (List.find (\<lambda>_. True) (contents q))"
    and first_key_law: "inv q \<Longrightarrow> first_key q = map_option fst (List.find (\<lambda>_. True) (contents q))"
    and is_empty_law: "inv q \<Longrightarrow> is_empty q \<longleftrightarrow> contents q = []"
    and remove_law: "inv q \<Longrightarrow>
      k \<notin> fst ` set (contents q) \<and> remove q k = Some (q, None)
      \<or> (\<exists>q' xs v ys. remove q k = Some (q', Some v) \<and> inv q'
           \<and> contents q = xs @ (k, v) # ys \<and> contents q' = xs @ ys)"
    and pop_first_law: "inv q \<Longrightarrow>
      pop_first q = (case contents q of [] \<Rightarrow> Some (q, None) | e # _ \<Rightarrow> remove q (fst e))"
    and remove_where_law: "inv q \<Longrightarrow>
      (\<forall>e \<in> set (contents q). \<not> P (snd e)) \<and> remove_where P q = Some (q, None)
      \<or> (\<exists>e \<in> set (contents q). P (snd e) \<and> remove_where P q = remove q (fst e))"
begin

lemma insert_Some:
  assumes "inv q"
  obtains q' where "insert q k v = Some q'" "inv q'" "contents q' = ins_entry k v (contents q)"
  using insert_law [OF assms] by blast

text \<open>With distinct keys the pop takes exactly the head.\<close>

lemma pop_empty: "inv q \<Longrightarrow> contents q = [] \<Longrightarrow> pop_first q = Some (q, None)"
  by (simp add: pop_first_law)

lemma pop_Cons:
  assumes q: "inv q" and d: "distinct (map fst (contents q))" and c: "contents q = (k, v) # es"
  obtains q' where "pop_first q = Some (q', Some v)" "inv q'" "contents q' = es"
proof -
  from remove_law [OF q, of k] c obtain q' xs w ys where
    r: "remove q k = Some (q', Some w)" "inv q'" "(k, v) # es = xs @ (k, w) # ys" "contents q' = xs @ ys"
    by auto
  with d c have "xs = []" by (cases xs) auto
  with r c q show ?thesis using that by (simp add: pop_first_law)
qed

text \<open>
  With distinct keys and at most one value that satisfies the predicate, \<open>remove_where\<close> is
  a filter.
\<close>

lemma remove_where_none:
  "inv q \<Longrightarrow> \<forall>e \<in> set (contents q). \<not> P (snd e) \<Longrightarrow> remove_where P q = Some (q, None)"
  using remove_where_law by blast

lemma remove_where_one:
  assumes q: "inv q" and d: "distinct (map fst (contents q))" and e: "(k, v) \<in> set (contents q)" "P v"
    and u: "\<And>k' v'. (k', v') \<in> set (contents q) \<Longrightarrow> P v' \<Longrightarrow> k' = k"
  obtains q' where "remove_where P q = Some (q', Some v)" "inv q'"
    "contents q' = filter (\<lambda>e. fst e \<noteq> k) (contents q)"
proof -
  have "\<not> (\<forall>e \<in> set (contents q). \<not> P (snd e))" using e by force
  with remove_where_law [OF q, of P] obtain e' where
    "e' \<in> set (contents q)" "P (snd e')" "remove_where P q = remove q (fst e')" by blast
  with u [of "fst e'" "snd e'"] have rw: "remove_where P q = remove q k" by simp
  have kq: "k \<in> fst ` set (contents q)" using e(1) by force
  from remove_law [OF q, of k] kq obtain q' xs w ys where
    r: "remove q k = Some (q', Some w)" "inv q'" "contents q = xs @ (k, w) # ys" "contents q' = xs @ ys"
    by blast
  have "k \<notin> fst ` set xs" "k \<notin> fst ` set ys" using d r(3) by auto
  then have "filter (\<lambda>e. fst e \<noteq> k) xs = xs" "filter (\<lambda>e. fst e \<noteq> k) ys = ys"
    by (auto simp: filter_id_conv)
  then have "xs @ ys = filter (\<lambda>e. fst e \<noteq> k) (contents q)" using r(3) by simp
  moreover have "w = v" using d e r(3) by (auto simp: image_iff)
  ultimately show ?thesis using that rw r by metis
qed

text \<open>
  Queues whose values are distinct and are determined by their keys: removal by a predicate
  that singles out one value.
\<close>

lemma keys_distinct:
  assumes "distinct (map snd (contents q))" "\<And>k v. (k, v) \<in> set (contents q) \<Longrightarrow> f k = v"
  shows "distinct (map fst (contents q))"
proof -
  have "map snd (contents q) = map f (map fst (contents q))" using assms(2) by auto
  with assms(1) show ?thesis by (metis distinct_map)
qed

lemma remove_where_value:
  assumes q: "inv q" and d: "distinct (map snd (contents q))"
    and f: "\<And>k v. (k, v) \<in> set (contents q) \<Longrightarrow> f k = v"
    and P: "\<And>u. P u \<Longrightarrow> u = t" "t \<in> snd ` set (contents q) \<Longrightarrow> P t"
  shows "t \<notin> snd ` set (contents q) \<and> remove_where P q = Some (q, None)
    \<or> t \<in> snd ` set (contents q) \<and> (\<exists>q'. remove_where P q = Some (q', Some t) \<and> inv q'
        \<and> contents q' = filter (\<lambda>e. snd e \<noteq> t) (contents q))"
proof (cases "t \<in> snd ` set (contents q)")
  case False
  with P(1) have "\<forall>e \<in> set (contents q). \<not> P (snd e)" by force
  with remove_where_none [OF q] False show ?thesis by blast
next
  case True
  then obtain k where k: "(k, t) \<in> set (contents q)" by auto
  have inj: "inj_on snd (set (contents q))" using d by (simp add: distinct_map)
  have u: "k' = k" if "(k', v') \<in> set (contents q)" "P v'" for k' v'
    using inj_onD [OF inj _ that(1) k] P(1) that(2) by auto
  obtain q' where q': "remove_where P q = Some (q', Some t)" "inv q'"
      "contents q' = filter (\<lambda>e. fst e \<noteq> k) (contents q)"
    by (rule remove_where_one [where P = P, OF q keys_distinct [OF d f] k P(2) [OF True] u])
  have "filter (\<lambda>e. fst e \<noteq> k) (contents q) = filter (\<lambda>e. snd e \<noteq> t) (contents q)"
  proof (rule filter_cong [OF refl])
    fix e assume e: "e \<in> set (contents q)"
    show "fst e \<noteq> k \<longleftrightarrow> snd e \<noteq> t"
      using f [of "fst e" "snd e"] f [OF k] e inj_onD [OF inj _ e k] by auto
  qed
  with q' True show ?thesis by auto
qed

end

subsection \<open>Facts on the stable insert\<close>

lemma set_ins_entry [simp]: "set (ins_entry k v es) = insert (k, v) (set es)"
  by (metis (no_types, lifting) ins_entry_def list.simps(15) set_append takeWhile_dropWhile_id
      Un_insert_right)

lemma ins_entry_not_Nil [simp]: "ins_entry k v es \<noteq> []"
  by (simp add: ins_entry_def)

lemma length_ins_entry [simp]: "length (ins_entry k v es) = Suc (length es)"
  unfolding ins_entry_def
  by (metis (no_types, lifting) add_Suc_right length_Cons length_append takeWhile_dropWhile_id)

lemma distinct_ins_entry:
  "distinct (map f (ins_entry k v es)) \<longleftrightarrow> f (k, v) \<notin> f ` set es \<and> distinct (map f es)"
proof -
  define xs ys where "xs = takeWhile (\<lambda>e. fst e \<le> k) es" and "ys = dropWhile (\<lambda>e. fst e \<le> k) es"
  have "es = xs @ ys" by (simp add: xs_def ys_def)
  moreover have "ins_entry k v es = xs @ (k, v) # ys" by (simp add: xs_def ys_def ins_entry_def)
  ultimately show ?thesis by auto
qed

lemma ins_entry_last:
  assumes "\<forall>e \<in> set es. fst e \<le> k"
  shows "ins_entry k v es = es @ [(k, v)]"
  using assms takeWhile_eq_all_conv [of "\<lambda>e. fst e \<le> k" es] dropWhile_eq_Nil_conv [of "\<lambda>e. fst e \<le> k" es]
  by (simp add: ins_entry_def)

subsection \<open>The arena tree is an ordered queue\<close>

lemma rb_inv_new: "rb_inv rb_new"
  unfolding rb_inv_def
  by (intro exI [of _ Leaf])
    (auto simp: rb_repr_def holds_def rb_new_def sep_def free_ok_def rb_slot_def first_idx_def balanced_def)

lemma rb_insert_contents:
  assumes "rb_inv s"
  shows "\<exists>s'. rb_insert s k v = Some s' \<and> rb_inv s' \<and> rb_contents s' = ins_entry k v (rb_contents s)"
proof -
  from assms obtain t where t: "rb_repr s t" "balanced t" "sorted (keys (entries t))"
    unfolding rb_inv_def by blast
  from insert_repr [OF this, of k v] obtain s' t' es fs i where s':
      "rb_insert s k v = Some s'" "rb_repr s' t'" "balanced t'"
      and e: "entries t = es @ fs" "entries t' = es @ (i, k, v) # fs"
      "\<forall>e \<in> set es. fst (snd e) \<le> k" "\<forall>e \<in> set fs. k < fst (snd e)"
    by metis
  have "sorted (keys (entries t'))" using t(3) e by (fastforce simp: sorted_append)
  moreover have "rb_contents s' = ins_entry k v (rb_contents s)"
    using e ins_entry_split [of "map snd es" k "map snd fs" v]
    by (simp add: repr_contents [OF t(1)] repr_contents [OF s'(2)])
  ultimately show ?thesis using s' unfolding rb_inv_def by blast
qed

lemma rb_remove_contents:
  assumes "rb_inv s"
  shows "k \<notin> fst ` set (rb_contents s) \<and> rb_remove s k = Some (s, None)
    \<or> (\<exists>s' xs v ys. rb_remove s k = Some (s', Some v) \<and> rb_inv s'
         \<and> rb_contents s = xs @ (k, v) # ys \<and> rb_contents s' = xs @ ys)"
proof -
  from assms obtain t where t: "rb_repr s t" "balanced t" "sorted (keys (entries t))"
    unfolding rb_inv_def by blast
  from remove_repr [OF this, of k] show ?thesis
  proof (elim disjE exE conjE)
    assume "k \<notin> set (keys (entries t))" "rb_remove s k = Some (s, None)"
    then show ?thesis by (simp add: repr_contents [OF t(1)] image_image)
  next
    fix s' t' es fs i v
    assume a: "rb_remove s k = Some (s', Some v)" "rb_repr s' t'" "balanced t'"
      "entries t = es @ (i, k, v) # fs" "entries t' = es @ fs"
    then have "sorted (keys (entries t'))" using t(3) by (auto simp: sorted_append)
    with a have "rb_inv s'" unfolding rb_inv_def by blast
    moreover have "rb_contents s = map snd es @ (k, v) # map snd fs" "rb_contents s' = map snd es @ map snd fs"
      using a by (simp_all add: repr_contents [OF t(1)] repr_contents [OF a(2)])
    ultimately show ?thesis using a(1) by blast
  qed
qed

lemma rb_first_node:
  assumes "rb_repr s t"
  shows "map_option (\<lambda>n. (n_key n, n_value n)) (Option.bind (rb_leftmost s) (rb_slot s))
    = List.find (\<lambda>_. True) (rb_contents s)"
proof (cases "entries t")
  case Nil
  with assms repr_contents [OF assms] show ?thesis by (simp add: rb_repr_def first_idx_def)
next
  case (Cons e es)
  with assms have "tree_at (rb_slot s) None t" "(fst e, fst (snd e), snd (snd e)) \<in> set (entries t)"
    by (simp_all add: rb_repr_def holds_def)
  from tree_at_cell [OF this] assms Cons repr_contents [OF assms] show ?thesis
    by (auto simp: rb_repr_def first_idx_def)
qed

lemma rb_first_contents:
  assumes "rb_inv s"
  shows "rb_first s = map_option snd (List.find (\<lambda>_. True) (rb_contents s))"
    "rb_first_key s = map_option fst (List.find (\<lambda>_. True) (rb_contents s))"
  using assms unfolding rb_inv_def rb_first_def rb_first_key_def
  by (auto simp: rb_first_node [symmetric] option.map_comp comp_def)

lemma rb_len_contents: "rb_inv s \<Longrightarrow> rb_len s = length (rb_contents s)"
  unfolding rb_inv_def by (metis repr_contents rb_repr_def length_map)

lemma slots_contents:
  assumes "rb_repr s t"
  shows "(\<lambda>n. (n_key n, n_value n)) ` set (List.map_filter id (rb_nodes s)) = set (rb_contents s)"
proof -
  have "set (List.map_filter id (rb_nodes s)) = ran (rb_slot s)"
    by (force simp: List.map_filter_def rb_slot_def ran_def in_set_conv_nth)
  moreover have "(\<lambda>n. (n_key n, n_value n)) ` ran (rb_slot s) = snd ` set (entries t)"
  proof (intro set_eqI iffI)
    fix e assume "e \<in> (\<lambda>n. (n_key n, n_value n)) ` ran (rb_slot s)"
    then obtain i n where n: "rb_slot s i = Some n" "e = (n_key n, n_value n)" by (auto simp: ran_def)
    then have "i \<in> ids t" using assms by (auto simp: rb_repr_def)
    then obtain k v where "(i, k, v) \<in> set (entries t)" by (auto simp: ids_entries [symmetric])
    moreover from tree_at_cell [OF _ this, of "rb_slot s" None] n assms have "e = (k, v)" by (auto simp: rb_repr_def holds_def)
    ultimately show "e \<in> snd ` set (entries t)" by force
  next
    fix e assume "e \<in> snd ` set (entries t)"
    then obtain i k v where "(i, k, v) \<in> set (entries t)" "e = (k, v)" by auto
    with tree_at_cell [of "rb_slot s" None t i k v] assms show "e \<in> (\<lambda>n. (n_key n, n_value n)) ` ran (rb_slot s)"
      by (force simp: rb_repr_def holds_def ran_def)
  qed
  ultimately show ?thesis using assms by (simp add: repr_contents)
qed

lemma rb_remove_where_find:
  assumes "rb_inv s"
  shows "(\<forall>e \<in> set (rb_contents s). \<not> P (snd e)) \<and> rb_remove_where P s = Some (s, None)
    \<or> (\<exists>e \<in> set (rb_contents s). P (snd e) \<and> rb_remove_where P s = rb_remove s (fst e))"
proof -
  obtain t where "rb_repr s t" using assms by (auto simp: rb_inv_def)
  note sl = slots_contents [OF this, symmetric]
  show ?thesis
  proof (cases "List.find (\<lambda>n. P (n_value n)) (List.map_filter id (rb_nodes s))")
    case None
    then have "rb_remove_where P s = Some (s, None)" by (simp add: rb_remove_where_def)
    moreover have "\<forall>e \<in> set (rb_contents s). \<not> P (snd e)" using None by (auto simp: sl find_None_iff)
    ultimately show ?thesis by blast
  next
    case (Some n)
    then have "rb_remove_where P s = rb_remove s (n_key n)" by (simp add: rb_remove_where_def)
    moreover have "n \<in> set (List.map_filter id (rb_nodes s))" "P (n_value n)"
      using Some by (auto simp: find_Some_iff)
    ultimately show ?thesis unfolding sl by auto
  qed
qed

interpretation rbq: ordered_queue rb_inv rb_contents rb_new rb_insert rb_first rb_first_key rb_is_empty
    rb_remove rb_pop_first rb_remove_where
proof
  show "rb_contents rb_new = []" by (simp add: rb_contents_def rb_new_def)
  show "rb_is_empty q \<longleftrightarrow> rb_contents q = []" if "rb_inv q" for q :: "('a, 'b) rb_root_cached"
    using that rb_len_contents [OF that] by (simp add: rb_is_empty_def)
  show "rb_pop_first q = (case rb_contents q of [] \<Rightarrow> Some (q, None) | e # _ \<Rightarrow> rb_remove q (fst e))"
    if "rb_inv q" for q :: "('a, 'b) rb_root_cached"
    using rb_first_contents [OF that] by (simp add: rb_pop_first_def split: list.split)
qed (fact rb_inv_new rb_inv_sorted rb_first_contents rb_insert_contents rb_remove_contents
    rb_remove_where_find)+

end
