(* ===== verification/Rb_Props.thy ===== *)
theory Rb_Props
  imports Rb_Queue
begin

text \<open>
  What the cached red-black tree of the scheduler guarantees, stated on the operations of
  the arena: insertion, removal, removal of the minimum, removal by predicate, and the
  logarithmic bound on the search path.
\<close>

subsection \<open>Height\<close>

fun iheight :: "('k, 'v) itree \<Rightarrow> nat" where
  "iheight Leaf = 0"
| "iheight (Node i c k v l r) = Suc (max (iheight l) (iheight r))"

lemma bheight_size: "invh t \<Longrightarrow> 2 ^ bheight t \<le> length (entries t) + 1"
proof (induction t)
  case (Node i c k v l r)
  then have "2 ^ bheight l \<le> length (entries l) + 1" "2 ^ bheight l \<le> length (entries r) + 1"
    by auto
  then show ?case by simp
qed simp

lemma iheight_bheight:
  "invc t \<Longrightarrow> invh t \<Longrightarrow> iheight t \<le> 2 * bheight t + (if hue t = Red then 1 else 0)"
proof (induction t)
  case (Node i c k v l r)
  then show ?case by (cases c; cases "hue l"; cases "hue r") auto
qed simp

lemma balanced_height:
  assumes "balanced t"
  shows "2 ^ (iheight t div 2) \<le> length (entries t) + 1"
proof -
  have "iheight t div 2 \<le> bheight t"
    using assms iheight_bheight [of t] by (auto simp: balanced_def)
  then have "(2::nat) ^ (iheight t div 2) \<le> 2 ^ bheight t" by (simp add: power_increasing)
  also have "\<dots> \<le> length (entries t) + 1" using assms by (intro bheight_size) (simp add: balanced_def)
  finally show ?thesis .
qed

lemma rb_len_new: "rb_len rb_new = 0"
  by (simp add: rb_new_def)

subsection \<open>Properties\<close>

text \<open>
  C13. \<open>insert\<close> on a well-formed arena never panics and terminates; the new arena is well
  formed (links, colours, black heights, free list, cached leftmost index and length) and
  its entries in order are the old ones with the new entry behind every entry whose key is
  not larger.
\<close>

theorem rb_insert_correct:
  assumes "rb_inv s"
  shows "\<exists>s'. rb_insert s k v = Some s' \<and> rb_inv s' \<and> rb_contents s' = ins_entry k v (rb_contents s)
    \<and> rb_len s' = Suc (rb_len s) \<and> sorted (map fst (rb_contents s'))"
proof -
  obtain s' where s': "rb_insert s k v = Some s'" "rb_inv s'" "rb_contents s' = ins_entry k v (rb_contents s)"
    using rb_insert_contents [OF assms] by blast
  then show ?thesis using rb_len_contents [OF assms] rb_len_contents [OF s'(2)] rb_inv_sorted [OF s'(2)] by auto
qed

theorem rb_insert_correct_witness:
  "\<exists>s'. rb_insert rb_new (3::nat) ''a'' = Some s' \<and> rb_inv s' \<and> rb_contents s' = [(3, ''a'')] \<and> rb_len s' = 1"
  using rb_insert_correct [OF rb_inv_new, of "3::nat" "''a''"]
  by (auto simp: ins_entry_def rb_len_new rbq.inv_new)

text \<open>
  C14. \<open>remove\<close> on a well-formed arena never panics and terminates: without an entry of that
  key it returns nothing and leaves the arena as it was; otherwise exactly one entry of that
  key leaves the ordered contents, its value is returned, and the arena stays well formed.
\<close>

theorem rb_remove_correct:
  assumes "rb_inv s"
  shows "if k \<in> fst ` set (rb_contents s)
    then (\<exists>s' xs v ys. rb_remove s k = Some (s', Some v) \<and> rb_inv s'
         \<and> rb_contents s = xs @ (k, v) # ys \<and> rb_contents s' = xs @ ys \<and> rb_len s = Suc (rb_len s'))
    else rb_remove s k = Some (s, None)"
proof (cases "k \<in> fst ` set (rb_contents s)")
  case True
  with rb_remove_contents [OF assms, of k] obtain s' xs v ys where
    s': "rb_remove s k = Some (s', Some v)" "rb_inv s'" "rb_contents s = xs @ (k, v) # ys" "rb_contents s' = xs @ ys"
    by blast
  then have "rb_len s = Suc (rb_len s')" using rb_len_contents [OF assms] rb_len_contents [OF s'(2)] by simp
  with s' True show ?thesis by auto
next
  case False
  with rb_remove_contents [OF assms, of k] show ?thesis by (auto simp: image_iff)
qed

theorem rb_remove_correct_witness:
  "\<exists>s s'. rb_inv s \<and> rb_contents s = [(3::nat, ''a'')] \<and> rb_remove s 3 = Some (s', Some ''a'')
    \<and> rb_inv s' \<and> rb_contents s' = [] \<and> rb_remove s' 3 = Some (s', None)"
proof -
  obtain s where s: "rb_inv s" "rb_contents s = [(3::nat, ''a'')]"
    using rb_insert_contents [OF rb_inv_new, of "3::nat" "''a''"] by (auto simp: ins_entry_def rbq.inv_new)
  have m: "3 \<in> fst ` set (rb_contents s)" by (simp add: s)
  from rb_remove_correct [OF s(1), of 3] m obtain s' xs v ys where s':
    "rb_remove s 3 = Some (s', Some v)" "rb_inv s'" "rb_contents s = xs @ (3, v) # ys" "rb_contents s' = xs @ ys"
    by (simp only: if_True) blast
  then have v: "v = ''a''" "rb_contents s' = []" using s(2) by (cases xs; simp)+
  then have "3 \<notin> fst ` set (rb_contents s')" by simp
  with rb_remove_correct [OF s'(2), of 3] have "rb_remove s' 3 = Some (s', None)" by (simp only: if_False)
  with s s' v show ?thesis by blast
qed

text \<open>
  \<open>pop_first\<close> returns nothing exactly on an empty tree; otherwise it removes and returns an
  entry of least key, and with distinct keys precisely the first entry in order.
\<close>

theorem rb_pop_first_least:
  assumes "rb_inv s" "distinct (map fst (rb_contents s))"
  shows "\<exists>s' r. rb_pop_first s = Some (s', r) \<and> rb_inv s'
    \<and> (case r of None \<Rightarrow> rb_contents s = [] \<and> s' = s
       | Some v \<Rightarrow> \<exists>k. rb_contents s = (k, v) # rb_contents s' \<and> (\<forall>e \<in> set (rb_contents s'). k < fst e))"
proof (cases "rb_contents s")
  case Nil
  with assms show ?thesis by (simp add: rbq.pop_empty)
next
  case (Cons e es)
  then obtain k v where e: "rb_contents s = (k, v) # es" by (cases e) auto
  obtain s' where s': "rb_pop_first s = Some (s', Some v)" "rb_inv s'" "rb_contents s' = es"
    by (rule rbq.pop_Cons [OF assms e])
  moreover have "\<forall>e \<in> set es. k < fst e"
    using rb_inv_sorted [OF assms(1)] assms(2) e by (force simp: less_le)
  ultimately show ?thesis using e by auto
qed

theorem rb_pop_first_least_witness:
  "\<exists>s s'. rb_inv s \<and> rb_contents s = [(3::nat, ''a'')] \<and> rb_pop_first s = Some (s', Some ''a'')
    \<and> rb_contents s' = []"
proof -
  obtain s where s: "rb_inv s" "rb_contents s = [(3::nat, ''a'')]"
    using rb_insert_contents [OF rb_inv_new, of "3::nat" "''a''"] by (auto simp: ins_entry_def rbq.inv_new)
  from rb_pop_first_least [OF s(1)] s(2) obtain s' r where
    "rb_pop_first s = Some (s', r)" "case r of None \<Rightarrow> rb_contents s = [] \<and> s' = s
       | Some v \<Rightarrow> \<exists>k. rb_contents s = (k, v) # rb_contents s' \<and> (\<forall>e \<in> set (rb_contents s'). k < fst e)" by auto
  with s show ?thesis by (cases r) auto
qed



end
