(* ===== verification/Task_Model.thy ===== *)
theory Task_Model
  imports Kernel_Prelude
begin

text \<open>
  The part of a task the scheduler reads and writes: \<open>process/task/status.rs\<close>, the
  scheduling entities of \<open>process/task/sched.rs\<close> and the scheduling fields of
  \<open>TaskStructInner\<close> in \<open>process/task/tcb.rs\<close>.  A queue holds \<open>Arc<TaskControlBlock>\<close>
  references; here a reference is the thread id (\<open>gettid\<close>, which never changes and is unique
  among live tasks) and the referenced inner structures are a store indexed by it.
\<close>

datatype task_status = UnInit | Ready | Running | Blocked | Zombie | BlockSaving

record sched_entity =
  vruntime :: u64
  exec_start :: u64
  sum_exec_runtime :: u64
  prev_sum_exec_runtime :: u64
  load_weight :: u64

definition sched_entity_new :: sched_entity where
  "sched_entity_new = \<lparr>vruntime = 0, exec_start = 0, sum_exec_runtime = 0,
     prev_sum_exec_runtime = 0, load_weight = 1024\<rparr>"

record sched_rt_entity =
  time_slice :: u64
  migratable :: bool

definition sched_rt_entity_new :: sched_rt_entity where
  "sched_rt_entity_new = \<lparr>time_slice = 0, migratable = True\<rparr>"

record sched_dl_entity =
  dl_runtime :: u64
  dl_deadline :: u64
  dl_period :: u64
  remaining_runtime :: u64
  absolute_deadline :: u64
  dl_throttled :: bool

definition sched_dl_entity_new :: sched_dl_entity where
  "sched_dl_entity_new = \<lparr>dl_runtime = 0, dl_deadline = 0, dl_period = 0,
     remaining_runtime = 0, absolute_deadline = - 1, dl_throttled = False\<rparr>"

record task_inner =
  on_main_hart :: bool
  state :: task_status
  wake_pending :: bool
  wake_source_cpu :: "nat option"
  sched_policy :: int
  sched_priority :: int
  prio :: int
  static_prio :: int
  normal_prio :: int
  se :: sched_entity
  rt :: sched_rt_entity
  dl :: sched_dl_entity
  on_cpu :: bool
  on_rq :: bool
  cpu :: nat
  cpus_allowed :: usize
  need_resched :: bool

type_synonym tid = usize
type_synonym task_store = "tid \<Rightarrow> task_inner"

text \<open>\<open>task.inner_exclusive_access().\<dots> = \<dots>\<close>\<close>

definition upd_task :: "tid \<Rightarrow> (task_inner \<Rightarrow> task_inner) \<Rightarrow> task_store \<Rightarrow> task_store" where
  "upd_task t f st = st(t := f (st t))"

lemma upd_task_apply [simp]: "upd_task t f st u = (if u = t then f (st t) else st u)"
  by (simp add: upd_task_def)

definition SCHED_OTHER :: int where "SCHED_OTHER = 0"
definition SCHED_FIFO :: int where "SCHED_FIFO = 1"
definition SCHED_RR :: int where "SCHED_RR = 2"
definition SCHED_BATCH :: int where "SCHED_BATCH = 3"
definition SCHED_IDLE :: int where "SCHED_IDLE = 5"
definition SCHED_DEADLINE :: int where "SCHED_DEADLINE = 6"

lemmas sched_policy_defs = SCHED_OTHER_def SCHED_FIFO_def SCHED_RR_def SCHED_BATCH_def
  SCHED_IDLE_def SCHED_DEADLINE_def

text \<open>A task as it is created: default entities, all CPUs allowed.\<close>

definition fresh_task :: task_inner where
  "fresh_task = \<lparr>on_main_hart = False, state = Ready, wake_pending = False, wake_source_cpu = None,
     sched_policy = SCHED_OTHER, sched_priority = 0, prio = 120, static_prio = 120, normal_prio = 120,
     se = sched_entity_new, rt = sched_rt_entity_new, dl = sched_dl_entity_new,
     on_cpu = False, on_rq = False, cpu = 0, cpus_allowed = - 1, need_resched = False\<rparr>"

end
