(* ===== verification/Cfs_Rq.thy ===== *)
theory Cfs_Rq
  imports Task_Model Rb_Queue
begin

text \<open>
  The fair run queue of \<open>process/scheduler/cfs_rq.rs\<close> on top of the ordered queue, and its
  refinement to a list of (virtual runtime, thread) pairs kept in service order.
\<close>

subsection \<open>Keys\<close>

datatype cfs_key = CfsKey (ck_vruntime: u64) (ck_order: u64) (ck_tid: tid)

definition cfs_key_cmp :: "cfs_key \<Rightarrow> cfs_key \<Rightarrow> ordering" where
  "cfs_key_cmp a b =
     then_with (then_with (usize_cmp (ck_vruntime a) (ck_vruntime b)) (usize_cmp (ck_order a) (ck_order b)))
       (usize_cmp (ck_tid a) (ck_tid b))"

lemma cfs_key_cmp_iff:
  "cfs_key_cmp a b = Less \<longleftrightarrow> ck_vruntime a < ck_vruntime b \<or> ck_vruntime a = ck_vruntime b \<and>
     (ck_order a < ck_order b \<or> ck_order a = ck_order b \<and> ck_tid a < ck_tid b)"
  "cfs_key_cmp a b = Greater \<longleftrightarrow> ck_vruntime b < ck_vruntime a \<or> ck_vruntime a = ck_vruntime b \<and>
     (ck_order b < ck_order a \<or> ck_order a = ck_order b \<and> ck_tid b < ck_tid a)"
  by (auto simp: cfs_key_cmp_def usize_cmp_def)

instantiation cfs_key :: linorder
begin

definition less_eq_cfs_key :: "cfs_key \<Rightarrow> cfs_key \<Rightarrow> bool" where
  "less_eq_cfs_key a b \<longleftrightarrow> cfs_key_cmp a b \<noteq> Greater"

definition less_cfs_key :: "cfs_key \<Rightarrow> cfs_key \<Rightarrow> bool" where
  "less_cfs_key a b \<longleftrightarrow> cfs_key_cmp a b = Less"

instance
  by standard (auto simp: less_eq_cfs_key_def less_cfs_key_def cfs_key_cmp_iff intro: cfs_key.expand)

end

lemma cfs_key_leD: "a \<le> b \<Longrightarrow> ck_vruntime a \<le> ck_vruntime b"
  by (auto simp: less_eq_cfs_key_def cfs_key_cmp_iff)

lemma cfs_key_le_iff: "ck_order a < ck_order b \<Longrightarrow> a \<le> b \<longleftrightarrow> ck_vruntime a \<le> ck_vruntime b"
  by (auto simp: less_eq_cfs_key_def cfs_key_cmp_iff)

subsection \<open>State and operations\<close>

record cfs_rq =
  load_total :: u64
  inv_weight :: u32
  nr_queued :: usize
  h_nr_queued :: usize
  min_vruntime :: u64
  tasks_timeline :: "(cfs_key, tid) rb_root_cached"
  exec_clock :: u64
  enqueue_order :: u64

definition cfs_new :: cfs_rq where
  "cfs_new = \<lparr>load_total = 0, inv_weight = 0, nr_queued = 0, h_nr_queued = 0, min_vruntime = 0,
     tasks_timeline = rb_new, exec_clock = 0, enqueue_order = 0\<rparr>"

definition cfs_enqueue :: "task_store \<Rightarrow> cfs_rq \<Rightarrow> tid \<Rightarrow> u64 \<Rightarrow> u64 \<Rightarrow> (task_store \<times> cfs_rq) option" where
  "cfs_enqueue st q t vr weight =
     do { let vr = max vr (min_vruntime q);
          let st = upd_task t (se_update (vruntime_update (\<lambda>_. vr))) st;
          let key = CfsKey vr (enqueue_order q) t;
          tl \<leftarrow> rb_insert (tasks_timeline q) key t;
          let leftmost_vruntime = (case rb_first_key tl of None \<Rightarrow> vr | Some k \<Rightarrow> ck_vruntime k);
          Some (st, q\<lparr>enqueue_order := enqueue_order q + 1,
                      tasks_timeline := tl,
                      nr_queued := nr_queued q + 1,
                      h_nr_queued := h_nr_queued q + 1,
                      load_total := sat_add (load_total q) weight,
                      min_vruntime := max (min_vruntime q) leftmost_vruntime\<rparr>) }"

definition cfs_dequeue :: "task_store \<Rightarrow> cfs_rq \<Rightarrow> tid \<Rightarrow> u64 \<Rightarrow> u64 \<Rightarrow> (cfs_rq \<times> tid option) option" where
  "cfs_dequeue st q t vr weight =
     do { (tl, task) \<leftarrow> rb_remove_where (\<lambda>u. u = t \<and> vruntime (se (st u)) = vr) (tasks_timeline q);
          let q = q\<lparr>tasks_timeline := tl\<rparr>;
          if task \<noteq> None
          then Some (q\<lparr>nr_queued := nr_queued q - 1, h_nr_queued := h_nr_queued q - 1,
                       load_total := sat_sub (load_total q) weight\<rparr>, task)
          else Some (q, None) }"

definition cfs_pick_next :: "cfs_rq \<Rightarrow> tid option" where
  "cfs_pick_next q = rb_first (tasks_timeline q)"

definition cfs_pop_next :: "task_store \<Rightarrow> cfs_rq \<Rightarrow> (cfs_rq \<times> tid option) option" where
  "cfs_pop_next st q =
     do { (tl, popped) \<leftarrow> rb_pop_first (tasks_timeline q);
          case popped of
            None \<Rightarrow> Some (q\<lparr>tasks_timeline := tl\<rparr>, None)
          | Some task \<Rightarrow>
              (let current_vruntime = vruntime (se (st task));
                   candidate = (case rb_first_key tl of
                                  None \<Rightarrow> current_vruntime
                                | Some key \<Rightarrow> min (ck_vruntime key) current_vruntime)
               in Some (q\<lparr>tasks_timeline := tl,
                          nr_queued := sat_sub (nr_queued q) 1,
                          h_nr_queued := sat_sub (h_nr_queued q) 1,
                          load_total := sat_sub (load_total q) (load_weight (se (st task))),
                          min_vruntime := max (min_vruntime q) candidate\<rparr>, Some task)) }"

definition cfs_remove_task :: "task_store \<Rightarrow> cfs_rq \<Rightarrow> tid \<Rightarrow> (cfs_rq \<times> tid option) option" where
  "cfs_remove_task st q t =
     do { (tl, removed) \<leftarrow> rb_remove_where (\<lambda>u. u = t) (tasks_timeline q);
          case removed of
            None \<Rightarrow> Some (q\<lparr>tasks_timeline := tl\<rparr>, None)
          | Some task \<Rightarrow>
              Some (q\<lparr>tasks_timeline := tl,
                      nr_queued := sat_sub (nr_queued q) 1,
                      h_nr_queued := sat_sub (h_nr_queued q) 1,
                      load_total := sat_sub (load_total q) (load_weight (se (st task)))\<rparr>, Some task) }"

definition cfs_advance_min_vruntime :: "cfs_rq \<Rightarrow> cfs_rq" where
  "cfs_advance_min_vruntime q =
     (case rb_first_key (tasks_timeline q) of
        None \<Rightarrow> q
      | Some key \<Rightarrow> q\<lparr>min_vruntime := max (min_vruntime q) (ck_vruntime key)\<rparr>)"

subsection \<open>Abstraction and invariant\<close>

text \<open>The queue as its clients see it: virtual runtimes with their threads, in service order.\<close>

definition cfs_abs :: "cfs_rq \<Rightarrow> (u64 \<times> tid) list" where
  "cfs_abs q = map (\<lambda>(k, t). (ck_vruntime k, t)) (rb_contents (tasks_timeline q))"

definition cfs_tids :: "cfs_rq \<Rightarrow> tid list" where
  "cfs_tids q = map snd (rb_contents (tasks_timeline q))"

definition cfs_inv :: "task_store \<Rightarrow> cfs_rq \<Rightarrow> bool" where
  "cfs_inv st q \<longleftrightarrow> rb_inv (tasks_timeline q)
     \<and> unat (nr_queued q) = length (cfs_tids q) \<and> h_nr_queued q = nr_queued q
     \<and> distinct (cfs_tids q)
     \<and> (\<forall>(k, t) \<in> set (rb_contents (tasks_timeline q)).
          ck_tid k = t \<and> vruntime (se (st t)) = ck_vruntime k \<and> min_vruntime q \<le> ck_vruntime k)"

text \<open>The enqueue numbers handed out so far; it holds until the counter wraps.\<close>

definition cfs_order_ok :: "cfs_rq \<Rightarrow> bool" where
  "cfs_order_ok q \<longleftrightarrow> (\<forall>(k, t) \<in> set (rb_contents (tasks_timeline q)). ck_order k < enqueue_order q)"

lemma cfs_inv_keys: "cfs_inv st q \<Longrightarrow> distinct (map fst (rb_contents (tasks_timeline q)))"
  by (rule rbq.keys_distinct [of _ ck_tid]) (auto simp: cfs_inv_def cfs_tids_def)

lemma cfs_inv_new: "cfs_inv st cfs_new" "cfs_abs cfs_new = []" "cfs_order_ok cfs_new"
  by (simp_all add: cfs_inv_def cfs_new_def cfs_tids_def cfs_abs_def cfs_order_ok_def rbq.inv_new)

lemma cfs_abs_snd [simp]: "map snd (cfs_abs q) = cfs_tids q"
  by (simp add: cfs_abs_def cfs_tids_def split_beta comp_def)

lemma sorted_ck_vruntime: "sorted xs \<Longrightarrow> sorted (map ck_vruntime xs)"
  by (induction xs) (auto dest: cfs_key_leD)

lemma cfs_abs_sorted:
  assumes "cfs_inv st q"
  shows "sorted (map fst (cfs_abs q))"
proof -
  have "sorted (map fst (rb_contents (tasks_timeline q)))"
    using assms by (intro rbq.inv_sorted) (simp add: cfs_inv_def)
  from sorted_ck_vruntime [OF this] show ?thesis by (simp add: cfs_abs_def split_beta comp_def)
qed

lemma cfs_abs_vruntime: "cfs_inv st q \<Longrightarrow> cfs_abs q = map (\<lambda>t. (vruntime (se (st t)), t)) (cfs_tids q)"
  by (auto simp: cfs_inv_def cfs_abs_def cfs_tids_def)

text \<open>The head of a sorted list bounds the rest.\<close>

lemma first_key_least:
  assumes "rb_inv q" "rb_first_key q = Some k" "e \<in> set (rb_contents q)"
  shows "k \<le> fst e"
  using assms rbq.inv_sorted [OF assms(1)]
  by (cases "rb_contents q") (auto simp: rbq.first_key_law)

lemma first_key_empty: "rb_inv q \<Longrightarrow> rb_first_key q = None \<longleftrightarrow> rb_contents q = []"
  by (cases "rb_contents q") (auto simp: rbq.first_key_law)

subsection \<open>Enqueue\<close>

text \<open>Re-keying commutes with the stable insert when it keeps the comparison with the new key.\<close>

lemma map_ins_entry:
  assumes "\<And>e. e \<in> set es \<Longrightarrow> fst e \<le> k \<longleftrightarrow> g (fst e) \<le> g k"
  shows "map (\<lambda>(k, t). (g k, t)) (ins_entry k v es) = ins_entry (g k) v (map (\<lambda>(k, t). (g k, t)) es)"
proof -
  have "takeWhile ((\<lambda>e. fst e \<le> g k) \<circ> (\<lambda>(k, t). (g k, t))) es = takeWhile (\<lambda>e. fst e \<le> k) es"
    "dropWhile ((\<lambda>e. fst e \<le> g k) \<circ> (\<lambda>(k, t). (g k, t))) es = dropWhile (\<lambda>e. fst e \<le> k) es"
    using assms by (auto intro!: takeWhile_cong dropWhile_cong)
  then show ?thesis by (simp add: ins_entry_def takeWhile_map dropWhile_map)
qed

lemma cfs_enqueue_shape:
  assumes i: "cfs_inv st q" and t: "t \<notin> set (cfs_tids q)" and n: "Suc (length (cfs_tids q)) < 2 ^ 64"
  obtains st' q' where "cfs_enqueue st q t vr w = Some (st', q')" "cfs_inv st' q'"
    "st' = upd_task t (se_update (vruntime_update (\<lambda>_. max vr (min_vruntime q)))) st"
    "rb_contents (tasks_timeline q') =
       ins_entry (CfsKey (max vr (min_vruntime q)) (enqueue_order q) t) t (rb_contents (tasks_timeline q))"
    "enqueue_order q' = enqueue_order q + 1" "min_vruntime q \<le> min_vruntime q'"
    "load_total q' = sat_add (load_total q) w"
proof -
  let ?vr = "max vr (min_vruntime q)" and ?st = "upd_task t (se_update (vruntime_update (\<lambda>_. max vr (min_vruntime q)))) st"
  let ?key = "CfsKey ?vr (enqueue_order q) t"
  from i have r: "rb_inv (tasks_timeline q)" by (simp add: cfs_inv_def)
  from rbq.insert_Some [OF this] obtain tl where tl: "rb_insert (tasks_timeline q) ?key t = Some tl" "rb_inv tl"
    "rb_contents tl = ins_entry ?key t (rb_contents (tasks_timeline q))" by metis
  then obtain k where k: "rb_first_key tl = Some k" using first_key_empty [OF tl(2)] by (cases "rb_first_key tl") auto
  note least = first_key_least [OF tl(2) k, THEN cfs_key_leD]
  let ?q = "q\<lparr>enqueue_order := enqueue_order q + 1, tasks_timeline := tl, nr_queued := nr_queued q + 1,
      h_nr_queued := h_nr_queued q + 1, load_total := sat_add (load_total q) w,
      min_vruntime := max (min_vruntime q) (ck_vruntime k)\<rparr>"
  have "cfs_enqueue st q t vr w = Some (?st, ?q)" using tl(1) k by (simp add: cfs_enqueue_def Let_def)
  moreover have "cfs_inv ?st ?q"
  proof -
    have "unat (nr_queued q + 1) = Suc (unat (nr_queued q))"
      using i n by (simp add: cfs_inv_def unat_word_ariths)
    moreover have "distinct (map snd (rb_contents tl))"
      using i t tl(3) by (simp add: distinct_ins_entry cfs_inv_def cfs_tids_def)
    moreover have "max (min_vruntime q) (ck_vruntime k) \<le> ck_vruntime (fst e)" if "e \<in> set (rb_contents tl)" for e
      using i least [OF that] that tl(3) by (auto simp: cfs_inv_def)
    moreover have "u \<noteq> t" if "(k', u) \<in> set (rb_contents (tasks_timeline q))" for k' u
      using t that by (force simp: cfs_tids_def)
    ultimately show ?thesis using i tl by (fastforce simp: cfs_inv_def cfs_tids_def)
  qed
  ultimately show ?thesis using that [of ?st ?q] tl(3) by simp
qed

lemma cfs_enqueue_abs:
  assumes "cfs_order_ok q" "rb_contents (tasks_timeline q') =
     ins_entry (CfsKey vr (enqueue_order q) t) t (rb_contents (tasks_timeline q))"
  shows "cfs_abs q' = ins_entry vr t (cfs_abs q)"
proof -
  have "fst e \<le> CfsKey vr (enqueue_order q) t \<longleftrightarrow> ck_vruntime (fst e) \<le> ck_vruntime (CfsKey vr (enqueue_order q) t)"
    if "e \<in> set (rb_contents (tasks_timeline q))" for e
    using assms(1) that by (intro cfs_key_le_iff) (auto simp: cfs_order_ok_def)
  from map_ins_entry [OF this, where v = t] assms(2) show ?thesis by (simp add: cfs_abs_def)
qed

lemma cfs_enqueue_order_ok:
  assumes "cfs_order_ok q" "rb_contents (tasks_timeline q') =
     ins_entry (CfsKey vr (enqueue_order q) t) t (rb_contents (tasks_timeline q))"
    "enqueue_order q' = enqueue_order q + 1" "enqueue_order q \<noteq> - 1"
  shows "cfs_order_ok q'"
proof -
  have "enqueue_order q < enqueue_order q + 1"
    using assms(4) by (rule word_less_plus_one)
  with assms show ?thesis by (fastforce simp: cfs_order_ok_def)
qed

subsection \<open>Taking tasks out\<close>

lemma cfs_pop_empty:
  assumes "cfs_inv st q" "cfs_abs q = []"
  shows "cfs_pop_next st q = Some (q, None)"
  using assms rbq.pop_empty [of "tasks_timeline q"] by (simp add: cfs_pop_next_def cfs_inv_def cfs_abs_def)

lemma cfs_pop_Cons:
  assumes i: "cfs_inv st q" and c: "cfs_abs q = (vr, t) # es"
  obtains q' where "cfs_pop_next st q = Some (q', Some t)" "cfs_inv st q'" "cfs_abs q' = es"
    "min_vruntime q \<le> min_vruntime q'" "cfs_order_ok q \<Longrightarrow> cfs_order_ok q'"
proof -
  from i have r: "rb_inv (tasks_timeline q)" by (simp add: cfs_inv_def)
  from c obtain k ks where k: "rb_contents (tasks_timeline q) = (k, t) # ks" "vr = ck_vruntime k"
      "es = map (\<lambda>(k, t). (ck_vruntime k, t)) ks"
    by (auto simp: cfs_abs_def)
  from rbq.pop_Cons [OF r cfs_inv_keys [OF i] k(1)] obtain tl where tl:
    "rb_pop_first (tasks_timeline q) = Some (tl, Some t)" "rb_inv tl" "rb_contents tl = ks" by metis
  let ?cand = "case rb_first_key tl of None \<Rightarrow> vruntime (se (st t)) | Some key \<Rightarrow> min (ck_vruntime key) (vruntime (se (st t)))"
  let ?q = "q\<lparr>tasks_timeline := tl, nr_queued := sat_sub (nr_queued q) 1, h_nr_queued := sat_sub (h_nr_queued q) 1,
      load_total := sat_sub (load_total q) (load_weight (se (st t))), min_vruntime := max (min_vruntime q) ?cand\<rparr>"
  have "cfs_pop_next st q = Some (?q, Some t)" using tl(1) by (simp add: cfs_pop_next_def Let_def)
  moreover have "?cand \<le> ck_vruntime k'" if "(k', u) \<in> set ks" for k' u
    using first_key_least [OF tl(2), of _ "(k', u)"] first_key_empty [OF tl(2)] that tl(3)
    by (auto split: option.split intro!: min.coboundedI1 cfs_key_leD)
  then have "cfs_inv st ?q"
    using i k tl by (auto simp: cfs_inv_def cfs_tids_def unat_sat_sub)
  ultimately show ?thesis using that [of ?q] k tl by (auto simp: cfs_abs_def cfs_order_ok_def)
qed

text \<open>Both forms of removal take out at most the one entry of the thread.\<close>

lemma cfs_remove_where:
  assumes i: "cfs_inv st q" and P: "\<And>u. P u \<Longrightarrow> u = t" "t \<in> set (cfs_tids q) \<Longrightarrow> P t"
  shows "t \<notin> set (cfs_tids q) \<and> rb_remove_where P (tasks_timeline q) = Some (tasks_timeline q, None)
    \<or> t \<in> set (cfs_tids q) \<and> (\<exists>tl. rb_remove_where P (tasks_timeline q) = Some (tl, Some t) \<and> rb_inv tl
        \<and> rb_contents tl = filter (\<lambda>e. snd e \<noteq> t) (rb_contents (tasks_timeline q)))"
proof -
  have q: "rb_inv (tasks_timeline q)" "distinct (map snd (rb_contents (tasks_timeline q)))"
    and f: "\<And>k v. (k, v) \<in> set (rb_contents (tasks_timeline q)) \<Longrightarrow> ck_tid k = v"
    using i by (auto simp: cfs_inv_def cfs_tids_def)
  have t: "set (cfs_tids q) = snd ` set (rb_contents (tasks_timeline q))" by (simp add: cfs_tids_def)
  show ?thesis unfolding t
    by (rule rbq.remove_where_value [where f = ck_tid and P = P and t = t, OF q f P(1) P(2) [unfolded t]])
qed

lemma cfs_inv_filter:
  assumes "cfs_inv st q" "t \<in> set (cfs_tids q)" "rb_inv tr"
    "rb_contents tr = filter (\<lambda>e. snd e \<noteq> t) (rb_contents (tasks_timeline q))"
    "q' = q\<lparr>tasks_timeline := tr, nr_queued := n, h_nr_queued := n, load_total := w\<rparr>" "unat n = unat (nr_queued q) - 1"
  shows "cfs_inv st q'" "cfs_abs q' = filter (\<lambda>e. snd e \<noteq> t) (cfs_abs q)"
proof -
  have "distinct (map snd (rb_contents tr))"
    using assms(1,4) by (simp add: cfs_inv_def cfs_tids_def distinct_map_filter)
  moreover have "length (rb_contents tr) = length (rb_contents (tasks_timeline q)) - 1"
    using assms(1,2,4) length_filter_distinct [of snd "rb_contents (tasks_timeline q)" t]
    by (simp add: cfs_inv_def cfs_tids_def)
  ultimately show "cfs_inv st q'" using assms by (auto simp: cfs_inv_def cfs_tids_def)
  show "cfs_abs q' = filter (\<lambda>e. snd e \<noteq> t) (cfs_abs q)"
    using assms(4,5) by (simp add: cfs_abs_def filter_map comp_def split_beta)
qed

lemma cfs_remove_task_spec:
  assumes i: "cfs_inv st q"
  obtains q' where "cfs_remove_task st q t = Some (q', if t \<in> set (cfs_tids q) then Some t else None)"
    "cfs_inv st q'" "cfs_abs q' = filter (\<lambda>e. snd e \<noteq> t) (cfs_abs q)" "min_vruntime q' = min_vruntime q"
proof (cases "t \<in> set (cfs_tids q)")
  case False
  with cfs_remove_where [OF i, of "\<lambda>u. u = t" t] have "cfs_remove_task st q t = Some (q, None)"
    by (simp add: cfs_remove_task_def)
  moreover have "filter (\<lambda>e. snd e \<noteq> t) (cfs_abs q) = cfs_abs q"
    using False by (force simp: filter_id_conv simp flip: cfs_abs_snd)
  ultimately show ?thesis using that [of q] i False by simp
next
  case True
  with cfs_remove_where [OF i, of "\<lambda>u. u = t" t] obtain tl where tl:
      "rb_remove_where (\<lambda>u. u = t) (tasks_timeline q) = Some (tl, Some t)" "rb_inv tl"
      "rb_contents tl = filter (\<lambda>e. snd e \<noteq> t) (rb_contents (tasks_timeline q))" by auto
  let ?q = "q\<lparr>tasks_timeline := tl, nr_queued := sat_sub (nr_queued q) 1, h_nr_queued := sat_sub (nr_queued q) 1,
     load_total := sat_sub (load_total q) (load_weight (se (st t)))\<rparr>"
  have "cfs_remove_task st q t = Some (?q, Some t)"
    using tl(1) i by (simp add: cfs_remove_task_def cfs_inv_def)
  then show ?thesis using that [of ?q] True cfs_inv_filter [OF i True tl(2,3), of ?q] by (simp add: unat_sat_sub)
qed

lemma cfs_dequeue_spec:
  assumes i: "cfs_inv st q"
  obtains q' where
    "cfs_dequeue st q t vr w = Some (q', if (vr, t) \<in> set (cfs_abs q) then Some t else None)"
    "cfs_inv st q'" "cfs_abs q' = filter (\<lambda>e. e \<noteq> (vr, t)) (cfs_abs q)" "min_vruntime q' = min_vruntime q"
proof (cases "(vr, t) \<in> set (cfs_abs q)")
  case False
  have "\<forall>e \<in> set (rb_contents (tasks_timeline q)). \<not> (snd e = t \<and> vruntime (se (st (snd e))) = vr)"
    using False i by (force simp: cfs_abs_def cfs_inv_def)
  with i have "cfs_dequeue st q t vr w = Some (q, None)"
    using rbq.remove_where_none [of "tasks_timeline q" "\<lambda>u. u = t \<and> vruntime (se (st u)) = vr"]
    by (simp add: cfs_dequeue_def cfs_inv_def)
  moreover have "filter (\<lambda>e. e \<noteq> (vr, t)) (cfs_abs q) = cfs_abs q" using False by (auto simp: filter_id_conv)
  ultimately show ?thesis using that [of q] i False by simp
next
  case True
  then have t: "t \<in> set (cfs_tids q)" by (force simp flip: cfs_abs_snd)
  have v: "vruntime (se (st t)) = vr" using True i by (auto simp: cfs_abs_def cfs_inv_def)
  from cfs_remove_where [OF i, of "\<lambda>u. u = t \<and> vruntime (se (st u)) = vr" t] t v obtain tl where tl:
      "rb_remove_where (\<lambda>u. u = t \<and> vruntime (se (st u)) = vr) (tasks_timeline q) = Some (tl, Some t)" "rb_inv tl"
      "rb_contents tl = filter (\<lambda>e. snd e \<noteq> t) (rb_contents (tasks_timeline q))" by auto
  let ?q = "q\<lparr>tasks_timeline := tl, nr_queued := nr_queued q - 1, h_nr_queued := nr_queued q - 1,
     load_total := sat_sub (load_total q) w\<rparr>"
  have "nr_queued q \<noteq> 0" using i t by (auto simp: cfs_inv_def)
  then have n: "unat (nr_queued q - 1) = unat (nr_queued q) - 1"
    by (simp add: unat_sub word_le_nat_alt unat_gt_0 Suc_leI)
  have "cfs_dequeue st q t vr w = Some (?q, Some t)"
    using tl(1) i by (simp add: cfs_dequeue_def cfs_inv_def)
  moreover have "filter (\<lambda>e. snd e \<noteq> t) (cfs_abs q) = filter (\<lambda>e. e \<noteq> (vr, t)) (cfs_abs q)"
    using v by (auto simp: cfs_abs_vruntime [OF i] intro!: filter_cong)
  ultimately show ?thesis using that [of ?q] True cfs_inv_filter [OF i t tl(2,3), of ?q] n by simp
qed

lemma cfs_advance_spec:
  assumes "cfs_inv st q"
  shows "cfs_inv st (cfs_advance_min_vruntime q)" "cfs_abs (cfs_advance_min_vruntime q) = cfs_abs q"
    "min_vruntime q \<le> min_vruntime (cfs_advance_min_vruntime q)"
    "cfs_order_ok q \<Longrightarrow> cfs_order_ok (cfs_advance_min_vruntime q)"
  using assms first_key_least [of "tasks_timeline q", THEN cfs_key_leD]
  by (fastforce simp: cfs_inv_def cfs_advance_min_vruntime_def cfs_abs_def cfs_tids_def cfs_order_ok_def
      split: option.split)+

subsection \<open>Runs\<close>

text \<open>
  Any interleaving of the operations, on one queue.  Enqueueing needs what the caller
  guarantees by the \<open>on_rq\<close> flag (the thread is not queued) and a counter that is not full.
\<close>

inductive cfs_step :: "task_store \<times> cfs_rq \<Rightarrow> task_store \<times> cfs_rq \<Rightarrow> bool" where
  enqueue: "t \<notin> set (cfs_tids q) \<Longrightarrow> Suc (length (cfs_tids q)) < 2 ^ 64
    \<Longrightarrow> cfs_enqueue st q t vr w = Some (st', q') \<Longrightarrow> cfs_step (st, q) (st', q')"
| dequeue: "cfs_dequeue st q t vr w = Some (q', r) \<Longrightarrow> cfs_step (st, q) (st, q')"
| pop: "cfs_pop_next st q = Some (q', r) \<Longrightarrow> cfs_step (st, q) (st, q')"
| remove: "cfs_remove_task st q t = Some (q', r) \<Longrightarrow> cfs_step (st, q) (st, q')"
| advance: "cfs_step (st, q) (st, cfs_advance_min_vruntime q)"

inductive_cases cfs_stepE: "cfs_step (st, q) (st', q')"

lemma cfs_step_inv:
  assumes "cfs_step s s'" "cfs_inv (fst s) (snd s)"
  shows "cfs_inv (fst s') (snd s') \<and> min_vruntime (snd s) \<le> min_vruntime (snd s')"
  using assms
proof (induction rule: cfs_step.induct)
  case (enqueue t q st vr w st' q')
  show ?case by (rule cfs_enqueue_shape [of st q t vr w]) (use enqueue in \<open>auto simp del: upd_task_apply\<close>)
next
  case (dequeue st q t vr w q' r)
  show ?case by (rule cfs_dequeue_spec [of st q t vr w]) (use dequeue in auto)
next
  case (pop st q q' r)
  show ?case
  proof (cases "cfs_abs q")
    case Nil
    with pop cfs_pop_empty [of st q] show ?thesis by simp
  next
    case (Cons e es)
    show ?thesis by (rule cfs_pop_Cons [of st q "fst e" "snd e" es]) (use pop Cons in auto)
  qed
next
  case (remove st q t q' r)
  show ?case by (rule cfs_remove_task_spec [of st q t]) (use remove in auto)
next
  case (advance st q)
  then show ?case by (simp add: cfs_advance_spec)
qed

subsection \<open>Properties\<close>

text \<open>
  C20. Enqueueing refines the stable insert on (virtual runtime, thread) pairs: the thread is
  placed, with its virtual runtime raised to the queue's clock, behind every queued thread
  whose virtual runtime is not larger (first in, first out among equals), and the queue's
  invariant is kept.
\<close>

theorem cfs_enqueue_refines:
  assumes "cfs_inv st q" "cfs_order_ok q" "enqueue_order q \<noteq> - 1"
    "t \<notin> set (cfs_tids q)" "Suc (length (cfs_tids q)) < 2 ^ 64"
  shows "\<exists>st' q'. cfs_enqueue st q t vr w = Some (st', q') \<and> cfs_inv st' q' \<and> cfs_order_ok q'
    \<and> cfs_abs q' = ins_entry (max vr (min_vruntime q)) t (cfs_abs q)
    \<and> vruntime (se (st' t)) = max vr (min_vruntime q)"
proof -
  obtain st' q' where e: "cfs_enqueue st q t vr w = Some (st', q')" "cfs_inv st' q'"
    "st' = upd_task t (se_update (vruntime_update (\<lambda>_. max vr (min_vruntime q)))) st"
    "rb_contents (tasks_timeline q') =
       ins_entry (CfsKey (max vr (min_vruntime q)) (enqueue_order q) t) t (rb_contents (tasks_timeline q))"
    "enqueue_order q' = enqueue_order q + 1"
    by (rule cfs_enqueue_shape [OF assms(1,4,5)])
  then have "vruntime (se (st' t)) = max vr (min_vruntime q)" by simp
  with e(1,2) cfs_enqueue_abs [OF assms(2) e(4)] cfs_enqueue_order_ok [OF assms(2) e(4,5) assms(3)]
  show ?thesis by blast
qed

theorem cfs_enqueue_refines_witness:
  "\<exists>st' q'. cfs_enqueue (\<lambda>_. fresh_task) cfs_new 5 100 1024 = Some (st', q') \<and> cfs_inv st' q'
    \<and> cfs_order_ok q' \<and> cfs_abs q' = [(100, 5)] \<and> vruntime (se (st' 5)) = 100"
proof -
  have "cfs_tids cfs_new = []" using cfs_abs_snd [of cfs_new] cfs_inv_new by simp
  then show ?thesis
    using cfs_enqueue_refines [of "\<lambda>_. fresh_task" cfs_new 5 100 1024] cfs_inv_new
    by (auto simp: cfs_new_def ins_entry_def)
qed

text \<open>
  C21. \<open>pop_next\<close> never panics and takes the front thread in service order, one whose virtual
  runtime is least among all queued threads; the remaining queue is unchanged and the
  invariant is kept.  It returns nothing exactly when the queue is empty.
\<close>

theorem cfs_pop_next_least:
  assumes "cfs_inv st q"
  shows "\<exists>q' r. cfs_pop_next st q = Some (q', r) \<and> cfs_inv st q'
    \<and> (case r of None \<Rightarrow> cfs_tids q = [] \<and> q' = q
       | Some t \<Rightarrow> cfs_tids q = t # cfs_tids q'
           \<and> (\<forall>u \<in> set (cfs_tids q). vruntime (se (st t)) \<le> vruntime (se (st u))))"
proof (cases "cfs_abs q")
  case Nil
  then have "cfs_tids q = []" using cfs_abs_snd [of q] by simp
  with Nil assms cfs_pop_empty [of st q] show ?thesis by auto
next
  case (Cons e es)
  have "sorted (map (\<lambda>t. vruntime (se (st t))) (cfs_tids q))"
    using cfs_abs_sorted [OF assms] by (simp add: cfs_abs_vruntime [OF assms] comp_def)
  moreover have "cfs_tids q = snd e # map snd es" using Cons cfs_abs_snd [of q] by simp
  moreover obtain q' where "cfs_pop_next st q = Some (q', Some (snd e))" "cfs_inv st q'" "cfs_abs q' = es"
    by (rule cfs_pop_Cons [of st q "fst e" "snd e" es]) (use assms Cons in auto)
  moreover from this(3) have "cfs_tids q' = map snd es" using cfs_abs_snd [of q'] by simp
  ultimately show ?thesis by auto
qed

theorem cfs_pop_next_least_witness:
  "\<exists>q' r. cfs_pop_next (\<lambda>_. fresh_task) cfs_new = Some (q', r) \<and> cfs_inv (\<lambda>_. fresh_task) q'
    \<and> (case r of None \<Rightarrow> cfs_tids cfs_new = [] \<and> q' = cfs_new
       | Some t \<Rightarrow> cfs_tids cfs_new = t # cfs_tids q'
           \<and> (\<forall>u \<in> set (cfs_tids cfs_new). vruntime (se fresh_task) \<le> vruntime (se fresh_task)))"
  using cfs_pop_next_least [OF cfs_inv_new(1)] by simp

text \<open>
  C22. Over any interleaving of enqueue, dequeue, pop, removal and clock advance from the
  empty queue, the invariant holds and the queue's clock \<open>min_vruntime\<close> never runs backwards
  and never passes the virtual runtime of a queued thread.
\<close>

theorem cfs_clock_monotone:
  assumes "cfs_step\<^sup>*\<^sup>* (st0, cfs_new) (st, q)" "cfs_step\<^sup>*\<^sup>* (st, q) (st', q')"
  shows "cfs_inv st' q' \<and> min_vruntime q \<le> min_vruntime q'
    \<and> (\<forall>t \<in> set (cfs_tids q'). min_vruntime q' \<le> vruntime (se (st' t)))"
proof -
  have step: "cfs_step\<^sup>*\<^sup>* s s' \<Longrightarrow> cfs_inv (fst s) (snd s)
      \<Longrightarrow> cfs_inv (fst s') (snd s') \<and> min_vruntime (snd s) \<le> min_vruntime (snd s')" for s s'
    by (induction rule: rtranclp_induct) (auto dest!: cfs_step_inv)
  from step [OF assms(1)] have "cfs_inv st q" by (simp add: cfs_inv_new)
  with step [OF assms(2)] have "cfs_inv st' q'" "min_vruntime q \<le> min_vruntime q'" by simp_all
  moreover from this(1) have "\<forall>t \<in> set (cfs_tids q'). min_vruntime q' \<le> vruntime (se (st' t))"
    by (auto simp: cfs_inv_def cfs_tids_def)
  ultimately show ?thesis by blast
qed

theorem cfs_clock_monotone_witness:
  "\<exists>st q. cfs_step\<^sup>*\<^sup>* (\<lambda>_. fresh_task, cfs_new) (st, q) \<and> cfs_tids q = [7] \<and> cfs_inv st q
    \<and> min_vruntime cfs_new \<le> min_vruntime q \<and> min_vruntime q \<le> vruntime (se (st 7))"
proof -
  have c: "rb_contents (tasks_timeline cfs_new) = []" "cfs_tids cfs_new = []" "min_vruntime cfs_new = 0"
    using rbq.inv_new by (simp_all add: cfs_new_def cfs_tids_def)
  obtain st q where e: "cfs_enqueue (\<lambda>_. fresh_task) cfs_new 7 30 1024 = Some (st, q)"
      "rb_contents (tasks_timeline q) = ins_entry (CfsKey (max 30 (min_vruntime cfs_new)) (enqueue_order cfs_new) 7) 7
         (rb_contents (tasks_timeline cfs_new))"
    by (rule cfs_enqueue_shape [of "\<lambda>_. fresh_task" cfs_new 7 30 1024]) (use c cfs_inv_new in auto)
  have "cfs_step (\<lambda>_. fresh_task, cfs_new) (st, q)"
    using e(1) c by (intro cfs_step.enqueue [of 7]) auto
  then have run: "cfs_step\<^sup>*\<^sup>* (\<lambda>_. fresh_task, cfs_new) (st, q)" by blast
  moreover have "cfs_tids q = [7]" using e(2) c by (simp add: cfs_tids_def ins_entry_def)
  ultimately show ?thesis using cfs_clock_monotone [OF rtranclp.rtrancl_refl run] by auto
qed

end
