(* ===== verification/Deadline_Rq.thy ===== *)
theory Deadline_Rq
  imports Task_Model Rb_Queue
begin

text \<open>
  The deadline run queue of \<open>process/scheduler/deadline_rq.rs\<close>: a cached tree ordered by
  absolute deadline, and the tree of migratable tasks kept beside it.
\<close>

subsection \<open>Keys, state, operations\<close>

datatype deadline_key = DeadlineKey (dk_deadline: u64) (dk_tid: tid)

text \<open>The derived order: field by field, in the order of declaration.\<close>

definition deadline_key_cmp :: "deadline_key \<Rightarrow> deadline_key \<Rightarrow> ordering" where
  "deadline_key_cmp a b = then_with (usize_cmp (dk_deadline a) (dk_deadline b)) (usize_cmp (dk_tid a) (dk_tid b))"

lemma deadline_key_cmp_iff:
  "deadline_key_cmp a b = Less \<longleftrightarrow> dk_deadline a < dk_deadline b \<or> dk_deadline a = dk_deadline b \<and> dk_tid a < dk_tid b"
  "deadline_key_cmp a b = Greater \<longleftrightarrow> dk_deadline b < dk_deadline a \<or> dk_deadline a = dk_deadline b \<and> dk_tid b < dk_tid a"
  by (auto simp: deadline_key_cmp_def usize_cmp_def)

instantiation deadline_key :: linorder
begin

definition less_eq_deadline_key :: "deadline_key \<Rightarrow> deadline_key \<Rightarrow> bool" where
  "less_eq_deadline_key a b \<longleftrightarrow> deadline_key_cmp a b \<noteq> Greater"

definition less_deadline_key :: "deadline_key \<Rightarrow> deadline_key \<Rightarrow> bool" where
  "less_deadline_key a b \<longleftrightarrow> deadline_key_cmp a b = Less"

instance
  by standard (auto simp: less_eq_deadline_key_def less_deadline_key_def deadline_key_cmp_iff intro: deadline_key.expand)

end

record deadline_rq =
  dl_root :: "(deadline_key, tid) rb_root_cached"
  pushable_dl_tasks_root :: "(deadline_key, tid) rb_root_cached"
  dl_nr_running :: usize
  running_bw :: u64
  this_bw :: u64
  earliest_dl_curr :: u64
  earliest_dl_next :: u64
  dl_overloaded :: bool

definition dl_new :: deadline_rq where
  "dl_new = \<lparr>dl_root = rb_new, pushable_dl_tasks_root = rb_new, dl_nr_running = 0, running_bw = 0,
     this_bw = 0, earliest_dl_curr = - 1, earliest_dl_next = - 1, dl_overloaded = False\<rparr>"

definition dl_enqueue :: "deadline_rq \<Rightarrow> tid \<Rightarrow> u64 \<Rightarrow> deadline_rq option" where
  "dl_enqueue q t d =
     do { root \<leftarrow> rb_insert (dl_root q) (DeadlineKey d t) t;
          Some (q\<lparr>dl_root := root, dl_nr_running := dl_nr_running q + 1\<rparr>) }"

definition dl_dequeue :: "deadline_rq \<Rightarrow> tid \<Rightarrow> u64 \<Rightarrow> (deadline_rq \<times> tid option) option" where
  "dl_dequeue q t d =
     do { (root, task) \<leftarrow> rb_remove (dl_root q) (DeadlineKey d t);
          let q = q\<lparr>dl_root := root\<rparr>;
          Some (if task \<noteq> None then q\<lparr>dl_nr_running := dl_nr_running q - 1\<rparr> else q, task) }"

definition dl_pick_next :: "deadline_rq \<Rightarrow> tid option" where
  "dl_pick_next q = rb_first (dl_root q)"

definition dl_pop_next :: "deadline_rq \<Rightarrow> (deadline_rq \<times> tid option) option" where
  "dl_pop_next q =
     do { (root, popped) \<leftarrow> rb_pop_first (dl_root q);
          case popped of
            None \<Rightarrow> Some (q\<lparr>dl_root := root\<rparr>, None)
          | Some task \<Rightarrow>
              Some (q\<lparr>dl_root := root,
                      dl_nr_running := sat_sub (dl_nr_running q) 1,
                      earliest_dl_next := (case rb_first_key root of None \<Rightarrow> - 1 | Some k \<Rightarrow> dk_deadline k)\<rparr>,
                    Some task) }"

definition dl_remove_task :: "deadline_rq \<Rightarrow> tid \<Rightarrow> (deadline_rq \<times> tid option) option" where
  "dl_remove_task q t =
     do { (root, removed) \<leftarrow> rb_remove_where (\<lambda>u. u = t) (dl_root q);
          case removed of
            None \<Rightarrow> Some (q\<lparr>dl_root := root\<rparr>, None)
          | Some task \<Rightarrow>
              Some (q\<lparr>dl_root := root, dl_nr_running := sat_sub (dl_nr_running q) 1\<rparr>, Some task) }"

definition dl_enqueue_pushable :: "deadline_rq \<Rightarrow> tid \<Rightarrow> u64 \<Rightarrow> deadline_rq option" where
  "dl_enqueue_pushable q t d =
     do { root \<leftarrow> rb_insert (pushable_dl_tasks_root q) (DeadlineKey d t) t;
          Some (q\<lparr>pushable_dl_tasks_root := root, dl_overloaded := \<not> rb_is_empty root\<rparr>) }"

definition dl_dequeue_pushable :: "deadline_rq \<Rightarrow> tid \<Rightarrow> u64 \<Rightarrow> (deadline_rq \<times> tid option) option" where
  "dl_dequeue_pushable q t d =
     do { (root, task) \<leftarrow> rb_remove (pushable_dl_tasks_root q) (DeadlineKey d t);
          Some (q\<lparr>pushable_dl_tasks_root := root, dl_overloaded := \<not> rb_is_empty root\<rparr>, task) }"

subsection \<open>Abstraction and invariant\<close>

definition dl_tids :: "deadline_rq \<Rightarrow> tid list" where
  "dl_tids q = map snd (rb_contents (dl_root q))"

definition dl_abs :: "deadline_rq \<Rightarrow> deadline_key list" where
  "dl_abs q = map fst (rb_contents (dl_root q))"

definition dl_inv :: "deadline_rq \<Rightarrow> bool" where
  "dl_inv q \<longleftrightarrow> rb_inv (dl_root q) \<and> unat (dl_nr_running q) = length (dl_tids q) \<and> distinct (dl_tids q)
     \<and> (\<forall>(k, t) \<in> set (rb_contents (dl_root q)). dk_tid k = t)
     \<and> rb_inv (pushable_dl_tasks_root q)
     \<and> (\<forall>(k, t) \<in> set (rb_contents (pushable_dl_tasks_root q)). dk_tid k = t)
     \<and> (dl_overloaded q \<longleftrightarrow> rb_contents (pushable_dl_tasks_root q) \<noteq> [])"

lemma dl_inv_keys: "dl_inv q \<Longrightarrow> distinct (map fst (rb_contents (dl_root q)))"
  by (rule rbq.keys_distinct [of _ dk_tid]) (auto simp: dl_inv_def dl_tids_def)

lemma dl_tids_abs: "dl_inv q \<Longrightarrow> dl_tids q = map dk_tid (dl_abs q)"
  by (auto simp: dl_inv_def dl_tids_def dl_abs_def)

lemma dl_inv_new: "dl_inv dl_new" "dl_tids dl_new = []"
  by (simp_all add: dl_inv_def dl_new_def dl_tids_def rbq.inv_new)

lemma dl_enqueue_spec:
  assumes i: "dl_inv q" and t: "t \<notin> set (dl_tids q)" and n: "Suc (length (dl_tids q)) < 2 ^ 64"
  obtains q' where "dl_enqueue q t d = Some q'" "dl_inv q'" "set (dl_tids q') = insert t (set (dl_tids q))"
    "dl_abs q' = takeWhile (\<lambda>k. k \<le> DeadlineKey d t) (dl_abs q) @ DeadlineKey d t
       # dropWhile (\<lambda>k. k \<le> DeadlineKey d t) (dl_abs q)"
proof -
  from i have r: "rb_inv (dl_root q)" by (simp add: dl_inv_def)
  obtain root where root: "rb_insert (dl_root q) (DeadlineKey d t) t = Some root" "rb_inv root"
    "rb_contents root = ins_entry (DeadlineKey d t) t (rb_contents (dl_root q))" by (rule rbq.insert_Some [OF r])
  let ?q = "q\<lparr>dl_root := root, dl_nr_running := dl_nr_running q + 1\<rparr>"
  have "unat (dl_nr_running q + 1) = Suc (unat (dl_nr_running q))"
    using i n by (intro unat_plus_one) (simp add: dl_inv_def)
  moreover have "distinct (map snd (rb_contents root))"
    using i t root(3) by (simp add: distinct_ins_entry dl_inv_def dl_tids_def)
  ultimately have "dl_inv ?q" using i root by (auto simp: dl_inv_def dl_tids_def)
  moreover have "set (dl_tids ?q) = insert t (set (dl_tids q))" using root(3) by (simp add: dl_tids_def)
  moreover have "dl_abs ?q = takeWhile (\<lambda>k. k \<le> DeadlineKey d t) (dl_abs q) @ DeadlineKey d t
       # dropWhile (\<lambda>k. k \<le> DeadlineKey d t) (dl_abs q)"
    using root(3) by (simp add: dl_abs_def ins_entry_def takeWhile_map dropWhile_map comp_def)
  ultimately show ?thesis using root(1) by (intro that [of ?q]) (simp_all add: dl_enqueue_def)
qed

lemma dl_pop_empty: "dl_inv q \<Longrightarrow> dl_tids q = [] \<Longrightarrow> dl_pop_next q = Some (q, None)"
  using rbq.pop_empty [of "dl_root q"] by (simp add: dl_pop_next_def dl_inv_def dl_tids_def)

lemma dl_pop_Cons:
  assumes i: "dl_inv q" and c: "dl_abs q = k # ks"
  obtains q' where "dl_pop_next q = Some (q', Some (dk_tid k))" "dl_inv q'" "dl_abs q' = ks"
    "earliest_dl_next q' = (case ks of [] \<Rightarrow> - 1 | k' # _ \<Rightarrow> dk_deadline k')"
proof -
  from i have r: "rb_inv (dl_root q)" by (simp add: dl_inv_def)
  from c obtain t es where e: "rb_contents (dl_root q) = (k, t) # es" "ks = map fst es" by (auto simp: dl_abs_def)
  obtain root where root: "rb_pop_first (dl_root q) = Some (root, Some t)" "rb_inv root" "rb_contents root = es"
    by (rule rbq.pop_Cons [OF r dl_inv_keys [OF i] e(1)])
  have "t = dk_tid k" using i e(1) by (simp add: dl_inv_def)
  moreover have "rb_first_key root = map_option fst (List.find (\<lambda>_. True) es)"
    using rbq.first_key_law [OF root(2)] root(3) by simp
  ultimately show ?thesis using root i e
    by (intro that [of "q\<lparr>dl_root := root, dl_nr_running := sat_sub (dl_nr_running q) 1,
        earliest_dl_next := (case rb_first_key root of None \<Rightarrow> - 1 | Some k \<Rightarrow> dk_deadline k)\<rparr>"])
      (auto simp: dl_pop_next_def dl_inv_def dl_tids_def dl_abs_def unat_sat_sub split: list.split)
qed

lemma dl_remove_task_spec:
  assumes i: "dl_inv q"
  obtains q' where "dl_remove_task q t = Some (q', if t \<in> set (dl_tids q) then Some t else None)"
    "dl_inv q'" "dl_tids q' = filter (\<lambda>u. u \<noteq> t) (dl_tids q)"
proof -
  have q: "rb_inv (dl_root q)" "distinct (map snd (rb_contents (dl_root q)))"
    and f: "\<And>k v. (k, v) \<in> set (rb_contents (dl_root q)) \<Longrightarrow> dk_tid k = v"
    using i by (auto simp: dl_inv_def dl_tids_def)
  have t: "set (dl_tids q) = snd ` set (rb_contents (dl_root q))" by (simp add: dl_tids_def)
  from rbq.remove_where_value [where f = dk_tid and P = "\<lambda>u. u = t" and t = t, OF q f]
  consider "t \<notin> set (dl_tids q)" "rb_remove_where (\<lambda>u. u = t) (dl_root q) = Some (dl_root q, None)"
    | root where "t \<in> set (dl_tids q)" "rb_remove_where (\<lambda>u. u = t) (dl_root q) = Some (root, Some t)"
        "rb_inv root" "rb_contents root = filter (\<lambda>e. snd e \<noteq> t) (rb_contents (dl_root q))"
    unfolding t by blast
  then show ?thesis
  proof cases
    case 1
    then have "filter (\<lambda>u. u \<noteq> t) (dl_tids q) = dl_tids q" by (auto simp: filter_id_conv)
    with 1 i show ?thesis by (intro that [of q]) (simp_all add: dl_remove_task_def)
  next
    case (2 root)
    let ?q = "q\<lparr>dl_root := root, dl_nr_running := sat_sub (dl_nr_running q) 1\<rparr>"
    have "length (rb_contents root) = length (rb_contents (dl_root q)) - 1"
      using 2(1,4) length_filter_distinct [OF q(2)] by (simp add: t)
    then have "dl_inv ?q" using 2 i by (auto simp: dl_inv_def dl_tids_def unat_sat_sub distinct_map_filter)
    then show ?thesis using 2
      by (intro that [of ?q]) (auto simp: dl_remove_task_def dl_tids_def filter_map comp_def)
  qed
qed

subsection \<open>Properties\<close>

text \<open>
  C24. Earliest deadline first: popping a non-empty deadline queue returns the thread with the
  least absolute deadline among all queued threads and publishes the deadline of the next
  one (the largest 64-bit value when none is left); an empty queue is left as it was.
\<close>

theorem dl_pop_earliest:
  assumes "dl_inv q"
  shows "\<exists>q' r. dl_pop_next q = Some (q', r) \<and> dl_inv q'
    \<and> (case r of None \<Rightarrow> dl_abs q = [] \<and> q' = q
       | Some t \<Rightarrow> \<exists>d. dl_abs q = DeadlineKey d t # dl_abs q' \<and> (\<forall>k \<in> set (dl_abs q). d \<le> dk_deadline k)
           \<and> earliest_dl_next q' = (case dl_abs q' of [] \<Rightarrow> - 1 | k # _ \<Rightarrow> dk_deadline k))"
proof (cases "dl_abs q")
  case Nil
  with assms show ?thesis using dl_pop_empty [of q] by (auto simp: dl_tids_abs)
next
  case (Cons k ks)
  obtain q' where "dl_pop_next q = Some (q', Some (dk_tid k))" "dl_inv q'" "dl_abs q' = ks"
      "earliest_dl_next q' = (case ks of [] \<Rightarrow> - 1 | k' # _ \<Rightarrow> dk_deadline k')"
    by (rule dl_pop_Cons [OF assms Cons])
  moreover have "sorted (dl_abs q)"
    using rbq.inv_sorted [of "dl_root q"] assms by (simp add: dl_abs_def dl_inv_def)
  then have "\<forall>k' \<in> set (dl_abs q). dk_deadline k \<le> dk_deadline k'"
    using Cons by (auto simp: less_eq_deadline_key_def deadline_key_cmp_iff)
  ultimately show ?thesis using Cons by (cases k) auto
qed

theorem dl_pop_earliest_witness:
  "\<exists>q q'. dl_enqueue dl_new 4 90 = Some q \<and> dl_pop_next q = Some (q', Some 4) \<and> dl_abs q' = []
    \<and> earliest_dl_next q' = - 1"
proof -
  have n: "dl_tids dl_new = []" "dl_abs dl_new = []"
    using dl_inv_new by (simp_all add: dl_new_def dl_abs_def rbq.inv_new)
  obtain q where q: "dl_enqueue dl_new 4 90 = Some q" "dl_inv q" "dl_abs q = [DeadlineKey 90 4]"
    by (rule dl_enqueue_spec [of dl_new 4 90]) (use n dl_inv_new in auto)
  from dl_pop_earliest [OF q(2)] obtain q' r where r: "dl_pop_next q = Some (q', r)"
      "case r of None \<Rightarrow> dl_abs q = [] \<and> q' = q
       | Some t \<Rightarrow> \<exists>d. dl_abs q = DeadlineKey d t # dl_abs q' \<and> (\<forall>k \<in> set (dl_abs q). d \<le> dk_deadline k)
           \<and> earliest_dl_next q' = (case dl_abs q' of [] \<Rightarrow> - 1 | k # _ \<Rightarrow> dk_deadline k)" by blast
  with q show ?thesis by (cases r) auto
qed

end
