(* ===== verification/Rt_Rq.thy ===== *)
theory Rt_Rq
  imports Task_Model "HOL-Library.Multiset"
begin

unbundle bit_operations_syntax

text \<open>
  The real-time run queue of \<open>process/scheduler/rt_rq.rs\<close>: one FIFO per priority, found
  through a bitmap of the non-empty ones.
\<close>

subsection \<open>State and operations\<close>

definition MAX_RT_PRIO :: nat where "MAX_RT_PRIO = 100"
definition RT_BITMAP_WORDS :: nat where "RT_BITMAP_WORDS = (MAX_RT_PRIO + 63) div 64"

record rt_prio_array =
  bitmap :: "u64 list"
  queue :: "tid list list"

definition rt_array_new :: rt_prio_array where
  "rt_array_new = \<lparr>bitmap = replicate RT_BITMAP_WORDS 0, queue = replicate MAX_RT_PRIO []\<rparr>"

definition rt_set_bit :: "rt_prio_array \<Rightarrow> nat \<Rightarrow> rt_prio_array option" where
  "rt_set_bit a p =
     (if p div 64 < length (bitmap a)
      then Some (a\<lparr>bitmap := (bitmap a)[p div 64 := (bitmap a ! (p div 64)) OR push_bit (p mod 64) 1]\<rparr>)
      else None)"

definition rt_clear_bit :: "rt_prio_array \<Rightarrow> nat \<Rightarrow> rt_prio_array option" where
  "rt_clear_bit a p =
     (if p div 64 < length (bitmap a)
      then Some (a\<lparr>bitmap := (bitmap a)[p div 64 := (bitmap a ! (p div 64)) AND NOT (push_bit (p mod 64) 1)]\<rparr>)
      else None)"

definition trailing_zeros :: "u64 \<Rightarrow> nat" where
  "trailing_zeros w = length (takeWhile (\<lambda>i. \<not> bit w i) [0..<64])"

fun scan_bitmap :: "nat \<Rightarrow> u64 list \<Rightarrow> nat option" where
  "scan_bitmap i [] = None"
| "scan_bitmap i (w # ws) = (if w \<noteq> 0 then Some (i * 64 + trailing_zeros w) else scan_bitmap (Suc i) ws)"

definition rt_highest_priority :: "rt_prio_array \<Rightarrow> nat option" where
  "rt_highest_priority a = scan_bitmap 0 (bitmap a)"

text \<open>The migration heap is only pushed to and filtered; its internal order is never read.\<close>

record rt_rq =
  active :: rt_prio_array
  pushable_tasks :: "(nat \<times> tid) list"
  rt_nr_running :: usize
  rr_nr_running :: usize
  rt_time :: u64
  rt_runtime :: u64
  rt_throttled :: bool

definition rt_new :: rt_rq where
  "rt_new = \<lparr>active = rt_array_new, pushable_tasks = [], rt_nr_running = 0, rr_nr_running = 0,
     rt_time = 0, rt_runtime = - 1, rt_throttled = False\<rparr>"

text \<open>\<open>self.active.queue[p] = \<dots>\<close>\<close>

definition rt_set_queue :: "rt_prio_array \<Rightarrow> nat \<Rightarrow> tid list \<Rightarrow> rt_prio_array" where
  "rt_set_queue a p ts = a\<lparr>queue := (queue a)[p := ts]\<rparr>"

definition rt_enqueue :: "rt_rq \<Rightarrow> tid \<Rightarrow> nat \<Rightarrow> bool \<Rightarrow> rt_rq option" where
  "rt_enqueue q t p round_robin =
     (if p < MAX_RT_PRIO \<and> p < length (queue (active q))
      then do { a \<leftarrow> rt_set_bit (rt_set_queue (active q) p (queue (active q) ! p @ [t])) p;
                Some (q\<lparr>active := a, rt_nr_running := rt_nr_running q + 1,
                        rr_nr_running := rr_nr_running q + (if round_robin then 1 else 0)\<rparr>) }
      else None)"

text \<open>The queue without its entry, the bit cleared when nothing is left.\<close>

definition rt_shrink :: "rt_prio_array \<Rightarrow> nat \<Rightarrow> tid list \<Rightarrow> rt_prio_array option" where
  "rt_shrink a p ts =
     (let a = rt_set_queue a p ts in if ts = [] then rt_clear_bit a p else Some a)"

definition rt_dequeue :: "rt_rq \<Rightarrow> tid \<Rightarrow> nat \<Rightarrow> bool \<Rightarrow> (rt_rq \<times> tid option) option" where
  "rt_dequeue q t p round_robin =
     (if p \<ge> MAX_RT_PRIO then Some (q, None)
      else if p < length (queue (active q)) then
        (if t \<in> set (queue (active q) ! p)
         then do { a \<leftarrow> rt_shrink (active q) p (remove1 t (queue (active q) ! p));
                   Some (q\<lparr>active := a, rt_nr_running := rt_nr_running q - 1,
                           rr_nr_running := rr_nr_running q - (if round_robin then 1 else 0)\<rparr>, Some t) }
         else Some (q, None))
      else None)"

definition rt_rotate_rr :: "rt_rq \<Rightarrow> nat \<Rightarrow> rt_rq option" where
  "rt_rotate_rr q p =
     (if p < MAX_RT_PRIO
      then (if p < length (queue (active q))
            then (if length (queue (active q) ! p) > 1
                  then Some (q\<lparr>active := rt_set_queue (active q) p (rotate1 (queue (active q) ! p))\<rparr>)
                  else Some q)
            else None)
      else Some q)"

definition rt_pick_next :: "rt_rq \<Rightarrow> tid option option" where
  "rt_pick_next q =
     (if rt_throttled q then Some None
      else case rt_highest_priority (active q) of
        None \<Rightarrow> Some None
      | Some p \<Rightarrow> if p < length (queue (active q))
                 then Some (case queue (active q) ! p of [] \<Rightarrow> None | t # _ \<Rightarrow> Some t)
                 else None)"

definition rt_pop_next :: "task_store \<Rightarrow> rt_rq \<Rightarrow> (rt_rq \<times> tid option) option" where
  "rt_pop_next st q =
     (if rt_throttled q then Some (q, None)
      else case rt_highest_priority (active q) of
        None \<Rightarrow> Some (q, None)
      | Some p \<Rightarrow>
          if p < length (queue (active q)) then
            (case queue (active q) ! p of
               [] \<Rightarrow> Some (q, None)
             | t # ts \<Rightarrow>
                 do { a \<leftarrow> rt_shrink (active q) p ts;
                      Some (q\<lparr>active := a, rt_nr_running := sat_sub (rt_nr_running q) 1,
                              rr_nr_running := (if sched_policy (st t) = SCHED_RR
                                                then sat_sub (rr_nr_running q) 1 else rr_nr_running q)\<rparr>,
                            Some t) })
          else None)"

definition rt_enqueue_pushable :: "rt_rq \<Rightarrow> tid \<Rightarrow> nat \<Rightarrow> rt_rq" where
  "rt_enqueue_pushable q t p = q\<lparr>pushable_tasks := (p, t) # pushable_tasks q\<rparr>"

definition rt_dequeue_pushable :: "rt_rq \<Rightarrow> tid \<Rightarrow> rt_rq" where
  "rt_dequeue_pushable q t = q\<lparr>pushable_tasks := filter (\<lambda>e. snd e \<noteq> t) (pushable_tasks q)\<rparr>"

definition rt_remove_task :: "task_store \<Rightarrow> rt_rq \<Rightarrow> tid \<Rightarrow> (rt_rq \<times> tid option) option" where
  "rt_remove_task st q t =
     (if length (queue (active q)) < MAX_RT_PRIO then None
      else case List.find (\<lambda>p. t \<in> set (queue (active q) ! p)) [0..<MAX_RT_PRIO] of
        None \<Rightarrow> Some (q, None)
      | Some p \<Rightarrow>
          do { a \<leftarrow> rt_shrink (active q) p (remove1 t (queue (active q) ! p));
               Some (q\<lparr>active := a, rt_nr_running := sat_sub (rt_nr_running q) 1,
                       rr_nr_running := (if sched_policy (st t) = SCHED_RR
                                         then sat_sub (rr_nr_running q) 1 else rr_nr_running q)\<rparr>, Some t) })"

subsection \<open>The bitmap describes the queues\<close>

definition rt_array_inv :: "rt_prio_array \<Rightarrow> bool" where
  "rt_array_inv a \<longleftrightarrow> length (bitmap a) = RT_BITMAP_WORDS \<and> length (queue a) = MAX_RT_PRIO
     \<and> (\<forall>p < 128. bit (bitmap a ! (p div 64)) (p mod 64) \<longleftrightarrow> p < MAX_RT_PRIO \<and> queue a ! p \<noteq> [])"

definition rt_queued :: "rt_rq \<Rightarrow> tid multiset" where
  "rt_queued q = mset (concat (queue (active q)))"

definition rt_inv :: "task_store \<Rightarrow> rt_rq \<Rightarrow> bool" where
  "rt_inv st q \<longleftrightarrow> rt_array_inv (active q)
     \<and> unat (rt_nr_running q) = size (rt_queued q)
     \<and> unat (rr_nr_running q) = size (filter_mset (\<lambda>t. sched_policy (st t) = SCHED_RR) (rt_queued q))"

lemmas rt_consts = MAX_RT_PRIO_def RT_BITMAP_WORDS_def

lemma takeWhile_upt: "n \<le> m \<Longrightarrow> (\<forall>i < n. P i) \<Longrightarrow> (n < m \<Longrightarrow> \<not> P n) \<Longrightarrow> takeWhile P [0..<m] = [0..<n]"
proof -
  assume a: "n \<le> m" "\<forall>i < n. P i" "n < m \<Longrightarrow> \<not> P n"
  then have "[0..<m] = [0..<n] @ [n..<m]" by (metis le_add_diff_inverse upt_add_eq_append zero_le)
  moreover have "takeWhile P [n..<m] = []" using a by (cases "n < m") (auto simp: upt_conv_Cons)
  ultimately show ?thesis using a(2) by (simp add: takeWhile_append)
qed

lemma trailing_zeros_spec:
  assumes "w \<noteq> 0"
  shows "trailing_zeros w < 64" "bit w (trailing_zeros w)" "\<And>i. i < trailing_zeros w \<Longrightarrow> \<not> bit w i"
proof -
  obtain k where k: "bit w k" using assms by (auto simp: bit_eq_iff)
  define n where "n = (LEAST i. bit w i)"
  have n: "bit w n" "\<And>i. i < n \<Longrightarrow> \<not> bit w i"
    unfolding n_def using LeastI [of "bit w", OF k] not_less_Least by blast+
  have lt: "n < 64" using bit_imp_le_length [OF n(1)] by simp
  have "trailing_zeros w = n" unfolding trailing_zeros_def
    using n lt by (subst takeWhile_upt [of n]) auto
  with n lt show "trailing_zeros w < 64" "bit w (trailing_zeros w)" "\<And>i. i < trailing_zeros w \<Longrightarrow> \<not> bit w i"
    by auto
qed

lemma scan_bitmap_None: "scan_bitmap i ws = None \<longleftrightarrow> (\<forall>w \<in> set ws. w = 0)"
  by (induction ws arbitrary: i) auto

lemma div64_Suc: "Suc i * 64 \<le> p \<Longrightarrow> p div 64 - i = Suc (p div 64 - Suc i)"
  for p i :: nat
proof -
  assume "Suc i * 64 \<le> p"
  then have "Suc i \<le> p div 64" using div_le_mono [of "Suc i * 64" p 64] by simp
  then show ?thesis by simp
qed

lemma div64_eq: "i * 64 \<le> p \<Longrightarrow> p < Suc i * 64 \<Longrightarrow> p div 64 = i"
  for p i :: nat
  by (rule div_nat_eqI) auto

lemma scan_bitmap_Some:
  assumes "scan_bitmap i ws = Some p"
  shows "i * 64 \<le> p \<and> p div 64 < i + length ws \<and> bit (ws ! (p div 64 - i)) (p mod 64)
    \<and> (\<forall>p'. i * 64 \<le> p' \<and> p' < p \<longrightarrow> \<not> bit (ws ! (p' div 64 - i)) (p' mod 64))"
  using assms
proof (induction ws arbitrary: i)
  case (Cons w ws)
  show ?case
  proof (cases "w = 0")
    case True
    with Cons.prems have "scan_bitmap (Suc i) ws = Some p" by simp
    from Cons.IH [OF this] have IH: "Suc i * 64 \<le> p \<and> p div 64 < Suc i + length ws \<and> bit (ws ! (p div 64 - Suc i)) (p mod 64)"
      "\<And>p'. Suc i * 64 \<le> p' \<Longrightarrow> p' < p \<Longrightarrow> \<not> bit (ws ! (p' div 64 - Suc i)) (p' mod 64)" by blast+
    have "\<not> bit ((w # ws) ! (p' div 64 - i)) (p' mod 64)" if "i * 64 \<le> p'" "p' < p" for p'
    proof (cases "Suc i * 64 \<le> p'")
      case True
      then have "p' div 64 - i = Suc (p' div 64 - Suc i)" by (rule div64_Suc)
      with IH(2) [OF True that(2)] show ?thesis by simp
    next
      case False
      with that have "p' div 64 = i" by (intro div64_eq) auto
      with \<open>w = 0\<close> show ?thesis by simp
    qed
    moreover have "p div 64 - i = Suc (p div 64 - Suc i)"
      using IH(1) by (intro div64_Suc) blast
    ultimately show ?thesis using IH(1) by auto
  next
    case False
    with Cons.prems have p: "p = i * 64 + trailing_zeros w" by simp
    note tz = trailing_zeros_spec [OF False]
    have "p div 64 = i" "p mod 64 = trailing_zeros w" using p tz(1) by auto
    moreover have "p' div 64 = i \<and> p' mod 64 < trailing_zeros w" if "i * 64 \<le> p'" "p' < p" for p'
    proof -
      have d: "p' div 64 = i" using that p tz(1) by (intro div64_eq) auto
      have "p' = 64 * (p' div 64) + p' mod 64" by simp
      with d that p show ?thesis by linarith
    qed
    ultimately show ?thesis using tz p by auto
  qed
qed simp

text \<open>The bitmap search finds the least priority number with a waiting task.\<close>

lemma rt_highest_priority_spec:
  assumes "rt_array_inv a"
  shows "case rt_highest_priority a of
      None \<Rightarrow> \<forall>p < MAX_RT_PRIO. queue a ! p = []
    | Some p \<Rightarrow> p < MAX_RT_PRIO \<and> queue a ! p \<noteq> [] \<and> (\<forall>p' < p. queue a ! p' = [])"
proof (cases "rt_highest_priority a")
  case None
  then have z: "\<forall>w \<in> set (bitmap a). w = 0" by (simp add: rt_highest_priority_def scan_bitmap_None)
  have "queue a ! p = []" if "p < MAX_RT_PRIO" for p
  proof -
    have "p < 128" "p div 64 < length (bitmap a)" using that assms by (auto simp: rt_consts rt_array_inv_def)
    with z have "\<not> bit (bitmap a ! (p div 64)) (p mod 64)" by (metis bit_0_eq bot_apply bot_bool_def nth_mem)
    with assms that \<open>p < 128\<close> show ?thesis by (auto simp: rt_array_inv_def)
  qed
  with None show ?thesis by simp
next
  case (Some p)
  from scan_bitmap_Some [OF Some [unfolded rt_highest_priority_def]] assms
  have s: "p div 64 < 2" "bit (bitmap a ! (p div 64)) (p mod 64)"
      "\<And>p'. p' < p \<Longrightarrow> \<not> bit (bitmap a ! (p' div 64)) (p' mod 64)"
    by (auto simp: rt_array_inv_def rt_consts)
  then have "p < 128" by (simp add: less_mult_imp_div_less div_less_iff_less_mult)
  with assms s have "p < MAX_RT_PRIO" "queue a ! p \<noteq> []" by (auto simp: rt_array_inv_def)
  moreover have "queue a ! p' = []" if "p' < p" for p'
    using s(3) [OF that] that \<open>p < 128\<close> \<open>p < MAX_RT_PRIO\<close> assms by (auto simp: rt_array_inv_def)
  ultimately show ?thesis using Some by simp
qed

lemma bit_of_index:
  fixes bm :: "u64 list"
  assumes "p div 64 < length bm"
  shows "bit (bm[p div 64 := (bm ! (p div 64)) OR push_bit (p mod 64) 1] ! (p' div 64)) (p' mod 64)
      \<longleftrightarrow> p' = p \<or> bit (bm ! (p' div 64)) (p' mod 64)"
    "bit (bm[p div 64 := (bm ! (p div 64)) AND NOT (push_bit (p mod 64) 1)] ! (p' div 64)) (p' mod 64)
      \<longleftrightarrow> p' \<noteq> p \<and> bit (bm ! (p' div 64)) (p' mod 64)"
proof -
  have eq: "p' = p \<longleftrightarrow> p' div 64 = p div 64 \<and> p' mod 64 = p mod 64"
    by (metis div_mult_mod_eq)
  have one: "bit (2 ^ (p mod 64) :: u64) (p' mod 64) \<longleftrightarrow> p' mod 64 = p mod 64"
    by (auto simp: bit_exp_iff)
  show "bit (bm[p div 64 := (bm ! (p div 64)) OR push_bit (p mod 64) 1] ! (p' div 64)) (p' mod 64)
      \<longleftrightarrow> p' = p \<or> bit (bm ! (p' div 64)) (p' mod 64)"
    using assms by (cases "p' div 64 = p div 64") (auto simp: eq one bit_or_iff)
  show "bit (bm[p div 64 := (bm ! (p div 64)) AND NOT (push_bit (p mod 64) 1)] ! (p' div 64)) (p' mod 64)
      \<longleftrightarrow> p' \<noteq> p \<and> bit (bm ! (p' div 64)) (p' mod 64)"
    using assms by (cases "p' div 64 = p div 64") (auto simp: eq one bit_and_iff bit_not_iff)
qed

lemma rt_array_inv_upd:
  assumes "rt_array_inv a" "p < MAX_RT_PRIO" "length bm = length (bitmap a)"
    "\<And>p'. bit (bm ! (p' div 64)) (p' mod 64) \<longleftrightarrow>
       (if p' = p then ts \<noteq> [] else bit (bitmap a ! (p' div 64)) (p' mod 64))"
  shows "rt_array_inv (a\<lparr>queue := (queue a)[p := ts], bitmap := bm\<rparr>)"
  using assms by (auto simp: rt_array_inv_def nth_list_update)

lemma rt_set_bit_inv:
  assumes "rt_array_inv a" "p < MAX_RT_PRIO" "ts \<noteq> []"
  shows "\<exists>a'. rt_set_bit (rt_set_queue a p ts) p = Some a' \<and> rt_array_inv a' \<and> queue a' = (queue a)[p := ts]"
proof -
  have "p div 64 < length (bitmap a)" using assms(1,2) by (simp add: rt_array_inv_def rt_consts)
  note bits = bit_of_index(1) [OF this]
  have "rt_array_inv (a\<lparr>queue := (queue a)[p := ts],
      bitmap := (bitmap a)[p div 64 := (bitmap a ! (p div 64)) OR push_bit (p mod 64) 1]\<rparr>)"
    by (rule rt_array_inv_upd [OF assms(1,2)]) (use assms(3) in \<open>auto simp only: bits length_list_update split: if_splits\<close>)
  with \<open>p div 64 < length (bitmap a)\<close> show ?thesis by (simp add: rt_set_bit_def rt_set_queue_def)
qed

lemma rt_shrink_inv:
  assumes "rt_array_inv a" "p < MAX_RT_PRIO" "queue a ! p \<noteq> []"
  shows "\<exists>a'. rt_shrink a p ts = Some a' \<and> rt_array_inv a' \<and> queue a' = (queue a)[p := ts]"
proof (cases "ts = []")
  case True
  have lt: "p div 64 < length (bitmap a)" using assms(1,2) by (simp add: rt_array_inv_def rt_consts)
  note bits = bit_of_index(2) [OF this]
  have "rt_array_inv (a\<lparr>queue := (queue a)[p := ts],
      bitmap := (bitmap a)[p div 64 := (bitmap a ! (p div 64)) AND NOT (push_bit (p mod 64) 1)]\<rparr>)"
    by (rule rt_array_inv_upd [OF assms(1,2)]) (use True in \<open>auto simp only: bits length_list_update split: if_splits\<close>)
  with lt True show ?thesis by (simp add: rt_shrink_def rt_clear_bit_def rt_set_queue_def)
next
  case False
  with assms show ?thesis by (auto simp: rt_shrink_def rt_set_queue_def rt_array_inv_def nth_list_update rt_consts)
qed

text \<open>Replacing one FIFO changes the multiset of queued tasks by exactly that FIFO.\<close>

lemma mset_concat_update:
  "p < length qs \<Longrightarrow> mset (concat (qs[p := ts])) + mset (qs ! p) = mset (concat qs) + mset ts"
proof (induction qs arbitrary: p)
  case (Cons q qs)
  then show ?case by (cases p) (auto simp: ac_simps)
qed simp

subsection \<open>The operations keep the invariant\<close>

lemma rt_inv_new: "rt_inv st rt_new" "rt_queued rt_new = {#}"
proof -
  have w: "RT_BITMAP_WORDS = 2" by (simp add: rt_consts)
  have "p div 64 < 2" if "p < 128" for p :: nat using that by (simp add: less_mult_imp_div_less)
  then have "rt_array_inv rt_array_new" by (simp add: rt_array_inv_def rt_array_new_def w)
  then show "rt_inv st rt_new" "rt_queued rt_new = {#}"
    by (simp_all add: rt_inv_def rt_new_def rt_queued_def rt_array_new_def)
qed

lemma rt_enqueue_spec:
  assumes i: "rt_inv st q" and p: "p < MAX_RT_PRIO" and n: "Suc (size (rt_queued q)) < 2 ^ 64"
    and rr: "rr \<longleftrightarrow> sched_policy (st t) = SCHED_RR"
  shows "\<exists>q'. rt_enqueue q t p rr = Some q' \<and> rt_inv st q' \<and> rt_queued q' = add_mset t (rt_queued q)
    \<and> queue (active q') = (queue (active q))[p := queue (active q) ! p @ [t]]"
proof -
  have a: "rt_array_inv (active q)" using i by (simp add: rt_inv_def)
  then have len: "p < length (queue (active q))" using p by (simp add: rt_array_inv_def)
  obtain a' where a': "rt_set_bit (rt_set_queue (active q) p (queue (active q) ! p @ [t])) p = Some a'"
      "rt_array_inv a'" "queue a' = (queue (active q))[p := queue (active q) ! p @ [t]]"
    using rt_set_bit_inv [OF a p, of "queue (active q) ! p @ [t]"] by auto
  have m: "mset (concat (queue a')) = add_mset t (rt_queued q)"
    using mset_concat_update [OF len, of "queue (active q) ! p @ [t]"] a'(3) by (simp add: rt_queued_def)
  have "size (filter_mset (\<lambda>t. sched_policy (st t) = SCHED_RR) (rt_queued q)) \<le> size (rt_queued q)"
    by (intro size_mset_mono multiset_filter_subset)
  with n have rrn: "Suc (size (filter_mset (\<lambda>t. sched_policy (st t) = SCHED_RR) (rt_queued q))) < 2 ^ 64"
    by linarith
  have "unat (rt_nr_running q + 1) = Suc (unat (rt_nr_running q))"
    using i n by (intro unat_plus_one) (simp add: rt_inv_def)
  moreover have "unat (rr_nr_running q + 1) = Suc (unat (rr_nr_running q))"
    using i rrn by (intro unat_plus_one) (simp add: rt_inv_def)
  moreover let ?q = "q\<lparr>active := a', rt_nr_running := rt_nr_running q + 1,
      rr_nr_running := rr_nr_running q + (if rr then 1 else 0)\<rparr>"
  have "rt_queued ?q = add_mset t (rt_queued q)" using m by (simp add: rt_queued_def)
  ultimately have "rt_inv st ?q" using i a'(2) rr by (simp add: rt_inv_def)
  with \<open>rt_queued ?q = add_mset t (rt_queued q)\<close> p len a' show ?thesis by (simp add: rt_enqueue_def)
qed

lemma mset_shrink:
  assumes "p < length qs" "add_mset t (mset ts) = mset (qs ! p)"
  shows "add_mset t (mset (concat (qs[p := ts]))) = mset (concat qs)"
proof -
  have "add_mset t (mset (concat (qs[p := ts]))) + mset ts = mset (concat qs) + mset ts"
    using mset_concat_update [OF assms(1), of ts] by (simp flip: assms(2))
  then show ?thesis by simp
qed

lemma rt_take_inv:
  assumes i: "rt_inv st q" and p: "p < MAX_RT_PRIO" and t: "add_mset t (mset ts) = mset (queue (active q) ! p)"
    and q': "q' = q\<lparr>active := a', rt_nr_running := n, rr_nr_running := r\<rparr>" "rt_shrink (active q) p ts = Some a'"
    and n: "unat n = unat (rt_nr_running q) - 1"
      "unat r = unat (rr_nr_running q) - (if sched_policy (st t) = SCHED_RR then 1 else 0)"
  shows "rt_inv st q' \<and> rt_queued q = add_mset t (rt_queued q') \<and> queue (active q') = (queue (active q))[p := ts]"
proof -
  have a: "rt_array_inv (active q)" using i by (simp add: rt_inv_def)
  then have len: "p < length (queue (active q))" using p by (simp add: rt_array_inv_def)
  have ne: "queue (active q) ! p \<noteq> []" using t by auto
  from rt_shrink_inv [OF a p ne, of ts] q'(2) have a': "rt_array_inv a'" "queue a' = (queue (active q))[p := ts]" by auto
  from mset_shrink [OF len t] a'(2) have m: "rt_queued q = add_mset t (mset (concat (queue a')))"
    by (simp add: rt_queued_def)
  have "rt_queued q' = mset (concat (queue a'))" using q'(1) by (simp add: rt_queued_def)
  with m have rq: "rt_queued q = add_mset t (rt_queued q')" by simp
  have "rt_inv st q'" using i a' q' n unfolding rt_inv_def rq by auto
  with rq a' q' show ?thesis by simp
qed

lemma concat_all_Nil: "(\<forall>p < length qs. qs ! p = []) \<longleftrightarrow> concat qs = []"
  by (simp add: all_set_conv_all_nth)

lemma rt_pop_spec:
  assumes i: "rt_inv st q" and u: "\<not> rt_throttled q"
  shows "rt_queued q = {#} \<and> rt_pop_next st q = Some (q, None)
    \<or> (\<exists>q' p t ts. rt_pop_next st q = Some (q', Some t) \<and> rt_inv st q' \<and> rt_queued q = add_mset t (rt_queued q')
        \<and> p < MAX_RT_PRIO \<and> queue (active q) ! p = t # ts \<and> (\<forall>p' < p. queue (active q) ! p' = [])
        \<and> queue (active q') = (queue (active q))[p := ts] \<and> rt_throttled q' = rt_throttled q)"
proof -
  have a: "rt_array_inv (active q)" using i by (simp add: rt_inv_def)
  note hp = rt_highest_priority_spec [OF a]
  have len: "length (queue (active q)) = MAX_RT_PRIO" using a by (simp add: rt_array_inv_def)
  show ?thesis
  proof (cases "rt_highest_priority (active q)")
    case None
    with hp len have "concat (queue (active q)) = []" by (intro iffD1 [OF concat_all_Nil]) simp
    with None u show ?thesis by (simp add: rt_pop_next_def rt_queued_def)
  next
    case (Some p)
    with hp have p: "p < MAX_RT_PRIO" "\<forall>p' < p. queue (active q) ! p' = []" by auto
    from Some hp obtain t ts where t: "queue (active q) ! p = t # ts" by (cases "queue (active q) ! p") auto
    obtain a' where a': "rt_shrink (active q) p ts = Some a'" using rt_shrink_inv [OF a p(1)] t by fastforce
    let ?q = "q\<lparr>active := a', rt_nr_running := sat_sub (rt_nr_running q) 1,
        rr_nr_running := (if sched_policy (st t) = SCHED_RR then sat_sub (rr_nr_running q) 1 else rr_nr_running q)\<rparr>"
    have "rt_inv st ?q \<and> rt_queued q = add_mset t (rt_queued ?q) \<and> queue (active ?q) = (queue (active q))[p := ts]"
      by (rule rt_take_inv [OF i p(1) _ refl a']) (use t in \<open>auto simp: unat_sat_sub\<close>)
    moreover have "rt_pop_next st q = Some (?q, Some t)"
      using Some u p(1) len t a' by (simp add: rt_pop_next_def)
    ultimately show ?thesis using p t by (intro disjI2 exI [of _ ?q] exI [of _ p] exI [of _ t] exI [of _ ts]) auto
  qed
qed

lemma rt_remove_task_spec:
  assumes i: "rt_inv st q"
  shows "t \<notin># rt_queued q \<and> rt_remove_task st q t = Some (q, None)
    \<or> (\<exists>q'. rt_remove_task st q t = Some (q', Some t) \<and> rt_inv st q' \<and> rt_queued q = add_mset t (rt_queued q')
        \<and> rt_throttled q' = rt_throttled q)"
proof -
  have a: "rt_array_inv (active q)" using i by (simp add: rt_inv_def)
  have len: "length (queue (active q)) = MAX_RT_PRIO" using a by (simp add: rt_array_inv_def)
  show ?thesis
  proof (cases "List.find (\<lambda>p. t \<in> set (queue (active q) ! p)) [0..<MAX_RT_PRIO]")
    case None
    then have "t \<notin># rt_queued q"
      by (auto simp: find_None_iff rt_queued_def in_set_conv_nth [of _ "queue (active q)"] len)
    with None len show ?thesis by (simp add: rt_remove_task_def)
  next
    case (Some p)
    then have p: "p < MAX_RT_PRIO" "t \<in> set (queue (active q) ! p)" by (auto simp: find_Some_iff)
    let ?ts = "remove1 t (queue (active q) ! p)"
    have t: "add_mset t (mset ?ts) = mset (queue (active q) ! p)" using p(2) by simp
    obtain a' where a': "rt_shrink (active q) p ?ts = Some a'" using rt_shrink_inv [OF a p(1)] p(2) by fastforce
    let ?q = "q\<lparr>active := a', rt_nr_running := sat_sub (rt_nr_running q) 1,
        rr_nr_running := (if sched_policy (st t) = SCHED_RR then sat_sub (rr_nr_running q) 1 else rr_nr_running q)\<rparr>"
    have "rt_inv st ?q \<and> rt_queued q = add_mset t (rt_queued ?q) \<and> queue (active ?q) = (queue (active q))[p := ?ts]"
      by (rule rt_take_inv [OF i p(1) t refl a']) (auto simp: unat_sat_sub)
    moreover have "rt_remove_task st q t = Some (?q, Some t)" using Some len a' by (simp add: rt_remove_task_def)
    ultimately show ?thesis by (intro disjI2 exI [of _ ?q]) auto
  qed
qed

lemma mset_rotate1: "mset (rotate1 xs) = mset xs"
  by (cases xs) auto

lemma rt_rotate_spec:
  assumes i: "rt_inv st q"
  shows "\<exists>q'. rt_rotate_rr q p = Some q' \<and> rt_inv st q' \<and> rt_queued q' = rt_queued q
    \<and> (p < MAX_RT_PRIO \<longrightarrow> queue (active q') = (queue (active q))[p := rotate1 (queue (active q) ! p)])"
proof (cases "p < MAX_RT_PRIO \<and> length (queue (active q) ! p) > 1")
  case True
  have a: "rt_array_inv (active q)" using i by (simp add: rt_inv_def)
  then have len: "p < length (queue (active q))" using True by (simp add: rt_array_inv_def)
  let ?q = "q\<lparr>active := rt_set_queue (active q) p (rotate1 (queue (active q) ! p))\<rparr>"
  have "rt_array_inv (active ?q)" using a True
    by (auto simp: rt_array_inv_def rt_set_queue_def nth_list_update)
  moreover have "rt_queued ?q = rt_queued q"
    using mset_concat_update [OF len, of "rotate1 (queue (active q) ! p)"]
    by (simp add: rt_queued_def rt_set_queue_def mset_rotate1)
  ultimately have "rt_inv st ?q" using i by (simp add: rt_inv_def)
  with \<open>rt_queued ?q = rt_queued q\<close> True len show ?thesis by (auto simp: rt_rotate_rr_def rt_set_queue_def)
next
  case False
  have len: "length (queue (active q)) = MAX_RT_PRIO" using i by (simp add: rt_inv_def rt_array_inv_def)
  have "rotate1 xs = xs" if "\<not> length xs > 1" for xs :: "tid list" using that by (cases xs) auto
  with False i len show ?thesis by (auto simp: rt_rotate_rr_def)
qed

subsection \<open>Properties\<close>

text \<open>
  C25. The priority bitmap is exact: in a well-formed array the bitmap scan returns the least
  priority number whose FIFO is non-empty, and nothing exactly when every FIFO is empty.
\<close>

theorem rt_highest_priority_exact:
  assumes "rt_array_inv a"
  shows "case rt_highest_priority a of
      None \<Rightarrow> \<forall>p < MAX_RT_PRIO. queue a ! p = []
    | Some p \<Rightarrow> p < MAX_RT_PRIO \<and> queue a ! p \<noteq> [] \<and> (\<forall>p' < p. queue a ! p' = [])"
  using assms by (rule rt_highest_priority_spec)

theorem rt_highest_priority_exact_witness:
  "\<exists>a. rt_set_bit (rt_set_queue rt_array_new 70 [9]) 70 = Some a \<and> rt_highest_priority a = Some 70"
proof -
  have n: "rt_array_inv rt_array_new" using rt_inv_new(1) by (simp add: rt_inv_def rt_new_def)
  obtain a where a: "rt_set_bit (rt_set_queue rt_array_new 70 [9]) 70 = Some a" "rt_array_inv a"
      "queue a = (queue rt_array_new)[70 := [9]]"
    using rt_set_bit_inv [OF n, of 70 "[9]"] by (auto simp: MAX_RT_PRIO_def)
  have q: "queue a ! p = (if p = 70 then [9] else [])" if "p < MAX_RT_PRIO" for p
    using a(3) that by (simp add: rt_array_new_def MAX_RT_PRIO_def)
  have "rt_highest_priority a = Some 70"
  proof (cases "rt_highest_priority a")
    case None
    with rt_highest_priority_exact [OF a(2)] q [of 70] show ?thesis by (auto simp: MAX_RT_PRIO_def)
  next
    case (Some p)
    with rt_highest_priority_exact [OF a(2)] q [of p] show ?thesis by (auto split: if_splits)
  qed
  with a show ?thesis by blast
qed

text \<open>
  C26. On an unthrottled real-time queue \<open>pop_next\<close> takes the oldest task of the most urgent
  non-empty priority and leaves every other task in place, keeping the invariant (bitmap,
  running count and round-robin count); a throttled queue yields nothing and is unchanged.
\<close>

theorem rt_pop_most_urgent:
  assumes "rt_inv st q"
  shows "\<exists>q' r. rt_pop_next st q = Some (q', r) \<and> rt_inv st q'
    \<and> (case r of None \<Rightarrow> q' = q \<and> (rt_throttled q \<or> rt_queued q = {#})
       | Some t \<Rightarrow> \<not> rt_throttled q \<and> rt_queued q = add_mset t (rt_queued q')
           \<and> (\<exists>p ts. p < MAX_RT_PRIO \<and> queue (active q) ! p = t # ts \<and> (\<forall>p' < p. queue (active q) ! p' = [])
                \<and> queue (active q') = (queue (active q))[p := ts]))"
proof (cases "rt_throttled q")
  case True
  with assms show ?thesis by (simp add: rt_pop_next_def)
next
  case False
  from rt_pop_spec [OF assms False] show ?thesis
  proof (elim disjE exE conjE)
    assume "rt_queued q = {#}" "rt_pop_next st q = Some (q, None)"
    with assms show ?thesis by simp
  next
    fix q' p t ts
    assume "rt_pop_next st q = Some (q', Some t)" "rt_inv st q'" "rt_queued q = add_mset t (rt_queued q')"
      "p < MAX_RT_PRIO" "queue (active q) ! p = t # ts" "\<forall>p' < p. queue (active q) ! p' = []"
      "queue (active q') = (queue (active q))[p := ts]"
    with False show ?thesis by (intro exI [of _ q'] exI [of _ "Some t"]) auto
  qed
qed

theorem rt_pop_most_urgent_witness:
  "\<exists>q q'. rt_enqueue rt_new 9 30 False = Some q \<and> rt_pop_next (\<lambda>_. fresh_task) q = Some (q', Some 9)
    \<and> rt_queued q' = {#}"
proof -
  have pol: "sched_policy fresh_task \<noteq> SCHED_RR" by (simp add: fresh_task_def sched_policy_defs)
  obtain q where q: "rt_enqueue rt_new 9 30 False = Some q" "rt_inv (\<lambda>_. fresh_task) q" "rt_queued q = {#9#}"
    using rt_enqueue_spec [OF rt_inv_new(1) [of "\<lambda>_. fresh_task"], of 30 False 9] rt_inv_new(2) pol
    by (auto simp: MAX_RT_PRIO_def)
  have nt: "\<not> rt_throttled q" using q(1)
    by (auto simp: rt_enqueue_def rt_new_def bind_eq_Some_conv split: if_splits)
  from rt_pop_most_urgent [OF q(2)] obtain q' r where r: "rt_pop_next (\<lambda>_. fresh_task) q = Some (q', r)"
     "case r of None \<Rightarrow> q' = q \<and> (rt_throttled q \<or> rt_queued q = {#})
       | Some t \<Rightarrow> \<not> rt_throttled q \<and> rt_queued q = add_mset t (rt_queued q')
           \<and> (\<exists>p ts. p < MAX_RT_PRIO \<and> queue (active q) ! p = t # ts \<and> (\<forall>p' < p. queue (active q) ! p' = [])
                \<and> queue (active q') = (queue (active q))[p := ts])" by blast
  with q nt show ?thesis by (cases r) (auto simp: add_mset_eq_single)
qed

end
