(* ===== verification/Run_Queue.thy ===== *)
theory Run_Queue
  imports Cfs_Rq Deadline_Rq Rt_Rq
begin

unbundle bit_operations_syntax

text \<open>
  The per-CPU run queue of \<open>process/scheduler/runqueue.rs\<close> with the stop and idle classes of
  \<open>stop_rq.rs\<close> and \<open>idle_rq.rs\<close>: class order, enqueue, pop, steal and removal under one run
  queue lock, and the published per-CPU view.
\<close>

subsection \<open>Stop and idle classes\<close>

record stop_rq =
  stop_task :: "tid option"
  stop_runnable :: bool

definition stop_new :: stop_rq where
  "stop_new = \<lparr>stop_task = None, stop_runnable = False\<rparr>"

definition stop_set_task :: "stop_rq \<Rightarrow> tid \<Rightarrow> stop_rq" where
  "stop_set_task q t = q\<lparr>stop_task := Some t\<rparr>"

definition stop_set_runnable :: "stop_rq \<Rightarrow> bool \<Rightarrow> stop_rq" where
  "stop_set_runnable q r = q\<lparr>stop_runnable := r\<rparr>"

definition stop_pick_next :: "stop_rq \<Rightarrow> tid option" where
  "stop_pick_next q = (if stop_runnable q then stop_task q else None)"

record idle_rq =
  idle_thread :: "tid option"

definition idle_new :: idle_rq where
  "idle_new = \<lparr>idle_thread = None\<rparr>"

definition idle_set_task :: "idle_rq \<Rightarrow> tid \<Rightarrow> idle_rq" where
  "idle_set_task q t = q\<lparr>idle_thread := Some t\<rparr>"

definition idle_pick_next :: "idle_rq \<Rightarrow> tid option" where
  "idle_pick_next q = idle_thread q"

subsection \<open>The aggregated queue\<close>

record rqinner =
  rq_stop :: stop_rq
  rq_deadline :: deadline_rq
  rq_cfs :: cfs_rq
  rq_rt :: rt_rq
  rq_idle :: idle_rq
  nr_running :: usize

definition rqinner_new :: rqinner where
  "rqinner_new = \<lparr>rq_stop = stop_new, rq_deadline = dl_new, rq_cfs = cfs_new, rq_rt = rt_new,
     rq_idle = idle_new, nr_running = 0\<rparr>"

definition or_else :: "'a option \<Rightarrow> 'a option \<Rightarrow> 'a option" where
  "or_else a b = (case a of None \<Rightarrow> b | Some x \<Rightarrow> Some x)"

definition pick_next_task :: "rqinner \<Rightarrow> tid option option" where
  "pick_next_task rq =
     (case or_else (stop_pick_next (rq_stop rq)) (dl_pick_next (rq_deadline rq)) of
        Some t \<Rightarrow> Some (Some t)
      | None \<Rightarrow> do { r \<leftarrow> rt_pick_next (rq_rt rq);
                    Some (or_else (or_else r (cfs_pick_next (rq_cfs rq))) (idle_pick_next (rq_idle rq))) })"

text \<open>\<open>weight.max(1).min(usize::MAX as u64) as usize\<close>; the second bound is vacuous on 64 bits.\<close>

definition task_weight_from_value :: "u64 \<Rightarrow> usize" where
  "task_weight_from_value w = max w 1"

definition cpu_allowed :: "usize \<Rightarrow> nat \<Rightarrow> bool" where
  "cpu_allowed m c \<longleftrightarrow> c < 64 \<and> m AND push_bit c 1 \<noteq> 0"

definition enqueue_task :: "task_store \<Rightarrow> rqinner \<Rightarrow> tid \<Rightarrow> (task_store \<times> rqinner \<times> usize option) option" where
  "enqueue_task st rq t =
     (if on_rq (st t) then Some (st, rq, None)
      else if state (st t) = Zombie then Some (upd_task t (on_rq_update (\<lambda>_. False)) st, rq, None)
      else
        (let st = upd_task t (\<lambda>i. i\<lparr>on_rq := True, on_cpu := False\<rparr>) st;
             policy = sched_policy (st t);
             w = load_weight (se (st t));
             rq = rq\<lparr>nr_running := nr_running rq + 1\<rparr>;
             ok = Some (task_weight_from_value w)
         in
         if policy = SCHED_OTHER \<or> policy = SCHED_BATCH \<or> policy = SCHED_IDLE then
           do { (st, cfs) \<leftarrow> cfs_enqueue st (rq_cfs rq) t (vruntime (se (st t))) w;
                Some (st, rq\<lparr>rq_cfs := cfs\<rparr>, ok) }
         else if policy = SCHED_FIFO \<or> policy = SCHED_RR then
           do { q \<leftarrow> rt_enqueue (rq_rt rq) t (min (nat (max (prio (st t)) 0)) 99) (policy = SCHED_RR);
                Some (st, rq\<lparr>rq_rt := q\<rparr>, ok) }
         else if policy = SCHED_DEADLINE then
           do { q \<leftarrow> dl_enqueue (rq_deadline rq) t (absolute_deadline (dl (st t)));
                Some (st, rq\<lparr>rq_deadline := q\<rparr>, ok) }
         else None))"

definition pop_next_task :: "task_store \<Rightarrow> rqinner \<Rightarrow> (rqinner \<times> tid option) option" where
  "pop_next_task st rq =
     do { (d, r) \<leftarrow> dl_pop_next (rq_deadline rq);
          let rq = rq\<lparr>rq_deadline := d\<rparr>;
          (rq, r) \<leftarrow> (case r of
                       Some t \<Rightarrow> Some (rq, Some t)
                     | None \<Rightarrow> do { (q, r) \<leftarrow> rt_pop_next st (rq_rt rq); Some (rq\<lparr>rq_rt := q\<rparr>, r) });
          (rq, r) \<leftarrow> (case r of
                       Some t \<Rightarrow> Some (rq, Some t)
                     | None \<Rightarrow> do { (q, r) \<leftarrow> cfs_pop_next st (rq_cfs rq); Some (rq\<lparr>rq_cfs := q\<rparr>, r) });
          Some (if r \<noteq> None then rq\<lparr>nr_running := sat_sub (nr_running rq) 1\<rparr> else rq, r) }"

datatype steal_result = Stolen tid usize | Dropped usize | StealNone

definition steal_task :: "task_store \<Rightarrow> rqinner \<Rightarrow> nat \<Rightarrow> (task_store \<times> rqinner \<times> steal_result) option" where
  "steal_task st rq target =
     do { (rq, r) \<leftarrow> pop_next_task st rq;
          case r of
            None \<Rightarrow> Some (st, rq, StealNone)
          | Some t \<Rightarrow>
              (let st = upd_task t (on_rq_update (\<lambda>_. False)) st;
                   weight = task_weight_from_value (load_weight (se (st t))) in
               if state (st t) = Zombie then Some (st, rq, Dropped weight)
               else if \<not> on_main_hart (st t) \<and> cpu_allowed (cpus_allowed (st t)) target \<and> migratable (rt (st t))
               then Some (upd_task t (cpu_update (\<lambda>_. target)) st, rq, Stolen t weight)
               else do { (st, rq, _) \<leftarrow> enqueue_task st rq t; Some (st, rq, StealNone) }) }"

definition rq_remove_task :: "task_store \<Rightarrow> rqinner \<Rightarrow> tid \<Rightarrow> (task_store \<times> rqinner \<times> usize option) option" where
  "rq_remove_task st rq t =
     do { (d, r) \<leftarrow> dl_remove_task (rq_deadline rq) t;
          let rq = rq\<lparr>rq_deadline := d\<rparr>;
          (rq, r) \<leftarrow> (case r of
                       Some t \<Rightarrow> Some (rq, Some t)
                     | None \<Rightarrow> do { (q, r) \<leftarrow> rt_remove_task st (rq_rt rq) t; Some (rq\<lparr>rq_rt := q\<rparr>, r) });
          (rq, r) \<leftarrow> (case r of
                       Some t \<Rightarrow> Some (rq, Some t)
                     | None \<Rightarrow> do { (q, r) \<leftarrow> cfs_remove_task st (rq_cfs rq) t; Some (rq\<lparr>rq_cfs := q\<rparr>, r) });
          case r of
            None \<Rightarrow> Some (st, rq, None)
          | Some u \<Rightarrow> Some (upd_task u (on_rq_update (\<lambda>_. False)) st,
                           rq\<lparr>nr_running := sat_sub (nr_running rq) 1\<rparr>,
                           Some (task_weight_from_value (load_weight (se (st u))))) }"

subsection \<open>Invariant\<close>

definition rq_queued :: "rqinner \<Rightarrow> tid multiset" where
  "rq_queued rq = mset (dl_tids (rq_deadline rq)) + rt_queued (rq_rt rq) + mset (cfs_tids (rq_cfs rq))"

definition rq_inv :: "task_store \<Rightarrow> rqinner \<Rightarrow> bool" where
  "rq_inv st rq \<longleftrightarrow> dl_inv (rq_deadline rq) \<and> rt_inv st (rq_rt rq) \<and> cfs_inv st (rq_cfs rq)
     \<and> unat (nr_running rq) = size (rq_queued rq)"

text \<open>What the invariant reads of the task store.\<close>

definition same_sched :: "task_store \<Rightarrow> task_store \<Rightarrow> tid \<Rightarrow> bool" where
  "same_sched st st' t \<longleftrightarrow> sched_policy (st' t) = sched_policy (st t) \<and> vruntime (se (st' t)) = vruntime (se (st t))"

lemma rq_inv_cong:
  assumes "rq_inv st rq" "\<And>t. t \<in># rq_queued rq \<Longrightarrow> same_sched st st' t"
  shows "rq_inv st' rq"
proof -
  have rt: "filter_mset (\<lambda>t. sched_policy (st' t) = SCHED_RR) (rt_queued (rq_rt rq))
      = filter_mset (\<lambda>t. sched_policy (st t) = SCHED_RR) (rt_queued (rq_rt rq))"
    using assms(2) by (intro filter_mset_cong) (auto simp: rq_queued_def same_sched_def)
  have cfs: "vruntime (se (st' t)) = vruntime (se (st t))" if "(k, t) \<in> set (rb_contents (tasks_timeline (rq_cfs rq)))" for k t
    using assms(2) [of t] that by (force simp: rq_queued_def same_sched_def cfs_tids_def)
  show ?thesis using assms(1) rt cfs by (auto simp: rq_inv_def rt_inv_def cfs_inv_def)
qed

lemma rq_inv_new: "rq_inv st rqinner_new" "rq_queued rqinner_new = {#}"
  using cfs_abs_snd [of cfs_new]
  by (simp_all add: rq_inv_def rqinner_new_def rq_queued_def dl_inv_new rt_inv_new cfs_inv_new)

text \<open>The policies the queue supports; any other makes \<open>enqueue_task\<close> panic.\<close>

definition policy_ok :: "int \<Rightarrow> bool" where
  "policy_ok p \<longleftrightarrow> p \<in> {SCHED_OTHER, SCHED_BATCH, SCHED_IDLE, SCHED_FIFO, SCHED_RR, SCHED_DEADLINE}"

lemma mset_split_insert: "mset (takeWhile P xs @ y # dropWhile P xs) = add_mset y (mset xs)"
  by (metis mset.simps(2) mset_append takeWhile_dropWhile_id union_mset_add_mset_right)

lemma mset_ins_entry: "mset (ins_entry k v es) = add_mset (k, v) (mset es)"
  unfolding ins_entry_def by (rule mset_split_insert)

subsection \<open>Enqueue\<close>

lemma enqueue_task_refused:
  assumes "on_rq (st t) \<or> state (st t) = Zombie"
  shows "\<exists>st'. enqueue_task st rq t = Some (st', rq, None) \<and> (\<forall>u. u \<noteq> t \<longrightarrow> st' u = st u)
    \<and> st' t = (st t)\<lparr>on_rq := on_rq (st t)\<rparr>"
  using assms by (auto simp: enqueue_task_def)

lemma enqueue_task_spec:
  assumes i: "rq_inv st rq" and t: "t \<notin># rq_queued rq" and f: "\<not> on_rq (st t)" "state (st t) \<noteq> Zombie"
    and p: "policy_ok (sched_policy (st t))" and n: "Suc (size (rq_queued rq)) < 2 ^ 64"
  shows "\<exists>st' rq' vr. enqueue_task st rq t = Some (st', rq', Some (task_weight_from_value (load_weight (se (st t)))))
    \<and> rq_inv st' rq' \<and> rq_queued rq' = add_mset t (rq_queued rq)
    \<and> st' = upd_task t (\<lambda>i. i\<lparr>on_rq := True, on_cpu := False, se := (se i)\<lparr>vruntime := vr\<rparr>\<rparr>) st"
proof -
  let ?st = "upd_task t (\<lambda>i. i\<lparr>on_rq := True, on_cpu := False\<rparr>) st" and ?rq = "rq\<lparr>nr_running := nr_running rq + 1\<rparr>"
  have st': "?st = upd_task t (\<lambda>i. i\<lparr>on_rq := True, on_cpu := False, se := (se i)\<lparr>vruntime := vruntime (se (st t))\<rparr>\<rparr>) st"
    by (auto simp: upd_task_def)
  have ist: "rq_inv ?st rq" by (rule rq_inv_cong [OF i]) (simp add: same_sched_def)
  have nr: "unat (nr_running rq + 1) = Suc (size (rq_queued rq))"
    using i n unat_plus_one [of "nr_running rq"] by (simp add: rq_inv_def)
  have unq: "t \<notin> set (dl_tids (rq_deadline rq))" "t \<notin># rt_queued (rq_rt rq)" "t \<notin> set (cfs_tids (rq_cfs rq))"
    using t by (auto simp: rq_queued_def)
  have sz: "Suc (length (dl_tids (rq_deadline rq))) < 2 ^ 64" "Suc (size (rt_queued (rq_rt rq))) < 2 ^ 64"
      "Suc (length (cfs_tids (rq_cfs rq))) < 2 ^ 64"
    using n unfolding rq_queued_def size_union size_mset by linarith+
  consider (cfs) "sched_policy (st t) = SCHED_OTHER \<or> sched_policy (st t) = SCHED_BATCH \<or> sched_policy (st t) = SCHED_IDLE"
    | (rt) "sched_policy (st t) = SCHED_FIFO \<or> sched_policy (st t) = SCHED_RR"
    | (dl) "sched_policy (st t) = SCHED_DEADLINE"
    using p by (auto simp: policy_ok_def)
  then show ?thesis
  proof cases
    case cfs
    let ?vr = "max (vruntime (se (st t))) (min_vruntime (rq_cfs rq))"
    from ist have ic: "cfs_inv ?st (rq_cfs rq)" by (simp add: rq_inv_def)
    obtain st1 q1 where e: "cfs_enqueue ?st (rq_cfs rq) t (vruntime (se (st t))) (load_weight (se (st t))) = Some (st1, q1)"
        "cfs_inv st1 q1" "st1 = upd_task t (se_update (vruntime_update (\<lambda>_. ?vr))) ?st"
        "rb_contents (tasks_timeline q1) = ins_entry (CfsKey ?vr (enqueue_order (rq_cfs rq)) t) t (rb_contents (tasks_timeline (rq_cfs rq)))"
      by (rule cfs_enqueue_shape [OF ic unq(3) sz(3)])
    have q: "mset (cfs_tids q1) = add_mset t (mset (cfs_tids (rq_cfs rq)))"
      using e(4) by (simp add: cfs_tids_def mset_ins_entry)
    have "rt_inv st1 (rq_rt rq)" using ist e(3) by (auto simp: rq_inv_def rt_inv_def cong: filter_mset_cong)
    with ist e(2) nr q have "rq_inv st1 (?rq\<lparr>rq_cfs := q1\<rparr>)" by (simp add: rq_inv_def rq_queued_def)
    moreover have "enqueue_task st rq t = Some (st1, ?rq\<lparr>rq_cfs := q1\<rparr>, Some (task_weight_from_value (load_weight (se (st t)))))"
      using f cfs e(1) by (simp add: enqueue_task_def Let_def)
    moreover have "st1 = upd_task t (\<lambda>i. i\<lparr>on_rq := True, on_cpu := False, se := (se i)\<lparr>vruntime := ?vr\<rparr>\<rparr>) st"
      using e(3) by (auto simp: upd_task_def)
    moreover have "rq_queued (?rq\<lparr>rq_cfs := q1\<rparr>) = add_mset t (rq_queued rq)" using q by (simp add: rq_queued_def)
    ultimately show ?thesis by blast
  next
    case rt
    from ist have ir: "rt_inv ?st (rq_rt rq)" by (simp add: rq_inv_def)
    have "min (nat (max (prio (st t)) 0)) 99 < MAX_RT_PRIO" by (simp add: MAX_RT_PRIO_def min_def)
    from rt_enqueue_spec [OF ir this sz(2), of "sched_policy (st t) = SCHED_RR" t]
    obtain q1 where e: "rt_enqueue (rq_rt rq) t (min (nat (max (prio (st t)) 0)) 99) (sched_policy (st t) = SCHED_RR) = Some q1"
        "rt_inv ?st q1" "rt_queued q1 = add_mset t (rt_queued (rq_rt rq))"
      by auto
    have "rq_inv ?st (?rq\<lparr>rq_rt := q1\<rparr>)" using ist e nr by (simp add: rq_inv_def rq_queued_def)
    moreover have "enqueue_task st rq t = Some (?st, ?rq\<lparr>rq_rt := q1\<rparr>, Some (task_weight_from_value (load_weight (se (st t)))))"
      using f rt e(1) by (auto simp: enqueue_task_def Let_def sched_policy_defs)
    moreover have "rq_queued (?rq\<lparr>rq_rt := q1\<rparr>) = add_mset t (rq_queued rq)" using e by (simp add: rq_queued_def)
    ultimately show ?thesis using st' by blast
  next
    case dl
    from ist have id: "dl_inv (rq_deadline rq)" by (simp add: rq_inv_def)
    let ?k = "DeadlineKey (absolute_deadline (dl (st t))) t"
    obtain q1 where e: "dl_enqueue (rq_deadline rq) t (absolute_deadline (dl (st t))) = Some q1" "dl_inv q1"
        and "dl_abs q1 = takeWhile (\<lambda>k. k \<le> ?k) (dl_abs (rq_deadline rq)) @ ?k # dropWhile (\<lambda>k. k \<le> ?k) (dl_abs (rq_deadline rq))"
      by (rule dl_enqueue_spec [OF id unq(1) sz(1)])
    then have "mset (dl_abs q1) = add_mset ?k (mset (dl_abs (rq_deadline rq)))" by (simp only: mset_split_insert)
    then have e3: "mset (dl_tids q1) = add_mset t (mset (dl_tids (rq_deadline rq)))"
      by (simp add: dl_tids_abs [OF id] dl_tids_abs [OF e(2)])
    have "rq_inv ?st (?rq\<lparr>rq_deadline := q1\<rparr>)" using ist e e3 nr by (simp add: rq_inv_def rq_queued_def)
    moreover have "enqueue_task st rq t = Some (?st, ?rq\<lparr>rq_deadline := q1\<rparr>, Some (task_weight_from_value (load_weight (se (st t)))))"
      using f dl e(1) by (simp add: enqueue_task_def Let_def sched_policy_defs)
    moreover have "rq_queued (?rq\<lparr>rq_deadline := q1\<rparr>) = add_mset t (rq_queued rq)" using e3 by (simp add: rq_queued_def)
    ultimately show ?thesis using st' by blast
  qed
qed

subsection \<open>Pop, removal, stealing\<close>

text \<open>The class an unthrottled queue serves first, with the front task of that class.\<close>

definition serves :: "rqinner \<Rightarrow> tid \<Rightarrow> bool" where
  "serves rq t \<longleftrightarrow>
     (if dl_tids (rq_deadline rq) \<noteq> [] then t = hd (dl_tids (rq_deadline rq))
      else if \<not> rt_throttled (rq_rt rq) \<and> rt_queued (rq_rt rq) \<noteq> {#} then t \<in># rt_queued (rq_rt rq)
      else cfs_tids (rq_cfs rq) \<noteq> [] \<and> t = hd (cfs_tids (rq_cfs rq)))"

lemma pop_spec:
  assumes i: "rq_inv st rq"
  shows "\<exists>rq' r. pop_next_task st rq = Some (rq', r) \<and> rq_inv st rq'
    \<and> (case r of
         None \<Rightarrow> rq' = rq \<and> dl_tids (rq_deadline rq) = [] \<and> cfs_tids (rq_cfs rq) = []
            \<and> (rt_throttled (rq_rt rq) \<or> rt_queued (rq_rt rq) = {#})
       | Some t \<Rightarrow> rq_queued rq = add_mset t (rq_queued rq') \<and> serves rq t)"
proof -
  from i have id: "dl_inv (rq_deadline rq)" and ir: "rt_inv st (rq_rt rq)" and ic: "cfs_inv st (rq_cfs rq)"
    by (simp_all add: rq_inv_def)
  show ?thesis
  proof (cases "dl_abs (rq_deadline rq)")
    case (Cons k ks)
    obtain d where d: "dl_pop_next (rq_deadline rq) = Some (d, Some (dk_tid k))" "dl_inv d" "dl_abs d = ks"
      by (rule dl_pop_Cons [OF id Cons])
    have "dl_tids (rq_deadline rq) = dk_tid k # dl_tids d"
      using Cons d(3) by (simp add: dl_tids_abs [OF id] dl_tids_abs [OF d(2)])
    with d i show ?thesis
      by (simp add: pop_next_task_def rq_inv_def rq_queued_def serves_def unat_sat_sub)
  next
    case Nil
    then have dn: "dl_tids (rq_deadline rq) = []" by (simp add: dl_tids_abs [OF id])
    note dp = dl_pop_empty [OF id dn]
    show ?thesis
    proof (cases "\<not> rt_throttled (rq_rt rq) \<and> rt_queued (rq_rt rq) \<noteq> {#}")
      case True
      with rt_pop_spec [OF ir] obtain q t where q: "rt_pop_next st (rq_rt rq) = Some (q, Some t)" "rt_inv st q"
        "rt_queued (rq_rt rq) = add_mset t (rt_queued q)" by auto
      with dn dp i True show ?thesis
        by (simp add: pop_next_task_def rq_inv_def rq_queued_def serves_def unat_sat_sub)
    next
      case False
      with rt_pop_spec [OF ir] have rp: "rt_pop_next st (rq_rt rq) = Some (rq_rt rq, None)"
        by (cases "rt_throttled (rq_rt rq)") (auto simp: rt_pop_next_def)
      show ?thesis
      proof (cases "cfs_abs (rq_cfs rq)")
        case Nil
        then have "cfs_tids (rq_cfs rq) = []" using cfs_abs_snd [of "rq_cfs rq"] by simp
        with Nil dn dp rp i False cfs_pop_empty [OF ic Nil] show ?thesis by (simp add: pop_next_task_def)
      next
        case (Cons e es)
        then have ce: "cfs_abs (rq_cfs rq) = (fst e, snd e) # es" by simp
        obtain c where c: "cfs_pop_next st (rq_cfs rq) = Some (c, Some (snd e))" "cfs_inv st c" "cfs_abs c = es"
          by (rule cfs_pop_Cons [OF ic ce])
        have "cfs_tids (rq_cfs rq) = snd e # cfs_tids c"
          using Cons c(3) cfs_abs_snd [of "rq_cfs rq"] cfs_abs_snd [of c] by simp
        with c dn dp rp i False show ?thesis
          by (auto simp: pop_next_task_def rq_inv_def rq_queued_def serves_def unat_sat_sub)
      qed
    qed
  qed
qed

lemma filter_neq_id [simp]: "x \<notin> set xs \<Longrightarrow> filter (\<lambda>u. u \<noteq> x) xs = xs"
  by (auto simp: filter_id_conv)

lemma mset_filter_distinct:
  "distinct xs \<Longrightarrow> x \<in> set xs \<Longrightarrow> mset xs = add_mset x (mset (filter (\<lambda>u. u \<noteq> x) xs))"
  by (induction xs) (auto simp del: mset_filter)

lemma remove_spec:
  assumes i: "rq_inv st rq"
  shows "\<exists>rq' st' r. rq_remove_task st rq t = Some (st', rq', r) \<and> rq_inv st rq'
    \<and> (if t \<in># rq_queued rq
       then r = Some (task_weight_from_value (load_weight (se (st t)))) \<and> st' = upd_task t (on_rq_update (\<lambda>_. False)) st
          \<and> rq_queued rq = add_mset t (rq_queued rq')
       else r = None \<and> st' = st \<and> rq_queued rq' = rq_queued rq)"
proof -
  from i have id: "dl_inv (rq_deadline rq)" and ir: "rt_inv st (rq_rt rq)" and ic: "cfs_inv st (rq_cfs rq)"
    by (simp_all add: rq_inv_def)
  obtain d where d: "dl_remove_task (rq_deadline rq) t = Some (d, if t \<in> set (dl_tids (rq_deadline rq)) then Some t else None)"
      "dl_inv d" "dl_tids d = filter (\<lambda>u. u \<noteq> t) (dl_tids (rq_deadline rq))"
    by (rule dl_remove_task_spec [OF id])
  show ?thesis
  proof (cases "t \<in> set (dl_tids (rq_deadline rq))")
    case True
    have "mset (dl_tids (rq_deadline rq)) = add_mset t (mset (dl_tids d))"
      unfolding d(3) using id True by (intro mset_filter_distinct) (auto simp: dl_inv_def)
    with True d(1,2) i show ?thesis
      by (simp add: rq_remove_task_def rq_inv_def rq_queued_def unat_sat_sub)
  next
    case dn: False
    with d(3) have dt: "dl_tids d = dl_tids (rq_deadline rq)" by simp
    from rt_remove_task_spec [OF ir, of t] show ?thesis
    proof (elim disjE exE conjE)
      fix q assume q: "rt_remove_task st (rq_rt rq) t = Some (q, Some t)" "rt_inv st q"
        "rt_queued (rq_rt rq) = add_mset t (rt_queued q)"
      with dn dt d(1,2) i show ?thesis by (simp add: rq_remove_task_def rq_inv_def rq_queued_def unat_sat_sub)
    next
      assume rn: "t \<notin># rt_queued (rq_rt rq)" "rt_remove_task st (rq_rt rq) t = Some (rq_rt rq, None)"
      obtain c where c: "cfs_remove_task st (rq_cfs rq) t = Some (c, if t \<in> set (cfs_tids (rq_cfs rq)) then Some t else None)"
          "cfs_inv st c" "cfs_abs c = filter (\<lambda>e. snd e \<noteq> t) (cfs_abs (rq_cfs rq))"
        by (rule cfs_remove_task_spec [OF ic])
      have ct: "cfs_tids c = filter (\<lambda>u. u \<noteq> t) (cfs_tids (rq_cfs rq))"
        using c(3) by (simp add: filter_map comp_def flip: cfs_abs_snd)
      show ?thesis
      proof (cases "t \<in> set (cfs_tids (rq_cfs rq))")
        case True
        have "mset (cfs_tids (rq_cfs rq)) = add_mset t (mset (cfs_tids c))"
          unfolding ct using ic True by (intro mset_filter_distinct) (auto simp: cfs_inv_def)
        with True dn dt d(1,2) rn c(1,2) i show ?thesis
          by (simp add: rq_remove_task_def rq_inv_def rq_queued_def unat_sat_sub)
      next
        case False
        with ct have "cfs_tids c = cfs_tids (rq_cfs rq)" by simp
        with False dn dt d(1,2) rn c(1,2) i show ?thesis by (simp add: rq_remove_task_def rq_inv_def rq_queued_def)
      qed
    qed
  qed
qed

subsection \<open>Properties\<close>

text \<open>
  C23. Class order: \<open>pop_next_task\<close> never panics on a well-formed run queue; it takes the
  earliest-deadline task if there is a deadline task, else a task of the real-time class if
  one is runnable and the class is not throttled, else the fair task of least virtual
  runtime.  Exactly that task leaves the queue, the counts stay exact, and nothing is
  returned only when none of the three classes can run.
\<close>

theorem pop_next_task_class_order:
  assumes "rq_inv st rq"
  shows "\<exists>rq' r. pop_next_task st rq = Some (rq', r) \<and> rq_inv st rq'
    \<and> (case r of
         None \<Rightarrow> rq' = rq \<and> dl_tids (rq_deadline rq) = [] \<and> cfs_tids (rq_cfs rq) = []
            \<and> (rt_throttled (rq_rt rq) \<or> rt_queued (rq_rt rq) = {#})
       | Some t \<Rightarrow> rq_queued rq = add_mset t (rq_queued rq') \<and> serves rq t)"
  using assms by (rule pop_spec)

theorem pop_next_task_class_order_witness:
  "\<exists>st rq w rq'. enqueue_task (\<lambda>_. fresh_task) rqinner_new 5 = Some (st, rq, w)
    \<and> pop_next_task st rq = Some (rq', Some 5) \<and> rq_queued rq' = {#}"
proof -
  have f: "\<not> on_rq fresh_task" "state fresh_task \<noteq> Zombie" "policy_ok (sched_policy fresh_task)"
    by (simp_all add: fresh_task_def policy_ok_def)
  obtain st rq w where e: "enqueue_task (\<lambda>_. fresh_task) rqinner_new 5 = Some (st, rq, w)" "rq_inv st rq"
      "rq_queued rq = {#5#}"
    using enqueue_task_spec [OF rq_inv_new(1) [of "\<lambda>_. fresh_task"], of 5] rq_inv_new(2) f by auto
  have th: "\<not> rt_throttled (rq_rt rq)"
    using e(1) f by (auto simp: enqueue_task_def Let_def rqinner_new_def rt_new_def bind_eq_Some_conv rt_enqueue_def
        split: if_splits)
  obtain rq' r where p: "pop_next_task st rq = Some (rq', r)"
      "case r of
         None \<Rightarrow> rq' = rq \<and> dl_tids (rq_deadline rq) = [] \<and> cfs_tids (rq_cfs rq) = []
            \<and> (rt_throttled (rq_rt rq) \<or> rt_queued (rq_rt rq) = {#})
       | Some t \<Rightarrow> rq_queued rq = add_mset t (rq_queued rq') \<and> serves rq t"
    using pop_next_task_class_order [OF e(2)] by blast
  with e th show ?thesis by (cases r) (auto simp: rq_queued_def add_mset_eq_single)
qed

end
