(* ===== verification/Sched_System.thy ===== *)
theory Sched_System
  imports Run_Queue
begin

unbundle bit_operations_syntax

text \<open>
  All CPUs together: the published views, CPU selection, and the operations of
  \<open>process/scheduler/runqueue.rs\<close> and \<open>idle_rq.rs\<close> that cross run queues.  One operation is
  one step: the run queue lock and the task lock it takes serialise it against the others.
  The interprocessor interrupts it sends are logged.
\<close>

subsection \<open>Published views\<close>

datatype idle_state = IdleRunning | IdlePolling | IdleWfi

definition idle_to_raw :: "idle_state \<Rightarrow> usize" where
  "idle_to_raw s = (case s of IdleRunning \<Rightarrow> 0 | IdlePolling \<Rightarrow> 1 | IdleWfi \<Rightarrow> 2)"

definition idle_from_raw :: "usize \<Rightarrow> idle_state" where
  "idle_from_raw raw = (if raw = 1 then IdlePolling else if raw = 2 then IdleWfi else IdleRunning)"

record rq_view =
  v_count :: usize
  v_weight :: usize
  v_reservations :: usize
  v_idle :: usize
  v_online :: bool
  v_ipi :: bool

definition view_new :: rq_view where
  "view_new = \<lparr>v_count = 0, v_weight = 0, v_reservations = 0, v_idle = idle_to_raw IdleRunning,
     v_online = False, v_ipi = False\<rparr>"

record rq_snapshot =
  s_count :: usize
  s_weight :: usize
  s_reservations :: usize
  s_idle :: idle_state
  s_online :: bool

definition view_snapshot :: "rq_view \<Rightarrow> rq_snapshot" where
  "view_snapshot v = \<lparr>s_count = v_count v, s_weight = v_weight v, s_reservations = v_reservations v,
     s_idle = idle_from_raw (v_idle v), s_online = v_online v\<rparr>"

definition add_runnable :: "usize \<Rightarrow> rq_view \<Rightarrow> rq_view" where
  "add_runnable w v = v\<lparr>v_count := v_count v + 1, v_weight := v_weight v + w\<rparr>"

definition remove_runnable :: "usize \<Rightarrow> rq_view \<Rightarrow> rq_view" where
  "remove_runnable w v = v\<lparr>v_count := sat_sub (v_count v) 1, v_weight := sat_sub (v_weight v) w\<rparr>"

definition consume_wakeup_reservation :: "rq_view \<Rightarrow> rq_view" where
  "consume_wakeup_reservation v = v\<lparr>v_reservations := sat_sub (v_reservations v) 1\<rparr>"

definition try_reserve_wakeup :: "usize \<Rightarrow> rq_view \<Rightarrow> rq_view \<times> bool" where
  "try_reserve_wakeup expected v =
     (if v_reservations v = expected then (v\<lparr>v_reservations := sat_add expected 1\<rparr>, True) else (v, False))"

subsection \<open>CPU selection\<close>

definition allowed_fallback :: "nat \<Rightarrow> usize \<Rightarrow> nat \<Rightarrow> nat" where
  "allowed_fallback n allowed fallback =
     (if cpu_allowed allowed fallback \<and> fallback < n then fallback
      else case List.find (cpu_allowed allowed) [0..<n] of
        Some c \<Rightarrow> c
      | None \<Rightarrow> min fallback (n - 1))"

text \<open>A candidate is (score, affinity penalty, CPU, observed reservations), compared in that order.\<close>

type_synonym candidate = "usize \<times> nat \<times> nat \<times> usize"

fun cand_less :: "candidate \<Rightarrow> candidate \<Rightarrow> bool" where
  "cand_less (s1, a1, c1, r1) (s2, a2, c2, r2) \<longleftrightarrow>
     s1 < s2 \<or> s1 = s2 \<and> (a1 < a2 \<or> a1 = a2 \<and> (c1 < c2 \<or> c1 = c2 \<and> r1 < r2))"

definition candidate_of :: "rq_view list \<Rightarrow> usize \<Rightarrow> nat \<Rightarrow> nat \<Rightarrow> candidate" where
  "candidate_of vs weight preferred c =
     (let s = view_snapshot (vs ! c) in
      (sat_add (s_weight s) (sat_mul (s_reservations s) weight),
       if c \<noteq> preferred then 1 else 0, c, s_reservations s))"

definition cpu_idle :: "rq_view \<Rightarrow> bool" where
  "cpu_idle v = (let s = view_snapshot v in s_idle s \<in> {IdlePolling, IdleWfi} \<and> s_count s = 0)"

definition better :: "candidate \<Rightarrow> candidate option \<Rightarrow> candidate option" where
  "better c best = (case best of None \<Rightarrow> Some c | Some b \<Rightarrow> if cand_less c b then Some c else Some b)"

definition scan_cpus :: "rq_view list \<Rightarrow> usize \<Rightarrow> usize \<Rightarrow> nat \<Rightarrow> candidate option \<times> candidate option" where
  "scan_cpus vs allowed weight preferred =
     fold (\<lambda>c (best_idle, best_loaded).
            if \<not> cpu_allowed allowed c \<or> \<not> v_online (vs ! c) then (best_idle, best_loaded)
            else if cpu_idle (vs ! c) then (better (candidate_of vs weight preferred c) best_idle, best_loaded)
            else (best_idle, better (candidate_of vs weight preferred c) best_loaded))
       [0..<length vs] (None, None)"

record cpu_selection =
  sel_cpu :: nat
  sel_reserved :: bool

text \<open>
  The selection loop under interference: \<open>scan k\<close> is what the k-th scan reads of the published
  views, \<open>cas k c\<close> the reservation counter of CPU \<open>c\<close> that the k-th compare-exchange finds.
\<close>

function select_loop ::
    "(nat \<Rightarrow> rq_view list) \<Rightarrow> (nat \<Rightarrow> nat \<Rightarrow> usize) \<Rightarrow> nat \<Rightarrow> usize \<Rightarrow> usize \<Rightarrow> nat \<Rightarrow> nat \<Rightarrow> nat \<Rightarrow> cpu_selection" where
  "select_loop scan cas n allowed weight preferred fallback retries =
     (let (best_idle, best_loaded) = scan_cpus (scan retries) allowed weight preferred in
      case or_else best_idle best_loaded of
        None \<Rightarrow> \<lparr>sel_cpu = fallback, sel_reserved = False\<rparr>
      | Some (_, _, selected, observed) \<Rightarrow>
          if cas retries selected = observed then \<lparr>sel_cpu = selected, sel_reserved = True\<rparr>
          else if Suc retries \<ge> max (n * 2) 1 then \<lparr>sel_cpu = fallback, sel_reserved = False\<rparr>
          else select_loop scan cas n allowed weight preferred fallback (Suc retries))"
  by pat_completeness auto
termination
  by (relation "measure (\<lambda>(_, _, n, _, _, _, _, r). max (n * 2) 1 - r)") auto

declare select_loop.simps [simp del]

definition select_task_rq ::
    "(nat \<Rightarrow> rq_view list) \<Rightarrow> (nat \<Rightarrow> nat \<Rightarrow> usize) \<Rightarrow> nat \<Rightarrow> task_inner \<Rightarrow> nat \<Rightarrow> nat \<Rightarrow> cpu_selection" where
  "select_task_rq scan cas n i source prefer =
     (let allowed = cpus_allowed i;
          weight = task_weight_from_value (load_weight (se i));
          preferred = (if cpu_allowed allowed prefer \<and> prefer < n then prefer else allowed_fallback n allowed source);
          fallback = allowed_fallback n allowed preferred in
      if on_main_hart i \<or> n \<le> 1 then \<lparr>sel_cpu = fallback, sel_reserved = False\<rparr>
      else select_loop scan cas n allowed weight preferred fallback 0)"

subsection \<open>Operations across CPUs\<close>

record sched_rq =
  sr_inner :: rqinner
  sr_view :: rq_view

record sched_sys =
  sys_tasks :: task_store
  sys_rqs :: "sched_rq list"
  sys_ipis :: "nat list"

definition upd_view :: "nat \<Rightarrow> (rq_view \<Rightarrow> rq_view) \<Rightarrow> sched_sys \<Rightarrow> sched_sys" where
  "upd_view c f s = s\<lparr>sys_rqs := (sys_rqs s)[c := (sys_rqs s ! c)\<lparr>sr_view := f (sr_view (sys_rqs s ! c))\<rparr>]\<rparr>"

definition set_inner :: "nat \<Rightarrow> rqinner \<Rightarrow> sched_sys \<Rightarrow> sched_sys" where
  "set_inner c r s = s\<lparr>sys_rqs := (sys_rqs s)[c := (sys_rqs s ! c)\<lparr>sr_inner := r\<rparr>]\<rparr>"

definition inner_of :: "sched_sys \<Rightarrow> nat \<Rightarrow> rqinner" where
  "inner_of s c = sr_inner (sys_rqs s ! c)"

definition sys_new :: "nat \<Rightarrow> task_store \<Rightarrow> sched_sys" where
  "sys_new n st = \<lparr>sys_tasks = st, sys_rqs = replicate n \<lparr>sr_inner = rqinner_new, sr_view = view_new\<rparr>, sys_ipis = []\<rparr>"

definition normalize_cpu :: "sched_sys \<Rightarrow> nat \<Rightarrow> nat option" where
  "normalize_cpu s c = (if c < length (sys_rqs s) then Some c else None)"

definition local_cpu :: "sched_sys \<Rightarrow> nat \<Rightarrow> nat" where
  "local_cpu s hart = min hart (length (sys_rqs s) - 1)"

definition enqueue_task_on_cpu :: "sched_sys \<Rightarrow> tid \<Rightarrow> nat \<Rightarrow> bool \<Rightarrow> (sched_sys \<times> bool) option" where
  "enqueue_task_on_cpu s t c is_new =
     (case normalize_cpu s c of
        None \<Rightarrow> Some (s, False)
      | Some c \<Rightarrow>
          if state (sys_tasks s t) = Zombie
          then Some (s\<lparr>sys_tasks := upd_task t (\<lambda>i. i\<lparr>on_rq := False, on_cpu := False\<rparr>) (sys_tasks s)\<rparr>, False)
          else
            (let st = upd_task t (\<lambda>i. i\<lparr>cpu := c, state := Ready, on_cpu := False\<rparr>) (sys_tasks s) in
             do { (st, rq, enqueued) \<leftarrow> enqueue_task st (inner_of s c) t;
                  let s = set_inner c rq (s\<lparr>sys_tasks := st\<rparr>);
                  Some (case enqueued of
                          None \<Rightarrow> (s, False)
                        | Some w \<Rightarrow> (if is_new then upd_view c (add_runnable w) s else s, True)) }))"

definition mark_resched_and_kick :: "nat \<Rightarrow> nat \<Rightarrow> sched_sys \<Rightarrow> sched_sys" where
  "mark_resched_and_kick c source s =
     (case normalize_cpu s c of
        None \<Rightarrow> s
      | Some c \<Rightarrow>
          if c = source then s
          else if v_idle (sr_view (sys_rqs s ! c)) = idle_to_raw IdleWfi then
            (let pending = v_ipi (sr_view (sys_rqs s ! c));
                 s = upd_view c (v_ipi_update (\<lambda>_. True)) s in
             if pending then s else s\<lparr>sys_ipis := sys_ipis s @ [c]\<rparr>)
          else s)"

text \<open>Selection without interference, with the reservation it takes.\<close>

definition select_now :: "sched_sys \<Rightarrow> tid \<Rightarrow> nat \<Rightarrow> nat \<Rightarrow> sched_sys \<times> cpu_selection" where
  "select_now s t source prefer =
     (let vs = map sr_view (sys_rqs s);
          sel = select_task_rq (\<lambda>_. vs) (\<lambda>_ c. v_reservations (vs ! c)) (length vs) (sys_tasks s t) source prefer in
      (if sel_reserved sel
       then upd_view (sel_cpu sel) (\<lambda>v. fst (try_reserve_wakeup (v_reservations v) v)) s else s, sel))"

definition consume_if :: "cpu_selection \<Rightarrow> sched_sys \<Rightarrow> sched_sys" where
  "consume_if sel s = (if sel_reserved sel then upd_view (sel_cpu sel) consume_wakeup_reservation s else s)"

definition enqueue_selected_task ::
    "sched_sys \<Rightarrow> tid \<Rightarrow> cpu_selection \<Rightarrow> nat \<Rightarrow> bool \<Rightarrow> (sched_sys \<times> bool) option" where
  "enqueue_selected_task s t sel source is_new =
     do { (s, enqueued) \<leftarrow> enqueue_task_on_cpu s t (sel_cpu sel) is_new;
          let s = consume_if sel s;
          Some (if enqueued then mark_resched_and_kick (sel_cpu sel) source s else s, enqueued) }"

definition enqueue_new_task :: "nat \<Rightarrow> sched_sys \<Rightarrow> tid \<Rightarrow> nat \<Rightarrow> sched_sys option" where
  "enqueue_new_task hart s t parent_cpu =
     (let source = local_cpu s hart; (s, sel) = select_now s t source parent_cpu in
      do { (s, _) \<leftarrow> enqueue_selected_task s t sel source True; Some s })"

definition enqueue_woken_task :: "nat \<Rightarrow> sched_sys \<Rightarrow> tid \<Rightarrow> nat \<Rightarrow> (sched_sys \<times> bool) option" where
  "enqueue_woken_task hart s t wake_source =
     (let l = local_cpu s hart; (s, sel) = select_now s t wake_source (cpu (sys_tasks s t)) in
      enqueue_selected_task s t sel l True)"

definition enqueue_resumed_task :: "nat \<Rightarrow> sched_sys \<Rightarrow> tid \<Rightarrow> nat \<Rightarrow> (sched_sys \<times> bool) option" where
  "enqueue_resumed_task hart s t wake_source =
     (let old_cpu = cpu (sys_tasks s t);
          weight = task_weight_from_value (load_weight (se (sys_tasks s t)));
          l = local_cpu s hart;
          (s, sel) = select_now s t wake_source old_cpu;
          target = sel_cpu sel in
      do { (s, enqueued) \<leftarrow> enqueue_task_on_cpu s t target False;
           let s = consume_if sel s;
           if \<not> enqueued then Some (s, False)
           else
             (let s = (if old_cpu \<noteq> target
                       then upd_view target (add_runnable weight)
                              (case normalize_cpu s old_cpu of
                                 None \<Rightarrow> s
                               | Some c \<Rightarrow> upd_view c (remove_runnable weight) s)
                       else s) in
              Some (mark_resched_and_kick target l s, True)) })"

definition add_task_into_pool :: "nat \<Rightarrow> sched_sys \<Rightarrow> tid \<Rightarrow> sched_sys option" where
  "add_task_into_pool hart s t =
     (let c = (case normalize_cpu s (cpu (sys_tasks s t)) of None \<Rightarrow> local_cpu s hart | Some c \<Rightarrow> c) in
      do { (s, _) \<leftarrow> enqueue_task_on_cpu s t c False; Some s })"

fun remove_from_queues :: "sched_sys \<Rightarrow> tid \<Rightarrow> nat list \<Rightarrow> sched_sys option" where
  "remove_from_queues s t [] = Some s"
| "remove_from_queues s t (c # cs) =
     do { (st, rq, r) \<leftarrow> rq_remove_task (sys_tasks s) (inner_of s c) t;
          let s = set_inner c rq (s\<lparr>sys_tasks := st\<rparr>);
          case r of
            None \<Rightarrow> remove_from_queues s t cs
          | Some w \<Rightarrow> Some (upd_view c (remove_runnable w) s) }"

definition remove_task_from_all_local_queues :: "sched_sys \<Rightarrow> tid \<Rightarrow> sched_sys option" where
  "remove_task_from_all_local_queues s t = remove_from_queues s t [0..<length (sys_rqs s)]"

definition advance_cfs_min_vruntime :: "sched_sys \<Rightarrow> nat \<Rightarrow> sched_sys" where
  "advance_cfs_min_vruntime s c =
     (case normalize_cpu s c of
        None \<Rightarrow> s
      | Some c \<Rightarrow> set_inner c ((inner_of s c)\<lparr>rq_cfs := cfs_advance_min_vruntime (rq_cfs (inner_of s c))\<rparr>) s)"

definition wake_up_task :: "nat \<Rightarrow> sched_sys \<Rightarrow> tid \<Rightarrow> (sched_sys \<times> bool) option" where
  "wake_up_task hart s t =
     (if state (sys_tasks s t) = Blocked
      then enqueue_woken_task hart
             (s\<lparr>sys_tasks := upd_task t (state_update (\<lambda>_. Ready)) (sys_tasks s)\<rparr>) t hart
      else if state (sys_tasks s t) = BlockSaving
      then Some (s\<lparr>sys_tasks := upd_task t (\<lambda>i. i\<lparr>wake_pending := True, wake_source_cpu := Some hart\<rparr>) (sys_tasks s)\<rparr>, False)
      else Some (s, False))"

partial_function (option) fetch_task :: "nat \<Rightarrow> sched_sys \<Rightarrow> (sched_sys \<times> tid option) option" where
  "fetch_task hart s =
     (if hart < length (sys_rqs s) then
        do { (rq, r) \<leftarrow> pop_next_task (sys_tasks s) (inner_of s hart);
             let s = set_inner hart rq s;
             case r of
               None \<Rightarrow> Some (s, None)
             | Some t \<Rightarrow>
                 if state (sys_tasks s t) = Zombie
                 then fetch_task hart
                        (upd_view hart (remove_runnable (task_weight_from_value (load_weight (se (sys_tasks s t)))))
                           (s\<lparr>sys_tasks := upd_task t (\<lambda>i. i\<lparr>on_rq := False, on_cpu := False\<rparr>) (sys_tasks s)\<rparr>))
                 else Some (s\<lparr>sys_tasks := upd_task t (\<lambda>i. i\<lparr>on_rq := False, cpu := hart, on_cpu := True,
                                state := Running, need_resched := False\<rparr>) (sys_tasks s)\<rparr>, Some t) }
      else Some (s, None))"

definition steal_task_from_cpu :: "nat \<Rightarrow> sched_sys \<Rightarrow> nat \<Rightarrow> nat \<Rightarrow> (sched_sys \<times> steal_result) option" where
  "steal_task_from_cpu hart s source target =
     (if target \<ge> length (sys_rqs s) \<or> source \<ge> length (sys_rqs s) then Some (s, StealNone)
      else
        do { (st, rq, r) \<leftarrow> steal_task (sys_tasks s) (inner_of s source) target;
             let s = set_inner source rq (s\<lparr>sys_tasks := st\<rparr>);
             Some (case r of
                     Stolen t w \<Rightarrow>
                       (mark_resched_and_kick target (local_cpu s hart)
                          (if source \<noteq> target
                           then upd_view target (add_runnable w) (upd_view source (remove_runnable w) s) else s),
                        Stolen t w)
                   | Dropped w \<Rightarrow> (upd_view source (remove_runnable w) s, Dropped w)
                   | StealNone \<Rightarrow> (s, StealNone)) })"

text \<open>The remote CPU of largest positive published load, the first one on ties.\<close>

definition busiest_cpu :: "sched_sys \<Rightarrow> nat \<Rightarrow> nat option" where
  "busiest_cpu s c =
     fst (fold (\<lambda>r (best, load). if r \<noteq> c \<and> v_count (sr_view (sys_rqs s ! r)) > load
                  then (Some r, v_count (sr_view (sys_rqs s ! r))) else (best, load))
           [0..<length (sys_rqs s)] (None, 0))"

definition idle_tasks :: "nat \<Rightarrow> sched_sys \<Rightarrow> nat \<Rightarrow> (sched_sys \<times> tid option) option" where
  "idle_tasks hart s c =
     (if c \<ge> length (sys_rqs s) then Some (s, None)
      else case busiest_cpu s c of
        None \<Rightarrow> Some (s, None)
      | Some r \<Rightarrow>
          do { (s, res) \<leftarrow> steal_task_from_cpu hart s r c;
               Some (s, case res of Stolen t _ \<Rightarrow> Some t | _ \<Rightarrow> None) })"

definition scheduler_cpu_online :: "nat \<Rightarrow> sched_sys \<Rightarrow> sched_sys" where
  "scheduler_cpu_online c s =
     (case normalize_cpu s c of None \<Rightarrow> s | Some c \<Rightarrow> upd_view c (v_online_update (\<lambda>_. True)) s)"

definition set_idle_raw :: "nat \<Rightarrow> idle_state \<Rightarrow> sched_sys \<Rightarrow> sched_sys" where
  "set_idle_raw c i s = upd_view c (v_idle_update (\<lambda>_. idle_to_raw i)) s"

definition scheduler_cpu_running :: "nat \<Rightarrow> sched_sys \<Rightarrow> sched_sys" where
  "scheduler_cpu_running c s = (case normalize_cpu s c of None \<Rightarrow> s | Some c \<Rightarrow> set_idle_raw c IdleRunning s)"

definition scheduler_idle_prepare :: "nat \<Rightarrow> sched_sys \<Rightarrow> sched_sys" where
  "scheduler_idle_prepare c s = (case normalize_cpu s c of None \<Rightarrow> s | Some c \<Rightarrow> set_idle_raw c IdlePolling s)"

definition scheduler_idle_arm :: "nat \<Rightarrow> sched_sys \<Rightarrow> sched_sys \<times> bool" where
  "scheduler_idle_arm c s =
     (case normalize_cpu s c of
        None \<Rightarrow> (s, False)
      | Some c \<Rightarrow> (let empty = nr_running (inner_of s c) = 0 in
                   (set_idle_raw c (if empty then IdleWfi else IdleRunning) s, empty)))"

definition scheduler_idle_exit :: "nat \<Rightarrow> sched_sys \<Rightarrow> sched_sys" where
  "scheduler_idle_exit c s =
     (case normalize_cpu s c of
        None \<Rightarrow> s
      | Some c \<Rightarrow> upd_view c (v_ipi_update (\<lambda>_. False)) (set_idle_raw c IdleRunning s))"

definition scheduler_task_stopped :: "nat \<Rightarrow> u64 \<Rightarrow> sched_sys \<Rightarrow> sched_sys" where
  "scheduler_task_stopped c w s =
     (case normalize_cpu s c of None \<Rightarrow> s | Some c \<Rightarrow> upd_view c (remove_runnable (task_weight_from_value w)) s)"

subsection \<open>Dispatch and the way back to the scheduler\<close>

text \<open>
  The body of \<open>run_tasks\<close> around the context switch (\<open>process/scheduler/processor.rs\<close>): what it
  writes before it switches to \<open>t\<close>, and the accounting, the commit of a block and the
  re-queueing when \<open>t\<close> comes back.  \<open>now\<close> is the microsecond clock.
\<close>

definition dispatch_task :: "nat \<Rightarrow> u64 \<Rightarrow> sched_sys \<Rightarrow> tid \<Rightarrow> sched_sys" where
  "dispatch_task hart now s t =
     (let s = scheduler_cpu_running hart s in
      s\<lparr>sys_tasks := upd_task t (\<lambda>i. i\<lparr>cpu := hart, on_rq := False, on_cpu := True, state := Running,
           need_resched := False, se := (se i)\<lparr>exec_start := now\<rparr>\<rparr>) (sys_tasks s)\<rparr>)"

definition account_exec :: "u64 \<Rightarrow> sched_entity \<Rightarrow> sched_entity" where
  "account_exec now e =
     (let delta_exec = max (sat_sub now (exec_start e)) 1;
          weight = max (load_weight e) 1;
          delta_vruntime = sat_mul delta_exec 1024 div weight in
      e\<lparr>prev_sum_exec_runtime := sum_exec_runtime e,
        sum_exec_runtime := sat_add (sum_exec_runtime e) delta_exec,
        vruntime := sat_add (vruntime e) (max delta_vruntime 1),
        exec_start := 0\<rparr>)"

definition commit_block :: "u64 \<Rightarrow> task_inner \<Rightarrow> task_inner \<times> nat option" where
  "commit_block now i =
     (let i = i\<lparr>se := account_exec now (se i), on_cpu := False\<rparr> in
      if state i = BlockSaving then
        (if wake_pending i
         then (i\<lparr>state := Ready, wake_pending := False, wake_source_cpu := None\<rparr>, wake_source_cpu i)
         else (i\<lparr>state := Blocked, wake_source_cpu := None\<rparr>, None))
      else (i, None))"

definition switch_back :: "nat \<Rightarrow> u64 \<Rightarrow> sched_sys \<Rightarrow> tid \<Rightarrow> sched_sys option" where
  "switch_back hart now s t =
     (let (i, wake_source) = commit_block now (sys_tasks s t);
          s = s\<lparr>sys_tasks := upd_task t (\<lambda>_. i) (sys_tasks s)\<rparr> in
      if state i = Ready then
        (case wake_source of
           Some src \<Rightarrow> do { (s, _) \<leftarrow> enqueue_resumed_task hart s t src; Some s }
         | None \<Rightarrow> add_task_into_pool hart s t)
      else
        (let s = scheduler_task_stopped (cpu i) (load_weight (se i)) s in
         Some (if sched_policy i \<in> {SCHED_OTHER, SCHED_BATCH, SCHED_IDLE}
               then advance_cfs_min_vruntime s (cpu i) else s)))"

subsection \<open>The system invariant\<close>

definition sys_queued :: "sched_sys \<Rightarrow> tid multiset" where
  "sys_queued s = sum_list (map (\<lambda>r. rq_queued (sr_inner r)) (sys_rqs s))"

text \<open>
  Every run queue is well formed, no task is queued twice (on one CPU or on two), a task
  flagged \<open>on_rq\<close> is queued, and a queued task is flagged unless it is a zombie (the enqueue
  path clears the flag of a zombie without looking for it in a queue).
\<close>

definition flag_ok :: "task_inner \<Rightarrow> nat \<Rightarrow> bool" where
  "flag_ok i n \<longleftrightarrow> n \<le> 1 \<and> (on_rq i \<longrightarrow> n = 1) \<and> (n = 1 \<longrightarrow> on_rq i \<or> state i = Zombie)"

definition sys_inv :: "sched_sys \<Rightarrow> bool" where
  "sys_inv s \<longleftrightarrow> (\<forall>r \<in> set (sys_rqs s). rq_inv (sys_tasks s) (sr_inner r))
     \<and> (\<forall>t. flag_ok (sys_tasks s t) (count (sys_queued s) t))
     \<and> (\<forall>t. policy_ok (sched_policy (sys_tasks s t)))"

lemma sum_list_update_mset:
  "c < length xs \<Longrightarrow> sum_list (map f (xs[c := x])) + f (xs ! c) = sum_list (map f xs) + f x"
  for f :: "'a \<Rightarrow> 'b multiset"
proof (induction xs arbitrary: c)
  case (Cons y ys)
  then show ?case by (cases c) (auto simp: ac_simps)
qed simp

lemma nth_sub_sum_list: "c < length xs \<Longrightarrow> f (xs ! c) \<subseteq># sum_list (map f xs)"
  for f :: "'a \<Rightarrow> 'b multiset"
proof (induction xs arbitrary: c)
  case (Cons y ys)
  show ?case
  proof (cases c)
    case (Suc k)
    with Cons have "f (ys ! k) \<subseteq># sum_list (map f ys)" by simp
    then have "f (ys ! k) \<subseteq># f y + sum_list (map f ys)" by (rule subset_mset.order_trans) simp
    with Suc show ?thesis by simp
  qed simp
qed simp

lemma sys_queued_mem: "c < length (sys_rqs s) \<Longrightarrow> rq_queued (inner_of s c) \<subseteq># sys_queued s"
  using nth_sub_sum_list [of c "sys_rqs s" "\<lambda>r. rq_queued (sr_inner r)"]
  by (simp add: sys_queued_def inner_of_def)

text \<open>Views and the interrupt log are irrelevant to the invariant.\<close>

lemma upd_view_simps [simp]:
  "sys_tasks (upd_view c f s) = sys_tasks s"
  "length (sys_rqs (upd_view c f s)) = length (sys_rqs s)"
  "c' < length (sys_rqs s) \<Longrightarrow> sr_inner (sys_rqs (upd_view c f s) ! c') = sr_inner (sys_rqs s ! c')"
  by (simp_all add: upd_view_def) (cases "c = c'"; simp)

lemma map_inner_upd_view: "map sr_inner (sys_rqs (upd_view c f s)) = map sr_inner (sys_rqs s)"
  by (rule nth_equalityI) simp_all

lemma sys_queued_map: "sys_queued s = sum_list (map rq_queued (map sr_inner (sys_rqs s)))"
  by (simp add: sys_queued_def comp_def)

lemma sys_inv_map: "sys_inv s \<longleftrightarrow> (\<forall>r \<in> set (map sr_inner (sys_rqs s)). rq_inv (sys_tasks s) r)
     \<and> (\<forall>t. flag_ok (sys_tasks s t) (count (sys_queued s) t))
     \<and> (\<forall>t. policy_ok (sched_policy (sys_tasks s t)))"
  by (auto simp: sys_inv_def)

definition same_core :: "sched_sys \<Rightarrow> sched_sys \<Rightarrow> bool" where
  "same_core s s' \<longleftrightarrow> sys_tasks s' = sys_tasks s \<and> map sr_inner (sys_rqs s') = map sr_inner (sys_rqs s)"

lemma same_core_inv: "same_core s s' \<Longrightarrow> sys_inv s' = sys_inv s" "same_core s s' \<Longrightarrow> sys_queued s' = sys_queued s"
  unfolding same_core_def sys_inv_map sys_queued_map by (auto simp: sys_queued_map)

lemma same_core_length: "same_core s s' \<Longrightarrow> length (sys_rqs s') = length (sys_rqs s)"
  by (metis same_core_def length_map)

lemma same_core_refl [simp]: "same_core s s"
  by (simp add: same_core_def)

lemma same_core_trans: "same_core s s' \<Longrightarrow> same_core s' s'' \<Longrightarrow> same_core s s''"
  by (simp add: same_core_def)

lemma same_core_upd_view [simp]: "same_core s (upd_view c f s') = same_core s s'"
  by (simp add: same_core_def map_inner_upd_view)

lemma same_core_ipis [simp]: "same_core s (s'\<lparr>sys_ipis := x\<rparr>) = same_core s s'"
  by (simp add: same_core_def)

lemma same_core_kick [simp]: "same_core s (mark_resched_and_kick c src s') = same_core s s'"
  by (auto simp: mark_resched_and_kick_def Let_def split: option.split)

lemma same_core_consume [simp]: "same_core s (consume_if sel s') = same_core s s'"
  by (simp add: consume_if_def)

lemma same_core_select: "same_core s (fst (select_now s t a b))"
  by (simp add: select_now_def Let_def)

subsection \<open>Every operation keeps the invariant\<close>

lemma set_inner_simps [simp]:
  "sys_tasks (set_inner c rq s) = sys_tasks s"
  "length (sys_rqs (set_inner c rq s)) = length (sys_rqs s)"
  "c < length (sys_rqs s) \<Longrightarrow> inner_of (set_inner c rq s) c = rq"
  by (simp_all add: set_inner_def inner_of_def)

lemma inner_of_tasks [simp]: "inner_of (s\<lparr>sys_tasks := st\<rparr>) c = inner_of s c"
  by (simp add: inner_of_def)

lemma sys_queued_set_inner:
  assumes "c < length (sys_rqs s)"
  shows "sys_queued (set_inner c rq (s\<lparr>sys_tasks := st\<rparr>)) + rq_queued (inner_of s c) = sys_queued s + rq_queued rq"
  using sum_list_update_mset [of c "sys_rqs s" "\<lambda>r. rq_queued (sr_inner r)"] assms
  by (simp add: sys_queued_def set_inner_def inner_of_def)

lemma inner_inv: "sys_inv s \<Longrightarrow> c < length (sys_rqs s) \<Longrightarrow> rq_inv (sys_tasks s) (inner_of s c)"
  by (auto simp: sys_inv_def inner_of_def)

lemma sys_inv_set_inner:
  assumes i: "sys_inv s" and c: "c < length (sys_rqs s)" and r: "rq_inv st rq"
    and ag: "\<And>u. u \<in># sys_queued s \<Longrightarrow> same_sched (sys_tasks s) st u"
    and fl: "\<And>u. flag_ok (st u) (count (sys_queued (set_inner c rq (s\<lparr>sys_tasks := st\<rparr>))) u)"
    and p: "\<And>u. policy_ok (sched_policy (st u))"
  shows "sys_inv (set_inner c rq (s\<lparr>sys_tasks := st\<rparr>))"
proof -
  have "rq_inv st (sr_inner x)" if x: "x \<in> set (sys_rqs (set_inner c rq (s\<lparr>sys_tasks := st\<rparr>)))" for x
  proof -
    from x c have "sr_inner x = rq \<or> (\<exists>d < length (sys_rqs s). x = sys_rqs s ! d)"
      by (auto simp: set_inner_def in_set_conv_nth nth_list_update split: if_splits)
    then show ?thesis
    proof
      assume "\<exists>d < length (sys_rqs s). x = sys_rqs s ! d"
      then obtain d where d: "d < length (sys_rqs s)" "x = sys_rqs s ! d" by blast
      have "rq_inv (sys_tasks s) (sr_inner x)" using i d by (simp add: sys_inv_def)
      then show ?thesis
        using ag mset_subset_eqD [OF sys_queued_mem [OF d(1)]] d(2)
        by (elim rq_inv_cong) (auto simp: inner_of_def)
    qed (use r in simp)
  qed
  with fl p show ?thesis by (simp add: sys_inv_def)
qed

lemma same_sched_upd: "(\<And>i. sched_policy (f i) = sched_policy i \<and> vruntime (se (f i)) = vruntime (se i))
    \<Longrightarrow> same_sched st (upd_task t f st) u"
  by (simp add: same_sched_def)

text \<open>Changes of one task that the run queues do not read.\<close>

lemma sys_inv_upd_task:
  assumes i: "sys_inv s"
    and f: "t \<notin># sys_queued s \<or> sched_policy (f (sys_tasks s t)) = sched_policy (sys_tasks s t)
       \<and> vruntime (se (f (sys_tasks s t))) = vruntime (se (sys_tasks s t))"
    and fl: "flag_ok (f (sys_tasks s t)) (count (sys_queued s) t)"
    and p: "policy_ok (sched_policy (f (sys_tasks s t)))"
  shows "sys_inv (s\<lparr>sys_tasks := upd_task t f (sys_tasks s)\<rparr>)"
proof -
  let ?st = "upd_task t f (sys_tasks s)"
  have q: "sys_queued (s\<lparr>sys_tasks := ?st\<rparr>) = sys_queued s" by (simp add: sys_queued_def)
  have "rq_inv ?st (sr_inner r)" if r: "r \<in> set (sys_rqs s)" for r
  proof -
    from r obtain c where c: "c < length (sys_rqs s)" "r = sys_rqs s ! c" by (auto simp: in_set_conv_nth)
    have "rq_inv (sys_tasks s) (sr_inner r)" using i r by (simp add: sys_inv_def)
    then show ?thesis
    proof (rule rq_inv_cong)
      fix u assume "u \<in># rq_queued (sr_inner r)"
      then have "u \<in># sys_queued s" using mset_subset_eqD [OF sys_queued_mem [OF c(1)]] c(2) by (simp add: inner_of_def)
      with f show "same_sched (sys_tasks s) ?st u" by (auto simp: same_sched_def)
    qed
  qed
  with i fl p q show ?thesis by (simp add: sys_inv_def)
qed

lemma sys_flag: "sys_inv s \<Longrightarrow> flag_ok (sys_tasks s t) (count (sys_queued s) t)"
  by (simp add: sys_inv_def)

lemma sys_policy: "sys_inv s \<Longrightarrow> policy_ok (sched_policy (sys_tasks s t))"
  by (simp add: sys_inv_def)

lemma set_inner_id [simp]: "set_inner c (inner_of s c) (s\<lparr>sys_tasks := st\<rparr>) = s\<lparr>sys_tasks := st\<rparr>"
  by (simp add: set_inner_def inner_of_def)

lemma flag_unqueued: "flag_ok i n \<Longrightarrow> \<not> on_rq i \<Longrightarrow> state i \<noteq> Zombie \<Longrightarrow> n = 0"
  by (cases n) (auto simp: flag_ok_def)

lemma size_inner_le: "c < length (sys_rqs s) \<Longrightarrow> size (rq_queued (inner_of s c)) \<le> size (sys_queued s)"
  using size_mset_mono [OF sys_queued_mem] .

lemma enqueue_inner:
  assumes i: "sys_inv s" and c: "c < length (sys_rqs s)" and f: "\<not> on_rq (sys_tasks s t)" "state (sys_tasks s t) \<noteq> Zombie"
    and n: "Suc (size (sys_queued s)) < 2 ^ 64"
  shows "\<exists>st' rq' vr. enqueue_task (sys_tasks s) (inner_of s c) t
        = Some (st', rq', Some (task_weight_from_value (load_weight (se (sys_tasks s t)))))
     \<and> sys_inv (set_inner c rq' (s\<lparr>sys_tasks := st'\<rparr>))
     \<and> sys_queued (set_inner c rq' (s\<lparr>sys_tasks := st'\<rparr>)) = add_mset t (sys_queued s) \<and> t \<in># rq_queued rq'
     \<and> st' = upd_task t (\<lambda>i. i\<lparr>on_rq := True, on_cpu := False, se := (se i)\<lparr>vruntime := vr\<rparr>\<rparr>) (sys_tasks s)"
proof -
  have c0: "count (sys_queued s) t = 0" using flag_unqueued [OF sys_flag [OF i, of t] f] .
  then have "t \<notin># rq_queued (inner_of s c)"
    using mset_subset_eqD [OF sys_queued_mem [OF c]] by (auto simp: count_eq_zero_iff)
  moreover have "Suc (size (rq_queued (inner_of s c))) < 2 ^ 64" using size_inner_le [OF c] n by linarith
  ultimately obtain st' rq' vr where e: "enqueue_task (sys_tasks s) (inner_of s c) t
        = Some (st', rq', Some (task_weight_from_value (load_weight (se (sys_tasks s t)))))"
      "rq_inv st' rq'" "rq_queued rq' = add_mset t (rq_queued (inner_of s c))"
      "st' = upd_task t (\<lambda>i. i\<lparr>on_rq := True, on_cpu := False, se := (se i)\<lparr>vruntime := vr\<rparr>\<rparr>) (sys_tasks s)"
    using enqueue_task_spec [OF inner_inv [OF i c], of t] f sys_policy [OF i, of t] by auto
  let ?s2 = "set_inner c rq' (s\<lparr>sys_tasks := st'\<rparr>)"
  have q2: "sys_queued ?s2 = add_mset t (sys_queued s)"
    using sys_queued_set_inner [OF c, of rq' st'] e(3) by simp
  have "sys_inv ?s2"
  proof (rule sys_inv_set_inner [OF i c e(2)])
    show "same_sched (sys_tasks s) st' u" if "u \<in># sys_queued s" for u
      using that c0 e(4) by (auto simp: same_sched_def count_eq_zero_iff)
    show "flag_ok (st' u) (count (sys_queued ?s2) u)" for u
      using sys_flag [OF i, of u] c0 q2 e(4) by (auto simp: flag_ok_def)
    show "policy_ok (sched_policy (st' u))" for u using sys_policy [OF i, of u] e(4) by auto
  qed
  with e q2 show ?thesis by auto
qed

definition accepted :: "sched_sys \<Rightarrow> tid \<Rightarrow> nat \<Rightarrow> bool" where
  "accepted s t c \<longleftrightarrow> c < length (sys_rqs s) \<and> state (sys_tasks s t) \<noteq> Zombie \<and> \<not> on_rq (sys_tasks s t)"

text \<open>What an enqueue attempt of \<open>t\<close> on CPU \<open>c\<close> does to the system.\<close>

definition enq_result :: "sched_sys \<Rightarrow> tid \<Rightarrow> nat \<Rightarrow> sched_sys \<Rightarrow> bool \<Rightarrow> bool" where
  "enq_result s t c s' b \<longleftrightarrow> sys_inv s' \<and> length (sys_rqs s') = length (sys_rqs s)
     \<and> (\<forall>u. u \<noteq> t \<longrightarrow> sys_tasks s' u = sys_tasks s u)
     \<and> (b \<longleftrightarrow> accepted s t c)
     \<and> (if b then sys_queued s' = add_mset t (sys_queued s) \<and> on_rq (sys_tasks s' t)
               \<and> state (sys_tasks s' t) = Ready \<and> cpu (sys_tasks s' t) = c \<and> t \<in># rq_queued (inner_of s' c)
        else sys_queued s' = sys_queued s)"

lemma enq_result_same_core: "same_core s' s'' \<Longrightarrow> enq_result s t c s' b = enq_result s t c s'' b"
proof -
  assume a: "same_core s' s''"
  then have "inner_of s'' c = inner_of s' c \<or> \<not> c < length (sys_rqs s')"
    by (metis inner_of_def length_map nth_map same_core_def)
  then show ?thesis
    using same_core_inv [OF a] same_core_length [OF a] a
    by (auto simp: enq_result_def accepted_def same_core_def)
qed

lemma enqueue_on_cpu_spec:
  assumes i: "sys_inv s" and n: "Suc (size (sys_queued s)) < 2 ^ 64"
  shows "\<exists>s' b. enqueue_task_on_cpu s t c is_new = Some (s', b) \<and> enq_result s t c s' b"
proof (cases "c < length (sys_rqs s) \<and> state (sys_tasks s t) \<noteq> Zombie")
  case False
  show ?thesis
  proof (cases "c < length (sys_rqs s)")
    case True
    with False have z: "state (sys_tasks s t) = Zombie" by simp
    let ?s = "s\<lparr>sys_tasks := upd_task t (\<lambda>i. i\<lparr>on_rq := False, on_cpu := False\<rparr>) (sys_tasks s)\<rparr>"
    have "sys_inv ?s"
      by (rule sys_inv_upd_task [OF i]) (use z sys_flag [OF i, of t] sys_policy [OF i, of t] in \<open>auto simp: flag_ok_def\<close>)
    moreover have "sys_queued ?s = sys_queued s" by (simp add: sys_queued_def)
    ultimately show ?thesis using True z
      by (auto simp: enqueue_task_on_cpu_def normalize_cpu_def enq_result_def accepted_def)
  qed (use i in \<open>auto simp: enqueue_task_on_cpu_def normalize_cpu_def enq_result_def accepted_def\<close>)
next
  case c: True
  let ?f = "\<lambda>i. i\<lparr>cpu := c, state := Ready, on_cpu := False\<rparr>"
  let ?s = "s\<lparr>sys_tasks := upd_task t ?f (sys_tasks s)\<rparr>"
  have si: "sys_inv ?s"
    by (rule sys_inv_upd_task [OF i]) (use c sys_flag [OF i, of t] sys_policy [OF i, of t] in \<open>auto simp: flag_ok_def\<close>)
  have q: "sys_queued ?s = sys_queued s" by (simp add: sys_queued_def)
  show ?thesis
  proof (cases "on_rq (sys_tasks s t)")
    case True
    have "enqueue_task_on_cpu s t c is_new = Some (?s, False)"
      using c True by (simp add: enqueue_task_on_cpu_def normalize_cpu_def enqueue_task_def)
    with si q True show ?thesis by (auto simp: enq_result_def accepted_def)
  next
    case False
    have lt: "c < length (sys_rqs ?s)" using c by simp
    obtain st' rq' vr where e: "enqueue_task (sys_tasks ?s) (inner_of s c) t
          = Some (st', rq', Some (task_weight_from_value (load_weight (se (sys_tasks ?s t)))))"
        "sys_inv (set_inner c rq' (?s\<lparr>sys_tasks := st'\<rparr>))"
        "sys_queued (set_inner c rq' (?s\<lparr>sys_tasks := st'\<rparr>)) = add_mset t (sys_queued s)" "t \<in># rq_queued rq'"
        "st' = upd_task t (\<lambda>i. i\<lparr>on_rq := True, on_cpu := False, se := (se i)\<lparr>vruntime := vr\<rparr>\<rparr>) (sys_tasks ?s)"
      using enqueue_inner [OF si lt, of t] False c n q by auto
    let ?s2 = "set_inner c rq' (?s\<lparr>sys_tasks := st'\<rparr>)"
    let ?s3 = "if is_new then upd_view c (add_runnable (task_weight_from_value (load_weight (se (sys_tasks ?s t))))) ?s2 else ?s2"
    have "enqueue_task_on_cpu s t c is_new = Some (?s3, True)"
      using c e(1) by (simp add: enqueue_task_on_cpu_def normalize_cpu_def Let_def)
    moreover have "enq_result s t c ?s2 True"
      using e False c lt by (auto simp: enq_result_def accepted_def)
    then have "enq_result s t c ?s3 True" using enq_result_same_core [of ?s2 ?s3] by (simp split: if_splits)
    ultimately show ?thesis by blast
  qed
qed

subsection \<open>Selection\<close>

lemma allowed_fallback_bound: "0 < n \<Longrightarrow> allowed_fallback n a f < n"
  by (auto simp: allowed_fallback_def find_Some_iff split: option.split)

lemma allowed_fallback_allowed:
  assumes "c < n" "cpu_allowed a c"
  shows "cpu_allowed a (allowed_fallback n a f)"
proof (cases "cpu_allowed a f \<and> f < n")
  case False
  from assms obtain d where "List.find (cpu_allowed a) [0..<n] = Some d"
    by (cases "List.find (cpu_allowed a) [0..<n]") (auto simp: find_None_iff)
  moreover from this have "cpu_allowed a d" by (auto simp: find_Some_iff)
  ultimately show ?thesis using False by (auto simp: allowed_fallback_def)
qed (simp add: allowed_fallback_def)

text \<open>The candidates of a scan: the CPUs that are allowed and online.\<close>

definition eligible :: "rq_view list \<Rightarrow> usize \<Rightarrow> nat \<Rightarrow> bool" where
  "eligible vs allowed c \<longleftrightarrow> c < length vs \<and> cpu_allowed allowed c \<and> v_online (vs ! c)"

definition best_of :: "rq_view list \<Rightarrow> usize \<Rightarrow> nat \<Rightarrow> (nat \<Rightarrow> bool) \<Rightarrow> candidate option \<Rightarrow> bool" where
  "best_of vs weight preferred P r \<longleftrightarrow>
     (case r of
        None \<Rightarrow> \<forall>c. \<not> P c
      | Some k \<Rightarrow> \<exists>c. P c \<and> k = candidate_of vs weight preferred c
          \<and> (\<forall>d. P d \<longrightarrow> \<not> cand_less (candidate_of vs weight preferred d) k))"

lemma cand_less_trans: "cand_less a b \<Longrightarrow> cand_less b c \<Longrightarrow> cand_less a c"
  by (cases a; cases b; cases c) auto

lemma cand_less_irrefl [simp]: "\<not> cand_less a a"
  by (cases a) auto

lemma cand_less_linear: "cand_less a b \<or> a = b \<or> cand_less b a"
  by (cases a; cases b) auto

lemma not_cand_less_trans: "cand_less a b \<Longrightarrow> \<not> cand_less c b \<Longrightarrow> \<not> cand_less c a"
  using cand_less_linear [of c b] cand_less_trans by blast

lemma best_of_better:
  assumes "best_of vs w p P r"
  shows "best_of vs w p (\<lambda>d. P d \<or> d = c) (better (candidate_of vs w p c) r)"
proof (cases r)
  case None
  with assms show ?thesis by (auto simp: best_of_def better_def)
next
  case (Some k)
  let ?k = "candidate_of vs w p c"
  from assms Some obtain e where e: "P e" "k = candidate_of vs w p e"
      "\<And>d. P d \<Longrightarrow> \<not> cand_less (candidate_of vs w p d) k"
    by (auto simp: best_of_def)
  show ?thesis
  proof (cases "cand_less ?k k")
    case True
    then have "\<not> cand_less (candidate_of vs w p d) ?k" if "P d" for d
      using not_cand_less_trans [OF True e(3) [OF that]] by simp
    with Some True show ?thesis by (auto simp: best_of_def better_def)
  next
    case False
    with Some e show ?thesis by (auto simp: best_of_def better_def)
  qed
qed

lemma scan_cpus_best:
  assumes "scan_cpus vs allowed weight preferred = (best_idle, best_loaded)"
  shows "best_of vs weight preferred (\<lambda>c. eligible vs allowed c \<and> cpu_idle (vs ! c)) best_idle
     \<and> best_of vs weight preferred (\<lambda>c. eligible vs allowed c \<and> \<not> cpu_idle (vs ! c)) best_loaded"
proof -
  let ?step = "\<lambda>c (best_idle, best_loaded).
            if \<not> cpu_allowed allowed c \<or> \<not> v_online (vs ! c) then (best_idle, best_loaded)
            else if cpu_idle (vs ! c) then (better (candidate_of vs weight preferred c) best_idle, best_loaded)
            else (best_idle, better (candidate_of vs weight preferred c) best_loaded)"
  let ?ok = "\<lambda>n c. c < n \<and> cpu_allowed allowed c \<and> v_online (vs ! c)"
  have "case fold ?step [0..<n] (None, None) of (bi, bl) \<Rightarrow>
      best_of vs weight preferred (\<lambda>c. ?ok n c \<and> cpu_idle (vs ! c)) bi
      \<and> best_of vs weight preferred (\<lambda>c. ?ok n c \<and> \<not> cpu_idle (vs ! c)) bl" for n
  proof (induction n)
    case 0
    show ?case by (simp add: best_of_def)
  next
    case (Suc n)
    obtain bi bl where b: "fold ?step [0..<n] (None, None) = (bi, bl)" by fastforce
    let ?I = "\<lambda>c. ?ok n c \<and> cpu_idle (vs ! c)" and ?L = "\<lambda>c. ?ok n c \<and> \<not> cpu_idle (vs ! c)"
    have i: "best_of vs weight preferred ?I bi" and l: "best_of vs weight preferred ?L bl"
      using Suc b by auto
    have lt: "c < Suc n \<longleftrightarrow> c < n \<or> c = n" for c by auto
    consider "\<not> ?ok (Suc n) n" | "?ok (Suc n) n" "cpu_idle (vs ! n)" | "?ok (Suc n) n" "\<not> cpu_idle (vs ! n)" by blast
    then show ?case
    proof cases
      case 1
      then have "?ok (Suc n) c \<longleftrightarrow> ?ok n c" for c by (auto simp: lt)
      with i l b 1 show ?thesis by auto
    next
      case 2
      have "(?ok (Suc n) c \<and> cpu_idle (vs ! c)) = (?I c \<or> c = n)" "(?ok (Suc n) c \<and> \<not> cpu_idle (vs ! c)) = ?L c" for c
        using 2 by (auto simp: lt)
      with best_of_better [OF i, of n] l b 2 show ?thesis by simp
    next
      case 3
      have "(?ok (Suc n) c \<and> \<not> cpu_idle (vs ! c)) = (?L c \<or> c = n)" "(?ok (Suc n) c \<and> cpu_idle (vs ! c)) = ?I c" for c
        using 3 by (auto simp: lt)
      with best_of_better [OF l, of n] i b 3 show ?thesis by simp
    qed
  qed
  from this [of "length vs"] assms show ?thesis by (simp add: scan_cpus_def eligible_def conj_assoc)
qed

text \<open>
  The choice a scan of the views \<open>vs\<close> justifies: an eligible CPU, an idle one if there is any,
  and no eligible CPU of the same kind is a smaller candidate.
\<close>

definition best_choice :: "rq_view list \<Rightarrow> usize \<Rightarrow> usize \<Rightarrow> nat \<Rightarrow> nat \<Rightarrow> bool" where
  "best_choice vs allowed weight preferred c \<longleftrightarrow>
     eligible vs allowed c
     \<and> (cpu_idle (vs ! c) \<or> (\<forall>d < length vs. eligible vs allowed d \<longrightarrow> \<not> cpu_idle (vs ! d)))
     \<and> (\<forall>d < length vs. eligible vs allowed d \<and> cpu_idle (vs ! d) = cpu_idle (vs ! c) \<longrightarrow>
          \<not> cand_less (candidate_of vs weight preferred d) (candidate_of vs weight preferred c))"

lemma scan_cpus_choice:
  assumes s: "scan_cpus vs allowed weight preferred = (bi, bl)" and r: "or_else bi bl = Some (w, p, c, obs)"
  shows "best_choice vs allowed weight preferred c \<and> obs = v_reservations (vs ! c)"
proof -
  have k: "candidate_of vs weight preferred d = (w, p, c, obs) \<Longrightarrow> c = d \<and> obs = v_reservations (vs ! d)
      \<and> candidate_of vs weight preferred c = (w, p, c, obs)" for d
    by (auto simp: candidate_of_def Let_def view_snapshot_def)
  note b = scan_cpus_best [OF s]
  show ?thesis
  proof (cases bi)
    case None
    with r b show ?thesis by (auto simp: best_of_def best_choice_def or_else_def dest!: k [OF sym])
  next
    case (Some x)
    with r b show ?thesis by (auto simp: best_of_def best_choice_def or_else_def dest!: k [OF sym])
  qed
qed

lemma scan_cpus_none:
  assumes s: "scan_cpus vs allowed weight preferred = (bi, bl)" and r: "or_else bi bl = None"
  shows "\<not> eligible vs allowed c"
  using scan_cpus_best [OF s] r by (cases bi; cases bl) (auto simp: best_of_def or_else_def)

lemma select_loop_spec:
  assumes "retries < max (n * 2) 1"
  shows "let sel = select_loop scan cas n allowed weight preferred fallback retries in
    if sel_reserved sel
    then \<exists>k < max (n * 2) 1. best_choice (scan k) allowed weight preferred (sel_cpu sel)
           \<and> cas k (sel_cpu sel) = v_reservations (scan k ! sel_cpu sel)
    else sel_cpu sel = fallback"
  using assms
proof (induction scan cas n allowed weight preferred fallback retries rule: select_loop.induct)
  case (1 scan cas n allowed weight preferred fallback retries)
  obtain bi bl where s: "scan_cpus (scan retries) allowed weight preferred = (bi, bl)" by fastforce
  show ?case
  proof (cases "or_else bi bl")
    case None
    with s show ?thesis by (simp add: select_loop.simps [of scan] Let_def)
  next
    case (Some x)
    obtain w p c obs where x: "x = (w, p, c, obs)" by (metis surj_pair)
    note ch = scan_cpus_choice [OF s Some [unfolded x]]
    consider "cas retries c = obs" | "cas retries c \<noteq> obs" "Suc retries \<ge> max (n * 2) 1"
      | "cas retries c \<noteq> obs" "Suc retries < max (n * 2) 1" by linarith
    then show ?thesis
    proof cases
      case 1
      with s Some x ch "1.prems" show ?thesis by (auto simp: select_loop.simps [of scan] Let_def)
    next
      case 2
      with s Some x show ?thesis by (simp add: select_loop.simps [of scan])
    next
      case 3
      have e: "select_loop scan cas n allowed weight preferred fallback retries
            = select_loop scan cas n allowed weight preferred fallback (Suc retries)"
        using s Some x 3 by (subst select_loop.simps) simp
      show ?thesis unfolding e
        by (rule "1.IH" [OF s [symmetric] refl Some x [symmetric] refl refl]) (use 3 in auto)
    qed
  qed
qed

lemma select_task_rq_cases:
  assumes n: "0 < n" and l: "\<And>k. length (scan k) = n"
  shows "let sel = select_task_rq scan cas n i source prefer in
    sel_cpu sel < n
    \<and> ((\<exists>c < n. cpu_allowed (cpus_allowed i) c) \<longrightarrow> cpu_allowed (cpus_allowed i) (sel_cpu sel))
    \<and> (sel_reserved sel \<longrightarrow> (\<exists>k < n * 2. \<exists>preferred.
          best_choice (scan k) (cpus_allowed i) (task_weight_from_value (load_weight (se i))) preferred (sel_cpu sel)
          \<and> cas k (sel_cpu sel) = v_reservations (scan k ! sel_cpu sel)))"
proof -
  let ?a = "cpus_allowed i" and ?w = "task_weight_from_value (load_weight (se i))"
  define preferred where
    "preferred = (if cpu_allowed ?a prefer \<and> prefer < n then prefer else allowed_fallback n ?a source)"
  define f where "f = allowed_fallback n ?a preferred"
  have f: "f < n" "\<exists>c < n. cpu_allowed ?a c \<Longrightarrow> cpu_allowed ?a f"
    using allowed_fallback_bound [OF n] allowed_fallback_allowed by (auto simp: f_def)
  show ?thesis
  proof (cases "on_main_hart i \<or> n \<le> 1")
    case True
    with f show ?thesis by (simp add: select_task_rq_def Let_def f_def preferred_def)
  next
    case False
    let ?sel = "select_loop scan cas n ?a ?w preferred f 0"
    have e: "select_task_rq scan cas n i source prefer = ?sel"
      using False by (simp add: select_task_rq_def Let_def f_def preferred_def)
    note sp = select_loop_spec [of 0 n scan cas ?a ?w preferred f, simplified Let_def]
    show ?thesis
    proof (cases "sel_reserved ?sel")
      case True
      with sp n obtain k where k: "k < n * 2" "best_choice (scan k) ?a ?w preferred (sel_cpu ?sel)"
          "cas k (sel_cpu ?sel) = v_reservations (scan k ! sel_cpu ?sel)"
        by (auto split: if_splits simp: max_def)
      then have "sel_cpu ?sel < n \<and> cpu_allowed ?a (sel_cpu ?sel)" using l by (auto simp: best_choice_def eligible_def)
      with k e show ?thesis by (auto simp: Let_def)
    next
      case False
      with sp f e show ?thesis by (simp add: Let_def)
    qed
  qed
qed

lemma select_now_bound:
  assumes "0 < length (sys_rqs s)"
  shows "sel_cpu (snd (select_now s t a b)) < length (sys_rqs s)"
  using select_task_rq_cases [of "length (sys_rqs s)" "\<lambda>_. map sr_view (sys_rqs s)"] assms
  by (simp add: select_now_def Let_def)

subsection \<open>The enqueue paths\<close>

lemma enq_result_core: "same_core s s0 \<Longrightarrow> enq_result s0 t c s' b = enq_result s t c s' b"
  using same_core_inv [of s s0] same_core_length [of s s0]
  by (auto simp: enq_result_def accepted_def same_core_def)

lemma enqueue_on_cpu_core:
  assumes "sys_inv s" "Suc (size (sys_queued s)) < 2 ^ 64" "same_core s s0"
  shows "\<exists>s' b. enqueue_task_on_cpu s0 t c is_new = Some (s', b) \<and> enq_result s t c s' b"
  using enqueue_on_cpu_spec [of s0 t c is_new] same_core_inv [OF assms(3)] assms(1,2)
  by (simp add: enq_result_core [OF assms(3)])

lemma enqueue_selected_spec:
  assumes "sys_inv s" "Suc (size (sys_queued s)) < 2 ^ 64" "same_core s s0"
  shows "\<exists>s' b. enqueue_selected_task s0 t sel source is_new = Some (s', b) \<and> enq_result s t (sel_cpu sel) s' b"
proof -
  from enqueue_on_cpu_core [OF assms] obtain s' b where
    e: "enqueue_task_on_cpu s0 t (sel_cpu sel) is_new = Some (s', b)" "enq_result s t (sel_cpu sel) s' b" by blast
  let ?s = "if b then mark_resched_and_kick (sel_cpu sel) source (consume_if sel s') else consume_if sel s'"
  have "same_core s' ?s" by simp
  from e(2) [unfolded enq_result_same_core [OF this]] e(1) show ?thesis
    by (simp add: enqueue_selected_task_def Let_def)
qed

lemma enqueue_new_spec:
  assumes "sys_inv s" "Suc (size (sys_queued s)) < 2 ^ 64" "0 < length (sys_rqs s)"
  shows "\<exists>c s' b. c < length (sys_rqs s) \<and> enqueue_new_task hart s t p = Some s' \<and> enq_result s t c s' b"
proof -
  obtain s0 sel where s: "select_now s t (local_cpu s hart) p = (s0, sel)" by fastforce
  then have "same_core s s0" "sel_cpu sel < length (sys_rqs s)"
    using same_core_select [of s t] select_now_bound [OF assms(3), of t] by (metis fst_conv, metis snd_conv)
  with enqueue_selected_spec [OF assms(1,2), of s0 t sel "local_cpu s hart" True] s show ?thesis
    by (fastforce simp: enqueue_new_task_def)
qed

lemma enqueue_woken_spec:
  assumes "sys_inv s" "Suc (size (sys_queued s)) < 2 ^ 64" "0 < length (sys_rqs s)"
  shows "\<exists>c s' b. c < length (sys_rqs s) \<and> enqueue_woken_task hart s t src = Some (s', b) \<and> enq_result s t c s' b"
proof -
  obtain s0 sel where s: "select_now s t src (cpu (sys_tasks s t)) = (s0, sel)" by fastforce
  then have "same_core s s0" "sel_cpu sel < length (sys_rqs s)"
    using same_core_select [of s t] select_now_bound [OF assms(3), of t] by (metis fst_conv, metis snd_conv)
  with enqueue_selected_spec [OF assms(1,2), of s0 t sel "local_cpu s hart" True] s show ?thesis
    by (fastforce simp: enqueue_woken_task_def)
qed

lemma enqueue_resumed_spec:
  assumes "sys_inv s" "Suc (size (sys_queued s)) < 2 ^ 64" "0 < length (sys_rqs s)"
  shows "\<exists>c s' b. c < length (sys_rqs s) \<and> enqueue_resumed_task hart s t src = Some (s', b) \<and> enq_result s t c s' b"
proof -
  obtain s0 sel where s: "select_now s t src (cpu (sys_tasks s t)) = (s0, sel)" by fastforce
  then have c: "same_core s s0" "sel_cpu sel < length (sys_rqs s)"
    using same_core_select [of s t] select_now_bound [OF assms(3), of t] by (metis fst_conv, metis snd_conv)
  from enqueue_on_cpu_core [OF assms(1,2) c(1)] obtain s' b where
    e: "enqueue_task_on_cpu s0 t (sel_cpu sel) False = Some (s', b)" "enq_result s t (sel_cpu sel) s' b" by blast
  obtain s'' where "enqueue_resumed_task hart s t src = Some (s'', b)" "same_core s' s''"
    using s e(1) by (cases b) (auto simp: enqueue_resumed_task_def Let_def split: option.split)
  with e(2) c(2) show ?thesis using enq_result_same_core [of s' s''] by blast
qed

lemma add_to_pool_spec:
  assumes "sys_inv s" "Suc (size (sys_queued s)) < 2 ^ 64" "0 < length (sys_rqs s)"
  shows "\<exists>c s' b. c < length (sys_rqs s) \<and> add_task_into_pool hart s t = Some s' \<and> enq_result s t c s' b"
proof -
  let ?c = "case normalize_cpu s (cpu (sys_tasks s t)) of None \<Rightarrow> local_cpu s hart | Some c \<Rightarrow> c"
  have "?c < length (sys_rqs s)" using assms(3) by (simp add: normalize_cpu_def local_cpu_def min_def del: length_greater_0_conv) linarith
  with enqueue_on_cpu_spec [OF assms(1,2), of t ?c False] show ?thesis
    by (fastforce simp: add_task_into_pool_def)
qed

lemma accepted_enqueued:
  assumes "enq_result s t c s' b" "c < length (sys_rqs s)" "state (sys_tasks s t) \<noteq> Zombie" "\<not> on_rq (sys_tasks s t)"
  shows "b" "sys_queued s' = add_mset t (sys_queued s)" "state (sys_tasks s' t) = Ready" "on_rq (sys_tasks s' t)"
  using assms by (auto simp: enq_result_def accepted_def split: if_splits)

lemma enq_result_inv: "enq_result s t c s' b \<Longrightarrow> sys_inv s' \<and> length (sys_rqs s') = length (sys_rqs s)"
  by (simp add: enq_result_def)

lemma wake_up_spec:
  assumes i: "sys_inv s" and n: "Suc (size (sys_queued s)) < 2 ^ 64" and l: "0 < length (sys_rqs s)"
  shows "\<exists>s' b. wake_up_task hart s t = Some (s', b) \<and> sys_inv s' \<and> length (sys_rqs s') = length (sys_rqs s)
    \<and> (b \<longleftrightarrow> state (sys_tasks s t) = Blocked \<and> \<not> on_rq (sys_tasks s t))
    \<and> sys_queued s' = (if b then add_mset t (sys_queued s) else sys_queued s)
    \<and> (b \<longrightarrow> state (sys_tasks s' t) = Ready)
    \<and> (\<forall>u. u \<noteq> t \<or> state (sys_tasks s t) \<notin> {Blocked, BlockSaving} \<longrightarrow> sys_tasks s' u = sys_tasks s u)
    \<and> (state (sys_tasks s t) = BlockSaving \<longrightarrow> state (sys_tasks s' t) = BlockSaving \<and> wake_pending (sys_tasks s' t)
         \<and> wake_source_cpu (sys_tasks s' t) = Some hart)"
proof -
  note fl = sys_flag [OF i, of t] and p = sys_policy [OF i, of t]
  have q: "sys_queued (s\<lparr>sys_tasks := st\<rparr>) = sys_queued s" for st by (simp add: sys_queued_def)
  consider "state (sys_tasks s t) = Blocked" | "state (sys_tasks s t) = BlockSaving"
    | "state (sys_tasks s t) \<noteq> Blocked" "state (sys_tasks s t) \<noteq> BlockSaving" by blast
  then show ?thesis
  proof cases
    case 1
    let ?s = "s\<lparr>sys_tasks := upd_task t (state_update (\<lambda>_. Ready)) (sys_tasks s)\<rparr>"
    have "sys_inv ?s" by (rule sys_inv_upd_task [OF i]) (use fl p 1 in \<open>auto simp: flag_ok_def\<close>)
    from enqueue_woken_spec [OF this, of hart t hart] n l q obtain c s' b where
      "c < length (sys_rqs ?s)" "enqueue_woken_task hart ?s t hart = Some (s', b)" "enq_result ?s t c s' b" by auto
    with 1 q show ?thesis by (auto simp: wake_up_task_def enq_result_def accepted_def)
  next
    case 2
    have "sys_inv (s\<lparr>sys_tasks := upd_task t (\<lambda>i. i\<lparr>wake_pending := True, wake_source_cpu := Some hart\<rparr>) (sys_tasks s)\<rparr>)"
      by (rule sys_inv_upd_task [OF i]) (use fl p in \<open>auto simp: flag_ok_def\<close>)
    with 2 q show ?thesis by (auto simp: wake_up_task_def)
  qed (use i in \<open>auto simp: wake_up_task_def\<close>)
qed

subsection \<open>Taking tasks off the queues\<close>

lemma set_inner_tasks [simp]: "(set_inner c rq s)\<lparr>sys_tasks := st\<rparr> = set_inner c rq (s\<lparr>sys_tasks := st\<rparr>)"
  by (simp add: set_inner_def)

lemma take_off:
  assumes i: "sys_inv s" and c: "c < length (sys_rqs s)" and r: "rq_inv (sys_tasks s) rq"
    and q: "rq_queued (inner_of s c) = add_mset t (rq_queued rq)"
    and f: "\<not> on_rq (f (sys_tasks s t))" "sched_policy (f (sys_tasks s t)) = sched_policy (sys_tasks s t)"
      "vruntime (se (f (sys_tasks s t))) = vruntime (se (sys_tasks s t))"
  defines "s' \<equiv> set_inner c rq (s\<lparr>sys_tasks := upd_task t f (sys_tasks s)\<rparr>)"
  shows "sys_inv s'" "sys_queued s = add_mset t (sys_queued s')" "t \<notin># sys_queued s'"
proof -
  show e: "sys_queued s = add_mset t (sys_queued s')"
    using sys_queued_set_inner [OF c, of rq "upd_task t f (sys_tasks s)"] q by (simp add: s'_def)
  then have c1: "count (sys_queued s') t = 0" using sys_flag [OF i, of t] by (simp add: flag_ok_def)
  then show "t \<notin># sys_queued s'" by (simp add: count_eq_zero_iff)
  have ss: "same_sched (sys_tasks s) (upd_task t f (sys_tasks s)) u" for u using f by (simp add: same_sched_def)
  show "sys_inv s'" unfolding s'_def
  proof (rule sys_inv_set_inner [OF i c])
    show "rq_inv (upd_task t f (sys_tasks s)) rq" by (rule rq_inv_cong [OF r]) (rule ss)
    show "flag_ok (upd_task t f (sys_tasks s) u)
        (count (sys_queued (set_inner c rq (s\<lparr>sys_tasks := upd_task t f (sys_tasks s)\<rparr>))) u)" for u
      using sys_flag [OF i, of u] e c1 f(1) by (auto simp: flag_ok_def s'_def)
    show "policy_ok (sched_policy (upd_task t f (sys_tasks s) u))" for u
      using sys_policy [OF i] f(2) by simp
  qed (rule ss)
qed

lemma pop_on_cpu:
  assumes i: "sys_inv s" and c: "c < length (sys_rqs s)"
  obtains (Empty) "pop_next_task (sys_tasks s) (inner_of s c) = Some (inner_of s c, None)"
      "dl_tids (rq_deadline (inner_of s c)) = []" "cfs_tids (rq_cfs (inner_of s c)) = []"
      "rt_throttled (rq_rt (inner_of s c)) \<or> rt_queued (rq_rt (inner_of s c)) = {#}"
  | (Task) rq t where "pop_next_task (sys_tasks s) (inner_of s c) = Some (rq, Some t)"
      "rq_inv (sys_tasks s) rq" "rq_queued (inner_of s c) = add_mset t (rq_queued rq)" "serves (inner_of s c) t"
proof -
  from pop_spec [OF inner_inv [OF i c]] obtain rq r where
    p: "pop_next_task (sys_tasks s) (inner_of s c) = Some (rq, r)" "rq_inv (sys_tasks s) rq"
      "case r of
         None \<Rightarrow> rq = inner_of s c \<and> dl_tids (rq_deadline (inner_of s c)) = [] \<and> cfs_tids (rq_cfs (inner_of s c)) = []
            \<and> (rt_throttled (rq_rt (inner_of s c)) \<or> rt_queued (rq_rt (inner_of s c)) = {#})
       | Some t \<Rightarrow> rq_queued (inner_of s c) = add_mset t (rq_queued rq) \<and> serves (inner_of s c) t" by blast
  show thesis
  proof (cases r)
    case None
    with p show thesis by (intro Empty) auto
  next
    case (Some t)
    with p show thesis by (intro Task [of rq t]) auto
  qed
qed

lemma set_inner_own [simp]: "set_inner c (inner_of s c) s = s"
  by (simp add: set_inner_def inner_of_def)

text \<open>
  What \<open>fetch_task\<close> promises: it returns, it drops zombies only, the task it hands out has left
  the queues and is marked running on this CPU, and it hands out none only when the run queue
  has nothing to run.
\<close>

definition nothing_to_run :: "rqinner \<Rightarrow> bool" where
  "nothing_to_run rq \<longleftrightarrow> dl_tids (rq_deadline rq) = [] \<and> cfs_tids (rq_cfs rq) = []
     \<and> (rt_throttled (rq_rt rq) \<or> rt_queued (rq_rt rq) = {#})"

definition fetched :: "nat \<Rightarrow> sched_sys \<Rightarrow> sched_sys \<Rightarrow> tid option \<Rightarrow> tid multiset \<Rightarrow> bool" where
  "fetched hart s s' r zs \<longleftrightarrow> sys_inv s' \<and> length (sys_rqs s') = length (sys_rqs s)
     \<and> (\<forall>u \<in># zs. state (sys_tasks s u) = Zombie)
     \<and> (\<forall>u. u \<notin># zs \<and> r \<noteq> Some u \<longrightarrow> sys_tasks s' u = sys_tasks s u)
     \<and> (case r of
          None \<Rightarrow> sys_queued s = sys_queued s' + zs \<and> nothing_to_run (inner_of s' hart)
        | Some t \<Rightarrow> sys_queued s = add_mset t (sys_queued s' + zs) \<and> t \<notin># sys_queued s'
            \<and> state (sys_tasks s t) \<noteq> Zombie \<and> state (sys_tasks s' t) = Running \<and> on_cpu (sys_tasks s' t)
            \<and> \<not> on_rq (sys_tasks s' t) \<and> cpu (sys_tasks s' t) = hart)"

lemma fetched_trans:
  assumes "fetched hart s1 s' r zs" "sys_queued s = add_mset t (sys_queued s1)" "length (sys_rqs s1) = length (sys_rqs s)"
    "state (sys_tasks s t) = Zombie" "state (sys_tasks s1 t) = Zombie" "t \<notin># sys_queued s1"
    "\<And>u. u \<noteq> t \<Longrightarrow> sys_tasks s1 u = sys_tasks s u"
  shows "fetched hart s s' r (add_mset t zs)"
proof -
  have "\<forall>u \<in># add_mset t zs. state (sys_tasks s u) = Zombie" using assms by (auto simp: fetched_def) (metis assms(4,7))
  moreover have "r \<noteq> Some t" using assms(1,5,6) by (auto simp: fetched_def)
  ultimately show ?thesis using assms by (cases r) (auto simp: fetched_def)
qed

lemma fetch_task_spec:
  assumes "sys_inv s" "hart < length (sys_rqs s)"
  shows "\<exists>s' r zs. fetch_task hart s = Some (s', r) \<and> fetched hart s s' r zs"
  using assms
proof (induction "size (sys_queued s)" arbitrary: s rule: less_induct)
  case less
  from less.prems show ?case
  proof (cases rule: pop_on_cpu)
    case Empty
    with less.prems have "fetch_task hart s = Some (s, None)" by (subst fetch_task.simps) simp
    moreover have "fetched hart s s None {#}" using Empty less.prems by (simp add: fetched_def nothing_to_run_def)
    ultimately show ?thesis by blast
  next
    case (Task rq t)
    show ?thesis
    proof (cases "state (sys_tasks s t) = Zombie")
      case True
      let ?f = "\<lambda>i. i\<lparr>on_rq := False, on_cpu := False\<rparr>"
      let ?w = "task_weight_from_value (load_weight (se (sys_tasks s t)))"
      let ?s0 = "set_inner hart rq (s\<lparr>sys_tasks := upd_task t ?f (sys_tasks s)\<rparr>)"
      let ?s1 = "upd_view hart (remove_runnable ?w) ?s0"
      note t = take_off [OF less.prems Task(2,3), of ?f, simplified]
      have sc: "same_core ?s0 ?s1" by simp
      note sc2 = same_core_inv [OF sc]
      have q1: "sys_queued s = add_mset t (sys_queued ?s1)" "t \<notin># sys_queued ?s1" "sys_inv ?s1"
        using t sc2 by simp_all
      then have "size (sys_queued ?s1) < size (sys_queued s)" by simp
      from less.hyps [OF this q1(3)] less.prems obtain s' r zs where
        h: "fetch_task hart ?s1 = Some (s', r)" "fetched hart ?s1 s' r zs" by auto
      have "fetch_task hart s = fetch_task hart ?s1"
        using less.prems Task True by (subst fetch_task.simps) simp
      moreover have "fetched hart s s' r (add_mset t zs)"
        by (rule fetched_trans [OF h(2) q1(1)]) (use True q1 in auto)
      ultimately show ?thesis using h(1) by auto
    next
      case False
      let ?f = "\<lambda>i. i\<lparr>on_rq := False, cpu := hart, on_cpu := True, state := Running, need_resched := False\<rparr>"
      let ?s0 = "set_inner hart rq (s\<lparr>sys_tasks := upd_task t ?f (sys_tasks s)\<rparr>)"
      note t = take_off [OF less.prems Task(2,3), of ?f, simplified]
      have "fetch_task hart s = Some (?s0, Some t)" using less.prems Task False by (subst fetch_task.simps) simp
      moreover have "fetched hart s ?s0 (Some t) {#}" using t False by (auto simp: fetched_def)
      ultimately show ?thesis by blast
    qed
  qed
qed

definition stolen :: "sched_sys \<Rightarrow> nat \<Rightarrow> sched_sys \<Rightarrow> steal_result \<Rightarrow> bool" where
  "stolen s target s' r \<longleftrightarrow> sys_inv s' \<and> length (sys_rqs s') = length (sys_rqs s)
     \<and> (\<forall>u. u \<notin># sys_queued s \<longrightarrow> sys_tasks s' u = sys_tasks s u)
     \<and> (case r of
          StealNone \<Rightarrow> sys_queued s' = sys_queued s
        | Dropped w \<Rightarrow> \<exists>t. sys_queued s = add_mset t (sys_queued s') \<and> state (sys_tasks s t) = Zombie
        | Stolen t w \<Rightarrow> sys_queued s = add_mset t (sys_queued s') \<and> t \<notin># sys_queued s'
            \<and> state (sys_tasks s t) \<noteq> Zombie \<and> \<not> on_main_hart (sys_tasks s t) \<and> migratable (rt (sys_tasks s t))
            \<and> cpu_allowed (cpus_allowed (sys_tasks s t)) target \<and> cpu (sys_tasks s' t) = target
            \<and> \<not> on_rq (sys_tasks s' t) \<and> state (sys_tasks s' t) \<noteq> Zombie)"

lemma stolen_same_core: "same_core s' s'' \<Longrightarrow> stolen s c s' r = stolen s c s'' r"
  using same_core_inv [of s' s''] same_core_length [of s' s'']
  by (auto simp: stolen_def same_core_def split: steal_result.split)

lemma upd_task_twice: "upd_task t g (upd_task t f st) = upd_task t (\<lambda>i. g (f i)) st"
  by (auto simp: upd_task_def fun_eq_iff)

lemma steal_from_spec:
  assumes i: "sys_inv s" and n: "Suc (size (sys_queued s)) < 2 ^ 64"
  shows "\<exists>s' r. steal_task_from_cpu hart s source target = Some (s', r) \<and> stolen s target s' r"
proof (cases "target \<ge> length (sys_rqs s) \<or> source \<ge> length (sys_rqs s)")
  case True
  with i show ?thesis by (auto simp: steal_task_from_cpu_def stolen_def)
next
  case False
  then have c: "source < length (sys_rqs s)" by simp
  from i c show ?thesis
  proof (cases rule: pop_on_cpu)
    case Empty
    with False i show ?thesis by (auto simp: steal_task_from_cpu_def steal_task_def stolen_def)
  next
    case (Task rq t)
    let ?f = "on_rq_update (\<lambda>_. False)" and ?w = "task_weight_from_value (load_weight (se (sys_tasks s t)))"
    let ?s1 = "set_inner source rq (s\<lparr>sys_tasks := upd_task t ?f (sys_tasks s)\<rparr>)"
    note t = take_off [OF i c Task(2,3), of ?f, simplified]
    consider "state (sys_tasks s t) = Zombie"
      | "state (sys_tasks s t) \<noteq> Zombie" "\<not> on_main_hart (sys_tasks s t) \<and> cpu_allowed (cpus_allowed (sys_tasks s t)) target
            \<and> migratable (rt (sys_tasks s t))"
      | "state (sys_tasks s t) \<noteq> Zombie" "\<not> (\<not> on_main_hart (sys_tasks s t) \<and> cpu_allowed (cpus_allowed (sys_tasks s t)) target
            \<and> migratable (rt (sys_tasks s t)))" by blast
    then show ?thesis
    proof cases
      case 1
      have "steal_task_from_cpu hart s source target = Some (upd_view source (remove_runnable ?w) ?s1, Dropped ?w)"
        using False Task 1 by (simp add: steal_task_from_cpu_def steal_task_def Let_def)
      moreover have "stolen s target ?s1 (Dropped ?w)" using t 1 by (auto simp: stolen_def)
      then have "stolen s target (upd_view source (remove_runnable ?w) ?s1) (Dropped ?w)"
        using stolen_same_core [of ?s1 "upd_view source (remove_runnable ?w) ?s1"] by simp
      ultimately show ?thesis by blast
    next
      case 2
      let ?g = "\<lambda>i. i\<lparr>on_rq := False, cpu := target\<rparr>"
      let ?s2 = "set_inner source rq (s\<lparr>sys_tasks := upd_task t ?g (sys_tasks s)\<rparr>)"
      note t2 = take_off [OF i c Task(2,3), of ?g, simplified]
      have "stolen s target ?s2 (Stolen t ?w)" using t2 2 by (auto simp: stolen_def)
      moreover obtain s' where "steal_task_from_cpu hart s source target = Some (s', Stolen t ?w)" "same_core ?s2 s'"
        using False Task 2 by (auto simp: steal_task_from_cpu_def steal_task_def Let_def upd_task_twice)
      ultimately show ?thesis using stolen_same_core by blast
    next
      case 3
      have c1: "source < length (sys_rqs ?s1)" "inner_of ?s1 source = rq" using c by simp_all
      from t(2) n have "Suc (size (sys_queued ?s1)) < 2 ^ 64" by simp
      from enqueue_inner [OF t(1) c1(1) _ _ this, of t] 3 c1(2) obtain st' rq' w where
        e: "enqueue_task (upd_task t ?f (sys_tasks s)) rq t = Some (st', rq', w)"
          "sys_inv (set_inner source rq' (?s1\<lparr>sys_tasks := st'\<rparr>))"
          "sys_queued (set_inner source rq' (?s1\<lparr>sys_tasks := st'\<rparr>)) = add_mset t (sys_queued ?s1)"
          "\<And>u. u \<noteq> t \<Longrightarrow> st' u = sys_tasks s u" by auto
      have "set_inner source rq' (?s1\<lparr>sys_tasks := st'\<rparr>) = set_inner source rq' (s\<lparr>sys_tasks := st'\<rparr>)"
        using c by (simp add: set_inner_def)
      with e t(2) have "stolen s target (set_inner source rq' (s\<lparr>sys_tasks := st'\<rparr>)) StealNone"
        by (simp add: stolen_def)
      moreover have "steal_task_from_cpu hart s source target = Some (set_inner source rq' (s\<lparr>sys_tasks := st'\<rparr>), StealNone)"
        using False Task 3 e(1) by (auto simp: steal_task_from_cpu_def steal_task_def Let_def)
      ultimately show ?thesis by blast
    qed
  qed
qed

lemma idle_tasks_spec:
  assumes i: "sys_inv s" and n: "Suc (size (sys_queued s)) < 2 ^ 64"
  shows "\<exists>s' r x. idle_tasks hart s c = Some (s', r) \<and> stolen s c s' x \<and> (\<forall>t. r = Some t \<longleftrightarrow> (\<exists>w. x = Stolen t w))"
proof -
  have triv: "stolen s c s StealNone" using i by (simp add: stolen_def)
  show ?thesis
  proof (cases "c \<ge> length (sys_rqs s) \<or> busiest_cpu s c = None")
    case True
    with triv show ?thesis by (intro exI [of _ s] exI [of _ None] exI [of _ StealNone]) (auto simp: idle_tasks_def)
  next
    case False
    then obtain r where r: "busiest_cpu s c = Some r" "c < length (sys_rqs s)" by auto
    from steal_from_spec [OF i n] obtain s' x where "steal_task_from_cpu hart s r c = Some (s', x)" "stolen s c s' x" by blast
    with r show ?thesis
      by (intro exI [of _ s'] exI [of _ "case x of Stolen t _ \<Rightarrow> Some t | _ \<Rightarrow> None"] exI [of _ x])
        (auto simp: idle_tasks_def split: steal_result.splits)
  qed
qed

lemma inner_of_set_inner: "c < length (sys_rqs s) \<Longrightarrow> inner_of (set_inner c rq s) d = (if d = c then rq else inner_of s d)"
  by (simp add: inner_of_def set_inner_def)

lemma inner_of_upd_view [simp]: "d < length (sys_rqs s) \<Longrightarrow> inner_of (upd_view c f s) d = inner_of s d"
  by (simp add: inner_of_def)

lemma remove_from_queues_spec:
  assumes "sys_inv s" "set cs \<subseteq> {..<length (sys_rqs s)}"
  shows "\<exists>s'. remove_from_queues s t cs = Some s' \<and> sys_inv s' \<and> length (sys_rqs s') = length (sys_rqs s)
    \<and> (\<forall>u. (u \<noteq> t \<longrightarrow> sys_tasks s' u = sys_tasks s u) \<and> state (sys_tasks s' u) = state (sys_tasks s u))
    \<and> sys_queued s = sys_queued s' + (if \<exists>c \<in> set cs. t \<in># rq_queued (inner_of s c) then {#t#} else {#})"
  using assms
proof (induction cs arbitrary: s)
  case (Cons c cs)
  then have i: "sys_inv s" and c: "c < length (sys_rqs s)" by simp_all
  from remove_spec [OF inner_inv [OF i c], of t] obtain rq' st' r where
    r: "rq_remove_task (sys_tasks s) (inner_of s c) t = Some (st', rq', r)" "rq_inv (sys_tasks s) rq'"
      "if t \<in># rq_queued (inner_of s c)
       then r = Some (task_weight_from_value (load_weight (se (sys_tasks s t)))) \<and> st' = upd_task t (on_rq_update (\<lambda>_. False)) (sys_tasks s)
          \<and> rq_queued (inner_of s c) = add_mset t (rq_queued rq')
       else r = None \<and> st' = sys_tasks s \<and> rq_queued rq' = rq_queued (inner_of s c)" by blast
  let ?s = "set_inner c rq' (s\<lparr>sys_tasks := st'\<rparr>)"
  show ?case
  proof (cases "t \<in># rq_queued (inner_of s c)")
    case True
    with r(3) have e: "r = Some (task_weight_from_value (load_weight (se (sys_tasks s t))))"
        "st' = upd_task t (on_rq_update (\<lambda>_. False)) (sys_tasks s)" "rq_queued (inner_of s c) = add_mset t (rq_queued rq')" by auto
    let ?s1 = "upd_view c (remove_runnable (task_weight_from_value (load_weight (se (sys_tasks s t))))) ?s"
    have "same_core ?s ?s1" by simp
    note k = same_core_inv [OF this]
    note t = take_off [OF i c r(2) e(3), of "on_rq_update (\<lambda>_. False)", simplified]
    have "remove_from_queues s t (c # cs) = Some ?s1" using r(1) e(1) by simp
    moreover have "sys_inv ?s1" "sys_queued s = sys_queued ?s1 + {#t#}"
      using k t(1,2) unfolding e(2) by simp_all
    ultimately show ?thesis using True e(2) by simp
  next
    case False
    with r(3) have e: "r = None" "st' = sys_tasks s" "rq_queued rq' = rq_queued (inner_of s c)" by auto
    then have s: "?s = set_inner c rq' s" by (simp add: set_inner_def)
    have q: "sys_queued ?s = sys_queued s" using sys_queued_set_inner [OF c, of rq' st'] e(3) by simp
    have "sys_inv ?s"
      by (rule sys_inv_set_inner [OF i c]) (use e(2) r(2) q sys_flag [OF i] sys_policy [OF i] in \<open>auto simp: same_sched_def\<close>)
    moreover have "rq_queued (inner_of ?s d) = rq_queued (inner_of s d)" for d
      using e c by (simp add: inner_of_set_inner)
    moreover have "remove_from_queues s t (c # cs) = remove_from_queues ?s t cs" using r(1) e(1) by simp
    ultimately show ?thesis using Cons.IH [of ?s] Cons.prems(2) False q e(2) by simp
  qed
qed simp

lemma mem_sum_list_mset: "t \<in># sum_list (map f xs) \<longleftrightarrow> (\<exists>x \<in> set xs. t \<in># f x)"
  by (induction xs) auto

lemma sys_queued_iff: "t \<in># sys_queued s \<longleftrightarrow> (\<exists>c < length (sys_rqs s). t \<in># rq_queued (inner_of s c))"
  by (auto simp: sys_queued_def mem_sum_list_mset in_set_conv_nth inner_of_def) (metis nth_mem)

lemma remove_all_spec:
  assumes i: "sys_inv s"
  shows "\<exists>s'. remove_task_from_all_local_queues s t = Some s' \<and> sys_inv s' \<and> length (sys_rqs s') = length (sys_rqs s)
    \<and> t \<notin># sys_queued s' \<and> \<not> on_rq (sys_tasks s' t) \<and> sys_queued s = sys_queued s' + (if t \<in># sys_queued s then {#t#} else {#})
    \<and> (\<forall>u. (u \<noteq> t \<longrightarrow> sys_tasks s' u = sys_tasks s u) \<and> state (sys_tasks s' u) = state (sys_tasks s u))"
proof -
  have "set [0..<length (sys_rqs s)] \<subseteq> {..<length (sys_rqs s)}" by auto
  from remove_from_queues_spec [OF i this, of t] obtain s' where
    r: "remove_task_from_all_local_queues s t = Some s'" "sys_inv s'" "length (sys_rqs s') = length (sys_rqs s)"
      "\<forall>u. (u \<noteq> t \<longrightarrow> sys_tasks s' u = sys_tasks s u) \<and> state (sys_tasks s' u) = state (sys_tasks s u)"
      "sys_queued s = sys_queued s' + (if t \<in># sys_queued s then {#t#} else {#})"
    unfolding remove_task_from_all_local_queues_def sys_queued_iff by auto
  have "count (sys_queued s) t \<le> 1" using sys_flag [OF i, of t] by (simp add: flag_ok_def)
  moreover have "count (sys_queued s) t = count (sys_queued s') t + (if t \<in># sys_queued s then 1 else 0)"
    using arg_cong [OF r(5), of "\<lambda>m. count m t"] by simp
  ultimately have t: "count (sys_queued s') t = 0" by (cases "count (sys_queued s) t = 0") (auto simp: not_in_iff split: if_splits)
  then have "t \<notin># sys_queued s'" "\<not> on_rq (sys_tasks s' t)"
    using sys_flag [OF r(2), of t] by (simp_all add: flag_ok_def not_in_iff)
  with r show ?thesis by blast
qed

lemma sys_new_queued [simp]: "sys_queued (sys_new n st) = {#}"
  by (induction n) (simp_all add: sys_queued_def sys_new_def rq_inv_new)

lemma sys_inv_new:
  assumes "\<And>t. \<not> on_rq (st t)" "\<And>t. policy_ok (sched_policy (st t))"
  shows "sys_inv (sys_new n st)"
  using assms sys_new_queued [of n st] unfolding sys_inv_def
  by (simp add: flag_ok_def del: sys_new_queued) (simp add: sys_new_def rq_inv_new)

end
