(* ===== verification/Sched_Props.thy ===== *)
theory Sched_Props
  imports Sched_System
begin

text \<open>
  The scheduler as a transition system.  A configuration is the run queues with the task each
  CPU runs and the tasks created so far; its steps are the operations of \<open>Sched_System\<close> in any
  order on any CPU.  The theorems: a task is queued at most once and never while it runs, the
  operations never panic, a blocked task whose wakeup raced with its block is not lost, a
  wakeup finds a CPU the task may run on, and a sleeping CPU is interrupted for new work.
\<close>

subsection \<open>Coming back from a task\<close>

lemma advance_spec:
  assumes i: "sys_inv s"
  shows "sys_inv (advance_cfs_min_vruntime s c)" "sys_queued (advance_cfs_min_vruntime s c) = sys_queued s"
    "sys_tasks (advance_cfs_min_vruntime s c) = sys_tasks s"
    "length (sys_rqs (advance_cfs_min_vruntime s c)) = length (sys_rqs s)"
proof -
  let ?q = "inner_of s c" let ?rq = "?q\<lparr>rq_cfs := cfs_advance_min_vruntime (rq_cfs ?q)\<rparr>"
  show "sys_tasks (advance_cfs_min_vruntime s c) = sys_tasks s"
    "length (sys_rqs (advance_cfs_min_vruntime s c)) = length (sys_rqs s)"
    by (auto simp: advance_cfs_min_vruntime_def split: option.split)
  have "sys_inv (advance_cfs_min_vruntime s c) \<and> sys_queued (advance_cfs_min_vruntime s c) = sys_queued s"
  proof (cases "c < length (sys_rqs s)")
    case True
    have e: "set_inner c ?rq s = advance_cfs_min_vruntime s c"
      using True by (simp add: advance_cfs_min_vruntime_def normalize_cpu_def)
    note r = inner_inv [OF i True]
    have a: "cfs_inv (sys_tasks s) (rq_cfs ?q)" using r by (simp add: rq_inv_def)
    have q: "rq_queued ?rq = rq_queued ?q" by (simp add: rq_queued_def cfs_tids_def cfs_advance_min_vruntime_def split: option.split)
    have r': "rq_inv (sys_tasks s) ?rq" using r cfs_advance_spec(1) [OF a] q by (simp add: rq_inv_def)
    have sq: "sys_queued (advance_cfs_min_vruntime s c) = sys_queued s"
      using sys_queued_set_inner [OF True, of ?rq "sys_tasks s"] q by (simp add: e)
    moreover have "sys_inv (set_inner c ?rq (s\<lparr>sys_tasks := sys_tasks s\<rparr>))"
      by (rule sys_inv_set_inner [OF i True r']) (use sq sys_flag [OF i] sys_policy [OF i] in \<open>auto simp: same_sched_def e\<close>)
    ultimately show ?thesis by (simp add: e)
  qed (use i in \<open>simp add: advance_cfs_min_vruntime_def normalize_cpu_def\<close>)
  then show "sys_inv (advance_cfs_min_vruntime s c)" "sys_queued (advance_cfs_min_vruntime s c) = sys_queued s"
    by simp_all
qed

lemma stopped_core [simp]: "same_core s (scheduler_task_stopped c w s') = same_core s s'"
  by (auto simp: scheduler_task_stopped_def split: option.split)

lemma commit_block_simps [simp]:
  "on_rq (fst (commit_block now i)) = on_rq i" "sched_policy (fst (commit_block now i)) = sched_policy i"
  "state (fst (commit_block now i)) =
     (if state i = BlockSaving then if wake_pending i then Ready else Blocked else state i)"
  by (auto simp: commit_block_def Let_def)

lemma switch_back_spec:
  fixes now :: u64
  assumes i: "sys_inv s" and t: "t \<notin># sys_queued s" and n: "Suc (size (sys_queued s)) < 2 ^ 64"
    and l: "0 < length (sys_rqs s)"
  defines "i' \<equiv> fst (commit_block now (sys_tasks s t))"
  shows "\<exists>s'. switch_back hart now s t = Some s' \<and> sys_inv s' \<and> length (sys_rqs s') = length (sys_rqs s)
    \<and> (\<forall>u. u \<noteq> t \<longrightarrow> sys_tasks s' u = sys_tasks s u)
    \<and> (if state i' = Ready then sys_queued s' = add_mset t (sys_queued s) \<and> state (sys_tasks s' t) = Ready
       else sys_queued s' = sys_queued s \<and> sys_tasks s' t = i')"
proof -
  obtain ws where c: "commit_block now (sys_tasks s t) = (i', ws)" by (cases "commit_block now (sys_tasks s t)") (simp add: i'_def)
  let ?s = "s\<lparr>sys_tasks := upd_task t (\<lambda>_. i') (sys_tasks s)\<rparr>"
  have nq: "\<not> on_rq (sys_tasks s t)" using sys_flag [OF i, of t] t by (auto simp: flag_ok_def not_in_iff)
  have si: "sys_inv ?s"
    by (rule sys_inv_upd_task [OF i]) (use t nq sys_policy [OF i, of t] in \<open>auto simp: i'_def flag_ok_def not_in_iff\<close>)
  have q: "sys_queued ?s = sys_queued s" by (simp add: sys_queued_def)
  show ?thesis
  proof (cases "state i' = Ready")
    case True
    from n q have n': "Suc (size (sys_queued ?s)) < 2 ^ 64" by simp
    have l': "0 < length (sys_rqs ?s)" using l by simp
    obtain d s' b where "d < length (sys_rqs ?s)" "switch_back hart now s t = Some s'" "enq_result ?s t d s' b"
      using enqueue_resumed_spec [OF si n' l', of hart t "the ws"] add_to_pool_spec [OF si n' l', of hart t] c True
      by (cases ws) (auto simp: switch_back_def)
    with True nq q show ?thesis
      by (auto simp: enq_result_def accepted_def i'_def split: if_splits)
  next
    case False
    let ?s1 = "scheduler_task_stopped (cpu i') (load_weight (se i')) ?s"
    have sc: "same_core ?s ?s1" by simp
    note k = same_core_inv [OF sc] same_core_length [OF sc]
    have st: "sys_tasks ?s1 = sys_tasks ?s" using sc by (simp add: same_core_def)
    have "sys_inv ?s1" using k si by simp
    from advance_spec [OF this, of "cpu i'"] k st q False c this show ?thesis
      by (simp add: switch_back_def Let_def)
  qed
qed

subsection \<open>Configurations\<close>

text \<open>
  The scheduler loop of one CPU up to the context switch: its own queue first, then a task
  stolen from the busiest CPU.
\<close>

definition run_pick :: "nat \<Rightarrow> u64 \<Rightarrow> sched_sys \<Rightarrow> (sched_sys \<times> tid option) option" where
  "run_pick hart now s =
     do { (s, r) \<leftarrow> fetch_task hart s;
          (s, r) \<leftarrow> (case r of Some t \<Rightarrow> Some (s, Some t) | None \<Rightarrow> idle_tasks hart s hart);
          Some (case r of None \<Rightarrow> (s, None) | Some t \<Rightarrow> (dispatch_task hart now s t, Some t)) }"

record sched_conf =
  c_sys :: sched_sys
  c_current :: "nat \<Rightarrow> tid option"
  c_known :: "tid set"

definition conf_inv :: "sched_conf \<Rightarrow> bool" where
  "conf_inv c \<longleftrightarrow> sys_inv (c_sys c) \<and> 0 < length (sys_rqs (c_sys c))
     \<and> set_mset (sys_queued (c_sys c)) \<subseteq> c_known c \<and> Suc (card (c_known c)) < 2 ^ 64
     \<and> (\<forall>h t. c_current c h = Some t \<longrightarrow>
          t \<in> c_known c \<and> t \<notin># sys_queued (c_sys c) \<and> state (sys_tasks (c_sys c) t) \<noteq> Blocked
          \<and> (\<forall>h'. c_current c h' = Some t \<longrightarrow> h' = h))"

text \<open>
  What a running task may write into its own entry: its state (suspend, block, exit), its
  scheduling class, anything but the flag the run queues own.  Only the scheduler publishes
  \<open>Blocked\<close>.
\<close>

definition self_write :: "task_inner \<Rightarrow> task_inner \<Rightarrow> bool" where
  "self_write i i' \<longleftrightarrow> on_rq i' = on_rq i \<and> state i' \<noteq> Blocked \<and> policy_ok (sched_policy i')"

inductive conf_step :: "sched_conf \<Rightarrow> sched_conf \<Rightarrow> bool" where
  New: "t \<notin> c_known c \<Longrightarrow> Suc (Suc (card (c_known c))) < 2 ^ 64 \<Longrightarrow> enqueue_new_task h (c_sys c) t p = Some s
      \<Longrightarrow> conf_step c (c\<lparr>c_sys := s, c_known := insert t (c_known c)\<rparr>)"
| Wake: "t \<in> c_known c \<Longrightarrow> wake_up_task h (c_sys c) t = Some (s, b) \<Longrightarrow> conf_step c (c\<lparr>c_sys := s\<rparr>)"
| Pick: "c_current c h = None \<Longrightarrow> h < length (sys_rqs (c_sys c)) \<Longrightarrow> run_pick h now (c_sys c) = Some (s, r)
      \<Longrightarrow> conf_step c (c\<lparr>c_sys := s, c_current := (c_current c)(h := r)\<rparr>)"
| Self: "c_current c h = Some t \<Longrightarrow> self_write (sys_tasks (c_sys c) t) i
      \<Longrightarrow> conf_step c (c\<lparr>c_sys := (c_sys c)\<lparr>sys_tasks := upd_task t (\<lambda>_. i) (sys_tasks (c_sys c))\<rparr>\<rparr>)"
| Back: "c_current c h = Some t \<Longrightarrow> switch_back h now (c_sys c) t = Some s
      \<Longrightarrow> conf_step c (c\<lparr>c_sys := s, c_current := (c_current c)(h := None)\<rparr>)"
| Remove: "remove_task_from_all_local_queues (c_sys c) t = Some s \<Longrightarrow> conf_step c (c\<lparr>c_sys := s\<rparr>)"
| View: "same_core (c_sys c) s \<Longrightarrow> conf_step c (c\<lparr>c_sys := s\<rparr>)"

definition conf_new :: "nat \<Rightarrow> task_store \<Rightarrow> sched_conf" where
  "conf_new n st = \<lparr>c_sys = sys_new n st, c_current = (\<lambda>_. None), c_known = {}\<rparr>"

lemma conf_inv_new:
  assumes "0 < n" "\<And>t. \<not> on_rq (st t)" "\<And>t. policy_ok (sched_policy (st t))"
  shows "conf_inv (conf_new n st)"
proof -
  have "sys_inv (sys_new n st)" by (rule sys_inv_new) (use assms in auto)
  moreover have "length (sys_rqs (sys_new n st)) = n" by (simp add: sys_new_def)
  ultimately show ?thesis using assms(1) by (simp add: conf_inv_def conf_new_def)
qed

lemma size_queued_le:
  assumes "sys_inv s" "set_mset (sys_queued s) \<subseteq> K"
  shows "size (sys_queued s) \<le> card (K :: tid set)"
proof -
  have "count (sys_queued s) t = 1" if "t \<in># sys_queued s" for t
    using sys_flag [OF assms(1), of t] that by (auto simp: flag_ok_def le_Suc_eq count_eq_zero_iff)
  then have "size (sys_queued s) = card (set_mset (sys_queued s))"
    by (simp add: size_multiset_overloaded_eq)
  then show ?thesis using card_mono [OF _ assms(2)] by simp
qed

lemma conf_room: "conf_inv c \<Longrightarrow> Suc (size (sys_queued (c_sys c))) < 2 ^ 64"
  using size_queued_le [of "c_sys c" "c_known c"] by (simp add: conf_inv_def)

lemma dispatch_simps [simp]:
  "sys_tasks (dispatch_task h now s t) = upd_task t (\<lambda>i. i\<lparr>cpu := h, on_rq := False, on_cpu := True, state := Running,
     need_resched := False, se := (se i)\<lparr>exec_start := now\<rparr>\<rparr>) (sys_tasks s)"
  "sys_queued (dispatch_task h now s t) = sys_queued s" "length (sys_rqs (dispatch_task h now s t)) = length (sys_rqs s)"
proof -
  have "same_core s (scheduler_cpu_running h s)"
    by (auto simp: scheduler_cpu_running_def set_idle_raw_def split: option.split)
  note sc = same_core_inv [OF this] same_core_length [OF this] this
  show "sys_tasks (dispatch_task h now s t) = upd_task t (\<lambda>i. i\<lparr>cpu := h, on_rq := False, on_cpu := True, state := Running,
     need_resched := False, se := (se i)\<lparr>exec_start := now\<rparr>\<rparr>) (sys_tasks s)"
    using sc(4) by (simp add: dispatch_task_def same_core_def)
  show "sys_queued (dispatch_task h now s t) = sys_queued s" "length (sys_rqs (dispatch_task h now s t)) = length (sys_rqs s)"
    using sc(2,3) by (simp_all add: dispatch_task_def Let_def sys_queued_def)
qed

lemma dispatch_inv:
  assumes i: "sys_inv s" and t: "t \<notin># sys_queued s"
  shows "sys_inv (dispatch_task h now s t)"
proof -
  have "same_core s (scheduler_cpu_running h s)"
    by (auto simp: scheduler_cpu_running_def set_idle_raw_def split: option.split)
  note sc = same_core_inv [OF this]
  have i': "sys_inv (scheduler_cpu_running h s)" using sc i by simp
  show ?thesis unfolding dispatch_task_def Let_def
    by (rule sys_inv_upd_task [OF i']) (use t sc sys_policy [OF i', of t] in \<open>auto simp: flag_ok_def not_in_iff\<close>)
qed

lemma run_pick_spec:
  assumes i: "sys_inv s" and n: "Suc (size (sys_queued s)) < 2 ^ 64" and h: "h < length (sys_rqs s)"
  shows "\<exists>s' r. run_pick h now s = Some (s', r) \<and> sys_inv s' \<and> length (sys_rqs s') = length (sys_rqs s)
    \<and> sys_queued s' \<subseteq># sys_queued s \<and> (\<forall>u. u \<notin># sys_queued s \<longrightarrow> sys_tasks s' u = sys_tasks s u)
    \<and> (case r of None \<Rightarrow> True | Some t \<Rightarrow> t \<in># sys_queued s \<and> t \<notin># sys_queued s' \<and> state (sys_tasks s' t) = Running
         \<and> cpu (sys_tasks s' t) = h)"
proof -
  from fetch_task_spec [OF i h] obtain s1 r zs where f: "fetch_task h s = Some (s1, r)" "fetched h s s1 r zs" by blast
  show ?thesis
  proof (cases r)
    case (Some t)
    with f have "sys_inv s1" "t \<notin># sys_queued s1" "sys_queued s = add_mset t (sys_queued s1 + zs)" "length (sys_rqs s1) = length (sys_rqs s)"
      "\<And>u. u \<notin># sys_queued s \<Longrightarrow> sys_tasks s1 u = sys_tasks s u" by (auto simp: fetched_def)
    with f Some dispatch_inv [of s1 t h now] show ?thesis by (auto simp: run_pick_def intro: subset_mset.order_trans)
  next
    case None
    with f have k: "sys_inv s1" "sys_queued s = sys_queued s1 + zs" "length (sys_rqs s1) = length (sys_rqs s)"
      "\<And>u. u \<notin># sys_queued s \<Longrightarrow> sys_tasks s1 u = sys_tasks s u" by (auto simp: fetched_def)
    with n have "Suc (size (sys_queued s1)) < 2 ^ 64" by simp
    from idle_tasks_spec [OF k(1) this, of h h] obtain s2 q x where
      d: "idle_tasks h s1 h = Some (s2, q)" "stolen s1 h s2 x" "\<And>t. q = Some t \<longleftrightarrow> (\<exists>w. x = Stolen t w)" by blast
    show ?thesis
    proof (cases q)
      case (Some t)
      with d(3) obtain w where "x = Stolen t w" by blast
      with d(2) have "\<And>u. u \<notin># sys_queued s1 \<Longrightarrow> sys_tasks s2 u = sys_tasks s1 u" "sys_inv s2" "t \<notin># sys_queued s2" "sys_queued s1 = add_mset t (sys_queued s2)" "length (sys_rqs s2) = length (sys_rqs s1)"
        by (simp_all add: stolen_def)
      with f None d(1) Some k dispatch_inv [of s2 t h now] show ?thesis by (auto simp: run_pick_def intro: subset_mset.order_trans)
    next
      case None2: None
      with d(2,3) have "\<And>u. u \<notin># sys_queued s1 \<Longrightarrow> sys_tasks s2 u = sys_tasks s1 u" "sys_inv s2" "sys_queued s2 \<subseteq># sys_queued s1" "length (sys_rqs s2) = length (sys_rqs s1)"
        by (auto simp: stolen_def split: steal_result.splits)
      with f None d(1) None2 k show ?thesis by (auto simp: run_pick_def intro: subset_mset.order_trans)
    qed
  qed
qed

lemma conf_keep:
  assumes c: "conf_inv c" and s: "sys_inv s" "length (sys_rqs s) = length (sys_rqs (c_sys c))"
    and q: "set_mset (sys_queued s) \<subseteq> K" "c_known c \<subseteq> K" "Suc (card K) < 2 ^ 64"
    and r: "\<And>h t. r h = Some t \<Longrightarrow> t \<in> K \<and> t \<notin># sys_queued s \<and> state (sys_tasks s t) \<noteq> Blocked"
      "\<And>h h' t. r h = Some t \<Longrightarrow> r h' = Some t \<Longrightarrow> h' = h"
  shows "conf_inv (c\<lparr>c_sys := s, c_current := r, c_known := K\<rparr>)"
  using assms by (auto simp: conf_inv_def)

lemma conf_current:
  assumes "conf_inv c" "c_current c h = Some t"
  shows "t \<in> c_known c" "t \<notin># sys_queued (c_sys c)" "state (sys_tasks (c_sys c) t) \<noteq> Blocked"
    "c_current c h' = Some t \<Longrightarrow> h' = h"
  using assms by (auto simp: conf_inv_def)

lemma conf_step_inv:
  assumes c: "conf_inv c" and st: "conf_step c c'"
  shows "conf_inv c'"
proof -
  note cur = conf_current [OF c] and room = conf_room [OF c]
  from c have i: "sys_inv (c_sys c)" and l: "0 < length (sys_rqs (c_sys c))"
    and k: "set_mset (sys_queued (c_sys c)) \<subseteq> c_known c" "Suc (card (c_known c)) < 2 ^ 64" by (auto simp: conf_inv_def)
  from st show ?thesis
  proof cases
    case (New t h p s)
    from enqueue_new_spec [OF i room l, of h t p] New obtain d b where "enq_result (c_sys c) t d s b" by auto
    then have e: "sys_inv s" "length (sys_rqs s) = length (sys_rqs (c_sys c))"
      "\<And>u. u \<noteq> t \<Longrightarrow> sys_tasks s u = sys_tasks (c_sys c) u" "set_mset (sys_queued s) \<subseteq> insert t (set_mset (sys_queued (c_sys c)))"
      by (auto simp: enq_result_def split: if_splits)
    have ne: "u \<noteq> t" if "c_current c h' = Some u" for h' u using cur(1) [OF that] New(2) by auto
    have "conf_inv (c\<lparr>c_sys := s, c_current := c_current c, c_known := insert t (c_known c)\<rparr>)"
    proof (rule conf_keep [OF c e(1,2)])
      show "set_mset (sys_queued s) \<subseteq> insert t (c_known c)" using e(4) k(1) by blast
      show "Suc (card (insert t (c_known c))) < 2 ^ 64" using New(2,3) by simp
      show "u \<in> insert t (c_known c) \<and> u \<notin># sys_queued s \<and> state (sys_tasks s u) \<noteq> Blocked"
        if "c_current c h = Some u" for h u
        using cur(1-3) [OF that] ne [OF that] e(3) [of u] e(4) by auto
    qed (use cur(4) in auto)
    with New(1) show ?thesis by simp
  next
    case (Wake t h s b)
    from wake_up_spec [OF i room l, of h t] Wake(3) have w: "sys_inv s" "length (sys_rqs s) = length (sys_rqs (c_sys c))"
        "b \<Longrightarrow> state (sys_tasks (c_sys c) t) = Blocked"
        "sys_queued s = (if b then add_mset t (sys_queued (c_sys c)) else sys_queued (c_sys c))"
        "\<And>u. u \<noteq> t \<or> state (sys_tasks (c_sys c) t) \<notin> {Blocked, BlockSaving} \<Longrightarrow> sys_tasks s u = sys_tasks (c_sys c) u"
        "state (sys_tasks (c_sys c) t) = BlockSaving \<Longrightarrow> state (sys_tasks s t) = BlockSaving" by auto
    have nb: "state (sys_tasks s u) \<noteq> Blocked" if "c_current c h' = Some u" for h' u
      using cur(3) [OF that] w(5) [of u] w(6) by (cases "u = t"; cases "state (sys_tasks (c_sys c) t) = BlockSaving") auto
    have nq: "u \<notin># sys_queued s" if "c_current c h' = Some u" for h' u
      using cur(2,3) [OF that] w(3,4) by auto
    have "conf_inv (c\<lparr>c_sys := s, c_current := c_current c, c_known := c_known c\<rparr>)"
      by (rule conf_keep [OF c w(1,2)]) (use w(4) Wake(2) k cur nb nq in auto)
    with Wake(1) show ?thesis by simp
  next
    case (Pick h now s r)
    from run_pick_spec [OF i room Pick(3), of now] Pick(4) have p: "sys_inv s" "length (sys_rqs s) = length (sys_rqs (c_sys c))"
      "sys_queued s \<subseteq># sys_queued (c_sys c)" "\<And>u. u \<notin># sys_queued (c_sys c) \<Longrightarrow> sys_tasks s u = sys_tasks (c_sys c) u"
      "\<And>t. r = Some t \<Longrightarrow> t \<in># sys_queued (c_sys c) \<and> t \<notin># sys_queued s \<and> state (sys_tasks s t) = Running" by auto
    have sub: "set_mset (sys_queued s) \<subseteq> set_mset (sys_queued (c_sys c))" by (rule set_mset_mono [OF p(3)])
    have "conf_inv (c\<lparr>c_sys := s, c_current := (c_current c)(h := r), c_known := c_known c\<rparr>)"
      by (rule conf_keep [OF c p(1,2)]) (use sub k p(4,5) cur in \<open>auto split: if_splits\<close>)
    with Pick(1) show ?thesis by simp
  next
    case (Self h t j)
    let ?s = "(c_sys c)\<lparr>sys_tasks := upd_task t (\<lambda>_. j) (sys_tasks (c_sys c))\<rparr>"
    have q: "sys_queued ?s = sys_queued (c_sys c)" by (simp add: sys_queued_def)
    have "sys_inv ?s" by (rule sys_inv_upd_task [OF i])
        (use Self cur(2) [OF Self(2)] sys_flag [OF i, of t] in \<open>auto simp: self_write_def flag_ok_def not_in_iff\<close>)
    then have "conf_inv (c\<lparr>c_sys := ?s, c_current := c_current c, c_known := c_known c\<rparr>)"
      by (rule conf_keep [OF c]) (use Self q k cur in \<open>auto simp: self_write_def\<close>)
    with Self(1) show ?thesis by simp
  next
    case (Back h t now s)
    from switch_back_spec [OF i cur(2) [OF Back(2)] room l, of h now] Back(3) have p: "sys_inv s"
      "length (sys_rqs s) = length (sys_rqs (c_sys c))" "\<And>u. u \<noteq> t \<Longrightarrow> sys_tasks s u = sys_tasks (c_sys c) u"
      "set_mset (sys_queued s) \<subseteq> insert t (set_mset (sys_queued (c_sys c)))" by (auto split: if_splits)
    have "conf_inv (c\<lparr>c_sys := s, c_current := (c_current c)(h := None), c_known := c_known c\<rparr>)"
    proof (rule conf_keep [OF c p(1,2)])
      show "set_mset (sys_queued s) \<subseteq> c_known c" using p(4) k(1) cur(1) [OF Back(2)] by blast
      show "u \<in> c_known c \<and> u \<notin># sys_queued s \<and> state (sys_tasks s u) \<noteq> Blocked"
        if u: "((c_current c)(h := None)) h' = Some u" for h' u
      proof -
        from u have h': "c_current c h' = Some u" "h' \<noteq> h" by (auto split: if_splits)
        then have "u \<noteq> t" using cur(4) [OF Back(2)] by blast
        with cur(1-3) [OF h'(1)] p(3) [of u] p(4) show ?thesis by auto
      qed
    qed (use k cur(4) in \<open>auto split: if_splits\<close>)
    with Back(1) show ?thesis by simp
  next
    case (Remove t s)
    from remove_all_spec [OF i, of t] Remove(2) have p: "sys_inv s" "length (sys_rqs s) = length (sys_rqs (c_sys c))"
      "sys_queued (c_sys c) = sys_queued s + (if t \<in># sys_queued (c_sys c) then {#t#} else {#})"
      "\<And>u. state (sys_tasks s u) = state (sys_tasks (c_sys c) u)" by auto
    have "sys_queued s \<subseteq># sys_queued (c_sys c)" by (subst p(3)) simp
    from set_mset_mono [OF this] have sub: "set_mset (sys_queued s) \<subseteq> set_mset (sys_queued (c_sys c))" .
    have "conf_inv (c\<lparr>c_sys := s, c_current := c_current c, c_known := c_known c\<rparr>)"
      by (rule conf_keep [OF c p(1,2)]) (use sub p(4) k cur in auto)
    with Remove(1) show ?thesis by simp
  next
    case (View s)
    note sc = same_core_inv [OF View(2)] same_core_length [OF View(2)]
    have "sys_tasks s = sys_tasks (c_sys c)" using View(2) by (simp add: same_core_def)
    then have "conf_inv (c\<lparr>c_sys := s, c_current := c_current c, c_known := c_known c\<rparr>)"
      by (intro conf_keep [OF c]) (use sc i k cur in auto)
    with View(1) show ?thesis by simp
  qed
qed

lemma conf_reachable_inv:
  assumes "conf_step\<^sup>*\<^sup>* c c'" "conf_inv c"
  shows "conf_inv c'"
  using assms by (induction rule: rtranclp_induct) (auto intro: conf_step_inv)

subsection \<open>Theorems\<close>

text \<open>
  C1. From boot, through every interleaving of task creation, wakeups, picks (with stealing),
  writes of running tasks to themselves, returns to the scheduler, removals and view updates
  on all CPUs: no task is queued twice, on one CPU or on two; a task a CPU runs is in no run
  queue; and no task runs on two CPUs at once.
\<close>

theorem no_double_scheduling:
  assumes "conf_step\<^sup>*\<^sup>* (conf_new n st) c" "0 < n" "\<And>t. \<not> on_rq (st t)" "\<And>t. policy_ok (sched_policy (st t))"
  shows "count (sys_queued (c_sys c)) t \<le> 1
    \<and> (c_current c h = Some t \<longrightarrow> t \<notin># sys_queued (c_sys c) \<and> (\<forall>h'. c_current c h' = Some t \<longrightarrow> h' = h))"
proof -
  have i: "conf_inv c" using conf_reachable_inv [OF assms(1) conf_inv_new [OF assms(2-4)]] .
  then have "flag_ok (sys_tasks (c_sys c) t) (count (sys_queued (c_sys c)) t)" by (simp add: conf_inv_def sys_inv_def)
  with i show ?thesis by (auto simp: conf_inv_def flag_ok_def)
qed

text \<open>
  C3. In every reachable configuration the scheduler's operations return: creating, waking
  and removing a task, picking the next one and putting the running one back never panic (no
  duplicate key in a tree, no arena index out of range, no unknown policy).
\<close>

theorem scheduler_never_panics:
  assumes "conf_step\<^sup>*\<^sup>* (conf_new n st) c" "0 < n" "\<And>t. \<not> on_rq (st t)" "\<And>t. policy_ok (sched_policy (st t))"
  shows "enqueue_new_task h (c_sys c) t p \<noteq> None \<and> wake_up_task h (c_sys c) t \<noteq> None
    \<and> (h < length (sys_rqs (c_sys c)) \<longrightarrow> run_pick h now (c_sys c) \<noteq> None)
    \<and> (c_current c h = Some t \<longrightarrow> switch_back h now (c_sys c) t \<noteq> None)
    \<and> remove_task_from_all_local_queues (c_sys c) t \<noteq> None"
proof -
  have i: "conf_inv c" using conf_reachable_inv [OF assms(1) conf_inv_new [OF assms(2-4)]] .
  note room = conf_room [OF i]
  have s: "sys_inv (c_sys c)" "0 < length (sys_rqs (c_sys c))" using i by (simp_all add: conf_inv_def)
  have "switch_back h now (c_sys c) t \<noteq> None" if "c_current c h = Some t"
    using switch_back_spec [OF s(1) conf_current(2) [OF i that] room s(2), of h now] by auto
  with run_pick_spec [OF s(1) room, of h now] enqueue_new_spec [OF s(1) room s(2), of h t p]
    wake_up_spec [OF s(1) room s(2), of h t] remove_all_spec [OF s(1), of t]
  show ?thesis by auto
qed

lemma switch_back_queues:
  assumes i: "sys_inv s" and t: "t \<notin># sys_queued s" and n: "Suc (size (sys_queued s)) < 2 ^ 64"
    and l: "0 < length (sys_rqs s)" and st: "state (sys_tasks s t) = BlockSaving"
  obtains s' where "switch_back h now s t = Some s'" "sys_inv s'" "length (sys_rqs s') = length (sys_rqs s)"
    "if wake_pending (sys_tasks s t) then sys_queued s' = add_mset t (sys_queued s) \<and> state (sys_tasks s' t) = Ready
     else sys_queued s' = sys_queued s \<and> state (sys_tasks s' t) = Blocked \<and> \<not> on_rq (sys_tasks s' t)"
proof -
  have "\<not> on_rq (sys_tasks s t)" using sys_flag [OF i, of t] t by (auto simp: flag_ok_def not_in_iff)
  then show thesis using switch_back_spec [OF i t n l, of h now] st that by (auto split: if_splits)
qed

text \<open>
  C2. No lost wakeup.  A task that announced its block (\<open>BlockSaving\<close>) and still runs on CPU
  \<open>h\<close> is woken from CPU \<open>w\<close> while \<open>h\<close> switches away from it.  Whichever of the two takes the
  task lock first, both return and the task ends queued, exactly once, in state \<open>Ready\<close>.
\<close>

theorem no_lost_wakeup:
  assumes r: "conf_step\<^sup>*\<^sup>* (conf_new n st) c" "0 < n" "\<And>t. \<not> on_rq (st t)" "\<And>t. policy_ok (sched_policy (st t))"
    and c: "c_current c h = Some t" "state (sys_tasks (c_sys c) t) = BlockSaving"
  shows "(\<exists>s1 b s2. wake_up_task w (c_sys c) t = Some (s1, b) \<and> switch_back h now s1 t = Some s2
        \<and> count (sys_queued s2) t = 1 \<and> state (sys_tasks s2 t) = Ready)
    \<and> (\<exists>s1 s2 b. switch_back h now (c_sys c) t = Some s1 \<and> wake_up_task w s1 t = Some (s2, b)
        \<and> count (sys_queued s2) t = 1 \<and> state (sys_tasks s2 t) = Ready)"
proof
  have i: "conf_inv c" using conf_reachable_inv [OF r(1) conf_inv_new [OF r(2-4)]] .
  note room = conf_room [OF i] and t = conf_current(2) [OF i c(1)]
  have s: "sys_inv (c_sys c)" "0 < length (sys_rqs (c_sys c))" using i by (simp_all add: conf_inv_def)
  have c0: "count (sys_queued (c_sys c)) t = 0" using t by (simp add: not_in_iff)
  from wake_up_spec [OF s(1) room s(2), of w t] c(2) obtain s1 where w: "wake_up_task w (c_sys c) t = Some (s1, False)"
      "sys_inv s1" "length (sys_rqs s1) = length (sys_rqs (c_sys c))" "sys_queued s1 = sys_queued (c_sys c)"
      "state (sys_tasks s1 t) = BlockSaving" "wake_pending (sys_tasks s1 t)" by auto
  have "t \<notin># sys_queued s1" "Suc (size (sys_queued s1)) < 2 ^ 64" "0 < length (sys_rqs s1)" using w t room s by simp_all
  from switch_back_queues [OF w(2) this w(5), of h now] w c0
  show "\<exists>s1 b s2. wake_up_task w (c_sys c) t = Some (s1, b) \<and> switch_back h now s1 t = Some s2
        \<and> count (sys_queued s2) t = 1 \<and> state (sys_tasks s2 t) = Ready" by fastforce
  from switch_back_queues [OF s(1) t room s(2) c(2)] obtain s3 where b: "switch_back h now (c_sys c) t = Some s3"
      "sys_inv s3" "length (sys_rqs s3) = length (sys_rqs (c_sys c))"
      "if wake_pending (sys_tasks (c_sys c) t) then sys_queued s3 = add_mset t (sys_queued (c_sys c)) \<and> state (sys_tasks s3 t) = Ready
       else sys_queued s3 = sys_queued (c_sys c) \<and> state (sys_tasks s3 t) = Blocked \<and> \<not> on_rq (sys_tasks s3 t)" by metis
  show "\<exists>s1 s2 b. switch_back h now (c_sys c) t = Some s1 \<and> wake_up_task w s1 t = Some (s2, b)
        \<and> count (sys_queued s2) t = 1 \<and> state (sys_tasks s2 t) = Ready"
  proof (cases "wake_pending (sys_tasks (c_sys c) t)")
    case True
    with b c0 show ?thesis by (auto simp: wake_up_task_def)
  next
    case False
    with b have q: "Suc (size (sys_queued s3)) < 2 ^ 64" "0 < length (sys_rqs s3)" using room s by simp_all
    from wake_up_spec [OF b(2) this, of w t] b False c0 show ?thesis by auto
  qed
qed

subsection \<open>The pick is work conserving\<close>

lemma rt_pop_throttled: "rt_pop_next st q = Some (q', r) \<Longrightarrow> rt_throttled q' = rt_throttled q"
  by (auto simp: rt_pop_next_def bind_eq_Some_conv split: option.splits if_splits list.splits)

lemma pop_throttled:
  "pop_next_task st rq = Some (rq', r) \<Longrightarrow> rt_throttled (rq_rt rq') = rt_throttled (rq_rt rq)"
  by (auto simp: pop_next_task_def Let_def bind_eq_Some_conv rt_pop_throttled split: option.splits if_splits)

lemma fetch_finds:
  assumes "sys_inv s" "hart < length (sys_rqs s)" "u \<in># rq_queued (inner_of s hart)"
    "state (sys_tasks s u) \<noteq> Zombie" "\<not> rt_throttled (rq_rt (inner_of s hart))"
  shows "\<exists>s' t. fetch_task hart s = Some (s', Some t)"
  using assms
proof (induction "size (sys_queued s)" arbitrary: s rule: less_induct)
  case less
  from less.prems(1,2) show ?case
  proof (cases rule: pop_on_cpu)
    case Empty
    with less.prems(3,5) show ?thesis by (auto simp: rq_queued_def)
  next
    case (Task rq t)
    show ?thesis
    proof (cases "state (sys_tasks s t) = Zombie")
      case True
      let ?f = "\<lambda>i. i\<lparr>on_rq := False, on_cpu := False\<rparr>"
      let ?s0 = "set_inner hart rq (s\<lparr>sys_tasks := upd_task t ?f (sys_tasks s)\<rparr>)"
      let ?s1 = "upd_view hart (remove_runnable (task_weight_from_value (load_weight (se (sys_tasks s t))))) ?s0"
      note t = take_off [OF less.prems(1,2) Task(2,3), of ?f, simplified]
      have "same_core ?s0 ?s1" by simp
      note k = same_core_inv [OF this]
      have "size (sys_queued ?s1) < size (sys_queued s)" "sys_inv ?s1" using t(1,2) k by simp_all
      moreover have "fetch_task hart s = fetch_task hart ?s1"
        using less.prems(2) Task(1) True by (subst fetch_task.simps) simp
      moreover have "u \<noteq> t" using True less.prems(4) by blast
      ultimately show ?thesis using less.hyps [of ?s1] less.prems Task(3) pop_throttled [OF Task(1)]
        by simp
    next
      case False
      with less.prems(2) Task(1) show ?thesis by (subst fetch_task.simps) simp
    qed
  qed
qed

text \<open>
  C4. A pick ends, whatever zombies it has to drop, and it is work conserving: it hands out a
  task whenever the run queue holds one that is not a zombie (with the real-time class not
  throttled).  The task it hands out has left every queue, is marked running on this CPU,
  and everything else it took off was a zombie.
\<close>

theorem fetch_task_work_conserving:
  assumes "sys_inv s" "hart < length (sys_rqs s)" "u \<in># rq_queued (inner_of s hart)"
    "state (sys_tasks s u) \<noteq> Zombie" "\<not> rt_throttled (rq_rt (inner_of s hart))"
  shows "\<exists>s' t zs. fetch_task hart s = Some (s', Some t) \<and> sys_queued s = add_mset t (sys_queued s' + zs)
    \<and> (\<forall>z. z \<in># zs \<longrightarrow> state (sys_tasks s z) = Zombie) \<and> state (sys_tasks s t) \<noteq> Zombie
    \<and> t \<notin># sys_queued s' \<and> state (sys_tasks s' t) = Running \<and> cpu (sys_tasks s' t) = hart \<and> sys_inv s'"
proof -
  from fetch_finds [OF assms] obtain s' t where f: "fetch_task hart s = Some (s', Some t)" by blast
  with fetch_task_spec [OF assms(1,2)] obtain zs where "fetched hart s s' (Some t) zs" by auto
  with f show ?thesis by (auto simp: fetched_def)
qed

subsection \<open>Selection and the idle handshake\<close>


definition view_of :: "sched_sys \<Rightarrow> nat \<Rightarrow> rq_view" where
  "view_of s c = sr_view (sys_rqs s ! c)"

lemma view_of_upd [simp]: "c < length (sys_rqs s) \<Longrightarrow> view_of (upd_view c f s) c = f (view_of s c)"
  by (simp add: view_of_def upd_view_def)

lemma view_of_inner [simp]: "view_of (set_inner d rq s) c = view_of s c"
  by (cases "d < length (sys_rqs s)"; cases "d = c") (simp_all add: view_of_def set_inner_def list_update_beyond)

lemma view_of_other [simp]:
  "view_of (s\<lparr>sys_tasks := st\<rparr>) c = view_of s c" "view_of (s\<lparr>sys_ipis := x\<rparr>) c = view_of s c"
  "sys_ipis (upd_view c f s) = sys_ipis s" "sys_ipis (set_inner d rq s) = sys_ipis s"
  by (simp_all add: view_of_def upd_view_def set_inner_def)

lemma enqueue_view:
  assumes "enqueue_task_on_cpu s t c is_new = Some (s', b)" "c < length (sys_rqs s)"
  shows "v_idle (view_of s' c) = v_idle (view_of s c)" "v_ipi (view_of s' c) = v_ipi (view_of s c)"
    "sys_ipis s' = sys_ipis s" "length (sys_rqs s') = length (sys_rqs s)"
  using assms by (auto simp: enqueue_task_on_cpu_def normalize_cpu_def Let_def bind_eq_Some_conv add_runnable_def
      split: if_splits option.splits)

lemma idle_arm_empty:
  assumes "sys_inv s" "c < length (sys_rqs s)"
  shows "snd (scheduler_idle_arm c s) \<longleftrightarrow> rq_queued (inner_of s c) = {#}"
proof -
  have "unat (nr_running (inner_of s c)) = size (rq_queued (inner_of s c))"
    using inner_inv [OF assms] by (simp add: rq_inv_def)
  then have "nr_running (inner_of s c) = 0 \<longleftrightarrow> size (rq_queued (inner_of s c)) = 0" by (metis unat_eq_0)
  with assms(2) show ?thesis by (simp add: scheduler_idle_arm_def normalize_cpu_def Let_def)
qed


subsection \<open>Witnesses\<close>

lemma fresh_ok: "\<not> on_rq fresh_task" "policy_ok (sched_policy fresh_task)" "state fresh_task = Ready"
  by (simp_all add: fresh_task_def policy_ok_def)

definition unthrottled :: "sched_sys \<Rightarrow> bool" where
  "unthrottled s \<longleftrightarrow> (\<forall>rq \<in> set (map sr_inner (sys_rqs s)). \<not> rt_throttled (rq_rt rq))"

lemma unthrottled_core: "same_core s s' \<Longrightarrow> unthrottled s' = unthrottled s"
  by (simp add: unthrottled_def same_core_def del: set_map)

lemma enqueue_task_throttled:
  "enqueue_task st rq t = Some (st', rq', r) \<Longrightarrow> rt_throttled (rq_rt rq') = rt_throttled (rq_rt rq)"
  by (auto simp: enqueue_task_def Let_def bind_eq_Some_conv rt_enqueue_def split: if_splits)

lemma enqueue_on_cpu_throttled:
  assumes "enqueue_task_on_cpu s t c is_new = Some (s', b)" "unthrottled s"
  shows "unthrottled s'"
proof (cases "c < length (sys_rqs s) \<and> state (sys_tasks s t) \<noteq> Zombie")
  case True
  let ?st = "upd_task t (\<lambda>i. i\<lparr>cpu := c, state := Ready, on_cpu := False\<rparr>) (sys_tasks s)"
  from assms(1) True obtain st' rq r where e: "enqueue_task ?st (inner_of s c) t = Some (st', rq, r)"
      "same_core (set_inner c rq (s\<lparr>sys_tasks := st'\<rparr>)) s'"
    by (auto simp: enqueue_task_on_cpu_def normalize_cpu_def Let_def bind_eq_Some_conv split: option.splits if_splits)
  have "\<not> rt_throttled (rq_rt rq)"
    using enqueue_task_throttled [OF e(1)] assms(2) True by (simp add: unthrottled_def inner_of_def)
  moreover have "x = rq \<or> x \<in> set (map sr_inner (sys_rqs s))"
    if "x \<in> set (map sr_inner (sys_rqs (set_inner c rq (s\<lparr>sys_tasks := st'\<rparr>))))" for x
    using that set_update_subset_insert [of "sys_rqs s" c] by (fastforce simp: set_inner_def)
  ultimately have "unthrottled (set_inner c rq (s\<lparr>sys_tasks := st'\<rparr>))"
    using assms(2) unfolding unthrottled_def by blast
  with unthrottled_core [OF e(2)] show ?thesis by simp
next
  case False
  with assms show ?thesis
    by (auto simp: enqueue_task_on_cpu_def normalize_cpu_def unthrottled_def split: if_splits)
qed

lemma enqueue_new_throttled:
  assumes e: "enqueue_new_task hart s t p = Some s'" and u: "unthrottled s"
  shows "unthrottled s'"
proof -
  obtain s0 sel where s: "select_now s t (local_cpu s hart) p = (s0, sel)" by fastforce
  then have "same_core s s0" using same_core_select [of s t] by (metis fst_conv)
  from unthrottled_core [OF this] u have u0: "unthrottled s0" by simp
  from e s obtain s1 b where q: "enqueue_task_on_cpu s0 t (sel_cpu sel) True = Some (s1, b)"
      "s' = (if b then mark_resched_and_kick (sel_cpu sel) (local_cpu s hart) (consume_if sel s1) else consume_if sel s1)"
    by (auto simp: enqueue_new_task_def enqueue_selected_task_def bind_eq_Some_conv Let_def)
  have "same_core s1 s'" unfolding q(2) by simp
  from unthrottled_core [OF this] enqueue_on_cpu_throttled [OF q(1) u0] show ?thesis by simp
qed

text \<open>A run: task 5 is created on the only CPU, picked, and announces a block.\<close>

definition demo_new :: sched_conf where
  "demo_new = conf_new 1 (\<lambda>_. fresh_task)"

lemma demo_created:
  obtains s where "enqueue_new_task 0 (c_sys demo_new) 5 0 = Some s" "sys_queued s = {#5#}"
    "conf_step demo_new (demo_new\<lparr>c_sys := s, c_known := {5}\<rparr>)" "length (sys_rqs s) = 1" "sys_inv s"
    "unthrottled s" "state (sys_tasks s 5) = Ready"
proof -
  have i: "conf_inv demo_new" unfolding demo_new_def by (rule conf_inv_new) (simp_all add: fresh_ok)
  then have j: "sys_inv (c_sys demo_new)" by (simp add: conf_inv_def)
  have l: "length (sys_rqs (c_sys demo_new)) = 1" by (simp add: demo_new_def conf_new_def sys_new_def)
  have f: "sys_tasks (c_sys demo_new) = (\<lambda>_. fresh_task)" "c_known demo_new = {}"
    by (simp_all add: demo_new_def conf_new_def sys_new_def)
  from enqueue_new_spec [OF j conf_room [OF i], of 0 5 0] l obtain d s b where
    e: "d < length (sys_rqs (c_sys demo_new))" "enqueue_new_task 0 (c_sys demo_new) 5 0 = Some s"
      "enq_result (c_sys demo_new) 5 d s b" by auto
  have q: "sys_queued (c_sys demo_new) = {#}" by (simp add: demo_new_def conf_new_def)
  from accepted_enqueued [OF e(3,1)] f q fresh_ok have "sys_queued s = {#5#}" "state (sys_tasks s 5) = Ready" by simp_all
  moreover have "unthrottled (c_sys demo_new)"
    by (simp add: demo_new_def conf_new_def sys_new_def unthrottled_def rqinner_new_def rt_new_def)
  from enqueue_new_throttled [OF e(2) this] have "unthrottled s" .
  moreover have "conf_step demo_new (demo_new\<lparr>c_sys := s, c_known := insert 5 (c_known demo_new)\<rparr>)"
    by (rule conf_step.New [OF _ _ e(2)]) (simp_all add: f)
  ultimately show thesis using that e(2) enq_result_inv [OF e(3)] l f by simp
qed

lemma demo_blocking:
  obtains c where "conf_step\<^sup>*\<^sup>* demo_new c" "c_current c 0 = Some 5" "state (sys_tasks (c_sys c) 5) = BlockSaving"
proof -
  obtain s where s: "enqueue_new_task 0 (c_sys demo_new) 5 0 = Some s" "sys_queued s = {#5#}"
    "conf_step demo_new (demo_new\<lparr>c_sys := s, c_known := {5}\<rparr>)" "length (sys_rqs s) = 1" "sys_inv s"
    "unthrottled s" "state (sys_tasks s 5) = Ready" by (rule demo_created)
  let ?c1 = "demo_new\<lparr>c_sys := s, c_known := {5}\<rparr>"
  have "5 \<in># rq_queued (inner_of s 0)" using sys_queued_iff [of 5 s] s(2,4) by auto
  moreover have "\<not> rt_throttled (rq_rt (inner_of s 0))" using s(4,6) by (simp add: unthrottled_def inner_of_def)
  ultimately obtain s1 t where f: "fetch_task 0 s = Some (s1, Some t)" using fetch_finds [of s 0 5] s(4,5,7) by auto
  then have p: "run_pick 0 0 s = Some (dispatch_task 0 0 s1 t, Some t)" by (simp add: run_pick_def)
  have "t = 5" "sys_inv (dispatch_task 0 0 s1 t)"
    using run_pick_spec [OF s(5), of 0 0] s(2,4) p by auto
  let ?s2 = "dispatch_task 0 0 s1 t"
  let ?c2 = "?c1\<lparr>c_sys := ?s2, c_current := (c_current ?c1)(0 := Some t)\<rparr>"
  let ?i = "(sys_tasks ?s2 5)\<lparr>state := BlockSaving\<rparr>"
  let ?c3 = "?c2\<lparr>c_sys := (c_sys ?c2)\<lparr>sys_tasks := upd_task 5 (\<lambda>_. ?i) (sys_tasks (c_sys ?c2))\<rparr>\<rparr>"
  have "conf_step ?c1 ?c2"
    by (rule conf_step.Pick) (use p s(4) in \<open>simp_all add: demo_new_def conf_new_def\<close>)
  moreover have "conf_step ?c2 ?c3"
    by (rule conf_step.Self [of _ 0]) (use \<open>t = 5\<close> sys_policy [OF \<open>sys_inv ?s2\<close>, of 5] in \<open>simp_all add: self_write_def\<close>)
  ultimately have "conf_step\<^sup>*\<^sup>* demo_new ?c3" using s(3) by (meson r_into_rtranclp rtranclp_trans)
  with \<open>t = 5\<close> show thesis by (intro that [of ?c3]) simp_all
qed

theorem no_double_scheduling_witness:
  "\<exists>c. conf_step\<^sup>*\<^sup>* (conf_new 1 (\<lambda>_. fresh_task)) c \<and> c_current c 0 = Some 5 \<and> count (sys_queued (c_sys c)) 5 = 0"
proof -
  obtain c where c: "conf_step\<^sup>*\<^sup>* demo_new c" "c_current c 0 = Some 5" by (rule demo_blocking)
  with no_double_scheduling [of 1 "\<lambda>_. fresh_task" c 5 0] show ?thesis
    by (auto simp: demo_new_def fresh_ok not_in_iff)
qed

theorem scheduler_never_panics_witness:
  "\<exists>c. conf_step\<^sup>*\<^sup>* (conf_new 1 (\<lambda>_. fresh_task)) c \<and> c_current c 0 = Some 5 \<and> switch_back 0 7 (c_sys c) 5 \<noteq> None"
proof -
  obtain c where c: "conf_step\<^sup>*\<^sup>* demo_new c" "c_current c 0 = Some 5" by (rule demo_blocking)
  with scheduler_never_panics [of 1 "\<lambda>_. fresh_task" c 0 5 0 7] show ?thesis
    by (auto simp: demo_new_def fresh_ok)
qed

theorem no_lost_wakeup_witness:
  "\<exists>c s1 b s2. conf_step\<^sup>*\<^sup>* (conf_new 1 (\<lambda>_. fresh_task)) c \<and> wake_up_task 0 (c_sys c) 5 = Some (s1, b)
     \<and> switch_back 0 9 s1 5 = Some s2 \<and> count (sys_queued s2) 5 = 1"
proof -
  obtain c where c: "conf_step\<^sup>*\<^sup>* demo_new c" "c_current c 0 = Some 5" "state (sys_tasks (c_sys c) 5) = BlockSaving"
    by (rule demo_blocking)
  from no_lost_wakeup [of 1 "\<lambda>_. fresh_task" c 0 5 0 9] c show ?thesis
    by (fastforce simp: demo_new_def fresh_ok)
qed

theorem fetch_task_work_conserving_witness:
  "\<exists>s s' t. enqueue_new_task 0 (sys_new 1 (\<lambda>_. fresh_task)) 5 0 = Some s \<and> fetch_task 0 s = Some (s', Some t)
     \<and> state (sys_tasks s' t) = Running"
proof -
  obtain s where s: "enqueue_new_task 0 (c_sys demo_new) 5 0 = Some s" "sys_queued s = {#5#}"
    "length (sys_rqs s) = 1" "sys_inv s" "unthrottled s" "state (sys_tasks s 5) = Ready" by (rule demo_created)
  have "5 \<in># rq_queued (inner_of s 0)" using sys_queued_iff [of 5 s] s(2,3) by auto
  moreover have "\<not> rt_throttled (rq_rt (inner_of s 0))" using s(3,5) by (simp add: unthrottled_def inner_of_def)
  ultimately show ?thesis using fetch_task_work_conserving [of s 0 5] s
    by (auto simp: demo_new_def conf_new_def)
qed



end
