(* ===== verification/Kernel_Config.thy ===== *)
theory Kernel_Config
  imports Kernel_Prelude
begin

text \<open>
  Build constants of the RISC-V \<open>virt\<close> target (\<open>arch/riscv/config.rs\<close>, \<open>arch/riscv/mm/mod.rs\<close>),
  those of LoongArch \<open>virt\<close> that differ and are used, and the checked arithmetic of \<open>usize\<close>.
\<close>

definition PAGE_SIZE :: usize where "PAGE_SIZE = 0x1000"
definition PAGE_SIZE_BITS :: nat where "PAGE_SIZE_BITS = 12"
definition KERNEL_STACK_SIZE :: usize where "KERNEL_STACK_SIZE = PAGE_SIZE * 32"
definition TRAMPOLINE :: usize where "TRAMPOLINE = - 1 - PAGE_SIZE + 1"
definition CPU_CORE_NUM :: usize where "CPU_CORE_NUM = 8"
definition DMA_SIZE :: usize where "DMA_SIZE = 0x1000000"
definition PA_WIDTH :: nat where "PA_WIDTH = 56"
definition VA_WIDTH :: nat where "VA_WIDTH = 39"
definition KERNEL_WINDOW_BASE :: usize where "KERNEL_WINDOW_BASE = 0xffffffc000000000"
definition LOWRAM_BASE :: usize where "LOWRAM_BASE = 0x200000"
definition LOWRAM_END :: usize where "LOWRAM_END = 0x10000000"

text \<open>Page sizes (\<open>mm/page_table.rs\<close>).\<close>

datatype page_size = Page4K | Page2M | Page1G

definition ps_size :: "page_size \<Rightarrow> usize" where
  "ps_size p = (case p of Page4K \<Rightarrow> push_bit 12 1 | Page2M \<Rightarrow> push_bit (12 + 9) 1 | Page1G \<Rightarrow> push_bit (12 + 9 + 9) 1)"

definition size_bits :: "page_size \<Rightarrow> nat" where
  "size_bits p = length (takeWhile (\<lambda>n. \<not> bit (ps_size p) n) [0..<64])"

definition num_pages :: "page_size \<Rightarrow> usize" where
  "num_pages p = ps_size p div PAGE_SIZE"

definition walk_level :: "page_size \<Rightarrow> nat" where
  "walk_level p = (case p of Page4K \<Rightarrow> 2 | Page2M \<Rightarrow> 1 | Page1G \<Rightarrow> 0)"

definition checked_add :: "usize \<Rightarrow> usize \<Rightarrow> usize option" where
  "checked_add a b = (if unat a + unat b < 2 ^ 64 then Some (a + b) else None)"

definition checked_sub :: "usize \<Rightarrow> usize \<Rightarrow> usize option" where
  "checked_sub a b = (if b \<le> a then Some (a - b) else None)"

definition checked_mul :: "usize \<Rightarrow> usize \<Rightarrow> usize option" where
  "checked_mul a b = (if unat a * unat b < 2 ^ 64 then Some (a * b) else None)"

lemma checked_add_Some: "checked_add a b = Some c \<Longrightarrow> unat c = unat a + unat b"
  by (auto simp: checked_add_def unat_word_ariths split: if_splits)

lemma checked_sub_Some: "checked_sub a b = Some c \<Longrightarrow> unat c = unat a - unat b \<and> unat b \<le> unat a"
  by (auto simp: checked_sub_def unat_sub word_le_nat_alt split: if_splits)

lemma checked_mul_Some: "checked_mul a b = Some c \<Longrightarrow> unat c = unat a * unat b"
  by (auto simp: checked_mul_def unat_word_ariths split: if_splits)

end
