(* ===== verification/Boot_Memory.thy ===== *)
theory Boot_Memory
  imports Kernel_Config
begin

unbundle bit_operations_syntax

text \<open>
  Physical memory at boot (\<open>mm/boot_memory.rs\<close>): the choice of the memory region from the device
  tree and the division into image, DMA reservation, heap and frame pool.  The parsed device
  tree (the \<open>fdt\<close> crate) is an argument: the memory nodes with their regions, and the
  reservations.
\<close>

subsection \<open>Definitions\<close>

definition align_up :: "usize \<Rightarrow> usize \<Rightarrow> usize" where
  "align_up v a = (v + a - 1) AND NOT (a - 1)"

definition align_down :: "usize \<Rightarrow> usize \<Rightarrow> usize" where
  "align_down v a = v AND NOT (a - 1)"

definition HEAP_MEMORY_FRACTION :: usize where "HEAP_MEMORY_FRACTION = 4"
definition MIN_HEAP_SIZE :: usize where "MIN_HEAP_SIZE = push_bit 20 128"
definition MAX_HEAP_SIZE :: usize where "MAX_HEAP_SIZE = 0x60000000"
definition MIN_FRAME_POOL_SIZE :: usize where "MIN_FRAME_POOL_SIZE = push_bit 20 32"

record boot_memory =
  memory_start :: usize
  memory_end :: usize
  dma_start :: usize
  dma_end :: usize
  heap_start :: usize
  heap_end :: usize
  frame_start :: usize
  frame_end :: usize

text \<open>A device tree node: its \<open>device_type\<close> and its \<open>reg\<close> regions (address, optional size).\<close>

type_synonym fdt_node = "string option \<times> (usize \<times> usize option) list option"

fun find_region :: "usize \<Rightarrow> usize \<Rightarrow> (usize \<times> usize option) list \<Rightarrow> (usize \<times> usize) option" where
  "find_region s e [] = None"
| "find_region s e ((start, sz) # rs) =
     (case do { n \<leftarrow> sz; end \<leftarrow> checked_add start n; if start \<le> s \<and> e \<le> end then Some (start, end) else None } of
        Some r \<Rightarrow> Some r
      | None \<Rightarrow> find_region s e rs)"

fun find_memory :: "usize \<Rightarrow> usize \<Rightarrow> fdt_node list \<Rightarrow> (usize \<times> usize) option" where
  "find_memory s e [] = None"
| "find_memory s e ((device_type, reg) # nodes) =
     (case if device_type = Some ''memory'' then do { rs \<leftarrow> reg; find_region s e rs } else None of
        Some r \<Rightarrow> Some r
      | None \<Rightarrow> find_memory s e nodes)"

definition platform_memory_range ::
    "fdt_node list \<Rightarrow> usize list \<Rightarrow> usize \<Rightarrow> usize \<Rightarrow> (usize \<times> usize \<times> usize) option" where
  "platform_memory_range nodes reservations image_start image_end =
     do { (start, end) \<leftarrow> find_memory image_start image_end nodes;
          Some (start, end, fold (\<lambda>r usable. if image_end \<le> r \<and> r < usable then r else usable) reservations end) }"

text \<open>\<open>skernel\<close> and \<open>ekernel\<close> are the linker symbols of the kernel image.\<close>

definition boot_init :: "fdt_node list \<Rightarrow> usize list \<Rightarrow> usize \<Rightarrow> usize \<Rightarrow> boot_memory option" where
  "boot_init nodes reservations skernel ekernel =
     (let image_start = skernel AND NOT KERNEL_WINDOW_BASE;
          image_end = align_up (ekernel AND NOT KERNEL_WINDOW_BASE) PAGE_SIZE in
      do { (mem_start, mem_end, usable_end) \<leftarrow> platform_memory_range nodes reservations image_start image_end;
           guard_panic (mem_end \<le> push_bit 38 1);
           let fr_end = usable_end;
           guard_panic (mem_start \<le> image_start \<and> image_end \<le> fr_end);
           let d_start = image_end;
           d \<leftarrow> checked_add d_start DMA_SIZE;
           let d_end = align_up d PAGE_SIZE;
           allocatable \<leftarrow> checked_sub fr_end d_end;
           let memory_size = mem_end - mem_start;
           let desired_heap = min (max (memory_size div HEAP_MEMORY_FRACTION) MIN_HEAP_SIZE) MAX_HEAP_SIZE;
           max_heap \<leftarrow> checked_sub allocatable MIN_FRAME_POOL_SIZE;
           guard_panic (max_heap \<ge> MIN_HEAP_SIZE);
           let heap_size = align_down (min desired_heap max_heap) PAGE_SIZE;
           guard_panic (heap_size \<ge> PAGE_SIZE * (CPU_CORE_NUM + 1));
           let h_end = d_end + heap_size;
           Some \<lparr>memory_start = mem_start, memory_end = mem_end, dma_start = d_start, dma_end = d_end,
                 heap_start = d_end, heap_end = h_end, frame_start = h_end, frame_end = fr_end\<rparr> })"

definition memory_size :: "boot_memory \<Rightarrow> usize" where
  "memory_size m = memory_end m - memory_start m"

subsection \<open>Alignment\<close>

lemma page_mask: "PAGE_SIZE - 1 = mask 12"
  by (simp add: PAGE_SIZE_def mask_eq_exp_minus_1)

lemma and_not_mask_split: "x = (x AND NOT (mask n)) + take_bit n x" for x :: usize
proof -
  have "(x AND NOT (mask n)) + take_bit n x = (x AND NOT (mask n)) OR take_bit n x"
    by (rule disjunctive_add) (auto simp: bit_simps)
  also have "\<dots> = x" by (rule bit_word_eqI) (auto simp: bit_simps)
  finally show ?thesis by simp
qed

lemma unat_and_not_mask: "unat (x AND NOT (mask n)) = unat x - unat x mod 2 ^ n" for x :: usize
proof -
  have t: "unat (take_bit n x) = unat x mod 2 ^ n" 
    unfolding unsigned_take_bit_eq by (rule take_bit_eq_mod)
  then have "take_bit n x \<le> x" by (simp only: word_le_nat_alt mod_less_eq_dividend)
  moreover have "x AND NOT (mask n) = x - take_bit n x" using and_not_mask_split [of x n] by (metis add_diff_cancel_right')
  ultimately show ?thesis by (simp only: unat_sub t)
qed

lemma unat_align_down: "unat (align_down v PAGE_SIZE) = unat v - unat v mod 4096"
  by (simp add: align_down_def page_mask unat_and_not_mask)

lemma unat_align_up:
  assumes "unat v + 4095 < 2 ^ 64"
  shows "unat (align_up v PAGE_SIZE) = (unat v + 4095) - (unat v + 4095) mod 4096"
proof -
  have e: "unat (v + PAGE_SIZE - 1) = unat v + 4095" using assms by (simp add: PAGE_SIZE_def unat_word_ariths)
  show ?thesis unfolding align_up_def page_mask unat_and_not_mask e by simp
qed

lemma align_down_facts:
  shows "unat (align_down x PAGE_SIZE) \<le> unat x" "unat (align_down x PAGE_SIZE) mod 4096 = 0"
    "4096 * k \<le> unat x \<Longrightarrow> 4096 * k \<le> unat (align_down x PAGE_SIZE)"
proof -
  have e: "unat (align_down x PAGE_SIZE) = 4096 * (unat x div 4096)"
    using unat_align_down [of x] by (simp add: minus_mod_eq_mult_div)
  then show "unat (align_down x PAGE_SIZE) \<le> unat x" "unat (align_down x PAGE_SIZE) mod 4096 = 0" by simp_all
  show "4096 * k \<le> unat (align_down x PAGE_SIZE)" if "4096 * k \<le> unat x"
    using div_le_mono [OF that, of 4096] e by simp
qed

lemma align_up_facts:
  assumes "unat v + 4095 < 2 ^ 64"
  shows "unat v \<le> unat (align_up v PAGE_SIZE)" "unat (align_up v PAGE_SIZE) mod 4096 = 0"
  using unat_align_up [OF assms] mod_less_divisor [of 4096 "unat v + 4095"]
  by (linarith, simp add: minus_mod_eq_mult_div)

subsection \<open>The layout\<close>

lemma find_region_Some:
  "find_region s e rs = Some (a, b) \<Longrightarrow> a \<le> s \<and> e \<le> b \<and> (\<exists>n. (a, Some n) \<in> set rs \<and> checked_add a n = Some b)"
  by (induction s e rs rule: find_region.induct) (auto simp: bind_eq_Some_conv split: option.splits if_splits)

lemma find_memory_Some: "find_memory s e nodes = Some (a, b) \<Longrightarrow> a \<le> s \<and> e \<le> b"
  by (induction s e nodes rule: find_memory.induct)
    (auto simp: bind_eq_Some_conv dest: find_region_Some split: option.splits if_splits)

lemma usable_end:
  fixes i e :: usize
  defines "f \<equiv> \<lambda>r u. if i \<le> r \<and> r < u then r else u"
  shows "fold f rs e \<le> e" "i \<le> e \<Longrightarrow> i \<le> fold f rs e" "r \<in> set rs \<Longrightarrow> i \<le> r \<Longrightarrow> fold f rs e \<le> r"
proof -
  have f: "f r e \<le> e" "i \<le> e \<Longrightarrow> i \<le> f r e" for r e by (auto simp: f_def)
  have le: "fold f rs e \<le> e \<and> (i \<le> e \<longrightarrow> i \<le> fold f rs e)" for rs e
  proof (induction rs arbitrary: e)
    case (Cons r rs)
    from Cons.IH [of "f r e"] f(1) [of r e] f(2) [of e r] show ?case by (auto intro: order_trans)
  qed simp
  then show "fold f rs e \<le> e" "i \<le> e \<Longrightarrow> i \<le> fold f rs e" by auto
  show "r \<in> set rs \<Longrightarrow> i \<le> r \<Longrightarrow> fold f rs e \<le> r"
  proof (induction rs arbitrary: e)
    case (Cons x rs)
    show ?case
    proof (cases "r = x")
      case True
      have "f r e \<le> r" using Cons.prems(2) by (simp add: f_def not_less)
      with le [of rs "f r e"] True show ?thesis by (auto intro: order_trans)
    qed (use Cons in auto)
  qed simp
qed

text \<open>
  C30. When boot gets past the memory set-up, the machine memory is divided without overlap in
  the order image, DMA reservation, heap, frame pool, all inside the memory region and below
  every firmware reservation that starts after the image; the DMA area has its 16 MiB, the
  heap is page aligned and between 128 MiB and 1.5 GiB, the frame pool keeps at least 32 MiB.
\<close>

theorem boot_layout_sound:
  assumes "boot_init nodes reservations skernel ekernel = Some m"
  defines "image_end \<equiv> align_up (ekernel AND NOT KERNEL_WINDOW_BASE) PAGE_SIZE"
  shows "memory_start m \<le> skernel AND NOT KERNEL_WINDOW_BASE \<and> dma_start m = image_end
    \<and> unat (dma_start m) + unat DMA_SIZE \<le> unat (dma_end m) \<and> heap_start m = dma_end m
    \<and> unat (heap_start m) + 128 * 2 ^ 20 \<le> unat (heap_end m) \<and> unat (heap_end m) \<le> unat (heap_start m) + 1536 * 2 ^ 20
    \<and> frame_start m = heap_end m \<and> unat (frame_start m) + 32 * 2 ^ 20 \<le> unat (frame_end m)
    \<and> frame_end m \<le> memory_end m \<and> unat (heap_start m) mod 4096 = 0 \<and> unat (heap_end m) mod 4096 = 0
    \<and> (\<forall>r. r \<in> set reservations \<longrightarrow> image_end \<le> r \<longrightarrow> frame_end m \<le> r)"
proof -
  let ?s = "skernel AND NOT KERNEL_WINDOW_BASE"
  from assms(1) obtain ms me ue d al mh where
    p: "platform_memory_range nodes reservations ?s image_end = Some (ms, me, ue)" and lim: "me \<le> push_bit 38 1"
    and g: "ms \<le> ?s" "image_end \<le> ue" and d: "checked_add image_end DMA_SIZE = Some d"
    and al: "checked_sub ue (align_up d PAGE_SIZE) = Some al" and mh: "checked_sub al MIN_FRAME_POOL_SIZE = Some mh"
    and mm: "MIN_HEAP_SIZE \<le> mh"
    and m: "m = (let h = align_down (min (min (max ((me - ms) div HEAP_MEMORY_FRACTION) MIN_HEAP_SIZE) MAX_HEAP_SIZE) mh) PAGE_SIZE in
      \<lparr>memory_start = ms, memory_end = me, dma_start = image_end, dma_end = align_up d PAGE_SIZE,
       heap_start = align_up d PAGE_SIZE, heap_end = align_up d PAGE_SIZE + h, frame_start = align_up d PAGE_SIZE + h, frame_end = ue\<rparr>)"
    unfolding boot_init_def image_end_def by (auto simp: bind_eq_Some_conv Let_def)
  from p have fr: "ue \<le> me" "\<And>r. r \<in> set reservations \<Longrightarrow> image_end \<le> r \<Longrightarrow> ue \<le> r"
    using usable_end unfolding platform_memory_range_def by (auto simp: bind_eq_Some_conv)
  have n: "unat DMA_SIZE = 2 ^ 24" "unat MIN_FRAME_POOL_SIZE = 2 ^ 25" "unat MIN_HEAP_SIZE = 2 ^ 27" "unat MAX_HEAP_SIZE = 1536 * 2 ^ 20"
    by (simp_all add: DMA_SIZE_def MIN_FRAME_POOL_SIZE_def MIN_HEAP_SIZE_def MAX_HEAP_SIZE_def)
  have u: "unat ue \<le> 2 ^ 38" using lim fr(1) by (simp add: word_le_nat_alt)
  have ud: "unat d = unat image_end + 2 ^ 24" using checked_add_Some [OF d] n by simp
  have ua: "unat al = unat ue - unat (align_up d PAGE_SIZE)" "unat (align_up d PAGE_SIZE) \<le> unat ue"
    using checked_sub_Some [OF al] by auto
  have um: "unat mh = unat al - 2 ^ 25" "2 ^ 25 \<le> unat al" "2 ^ 27 \<le> unat mh"
    using checked_sub_Some [OF mh] n mm by (auto simp: word_le_nat_alt)
  have "unat image_end \<le> 2 ^ 38" using g(2) u by (simp add: word_le_nat_alt)
  with ud have "unat d + 4095 < 2 ^ 64" by simp
  note up = align_up_facts [OF this]
  define x where "x = min (min (max ((me - ms) div HEAP_MEMORY_FRACTION) MIN_HEAP_SIZE) MAX_HEAP_SIZE) mh"
  have x: "2 ^ 27 \<le> unat x" "unat x \<le> 1536 * 2 ^ 20" "unat x \<le> unat mh"
    using um(3) n by (auto simp: x_def min_def max_def word_le_nat_alt)
  define h where "h = align_down x PAGE_SIZE"
  note hf = align_down_facts [where x = x, folded h_def]
  have h1: "2 ^ 27 \<le> unat h" using hf(3) [of "2 ^ 15"] x(1) by simp
  have he: "unat (align_up d PAGE_SIZE + h) = unat (align_up d PAGE_SIZE) + unat h"
    using ua um x hf(1) u by (simp add: unat_word_ariths)
  have m': "m = \<lparr>memory_start = ms, memory_end = me, dma_start = image_end, dma_end = align_up d PAGE_SIZE,
       heap_start = align_up d PAGE_SIZE, heap_end = align_up d PAGE_SIZE + h, frame_start = align_up d PAGE_SIZE + h, frame_end = ue\<rparr>"
    unfolding m h_def x_def Let_def ..
  have "(unat (align_up d PAGE_SIZE) + unat h) mod 4096 = 0" using up(2) hf(2) by (simp add: mod_add_eq [symmetric])
  moreover have "unat (align_up d PAGE_SIZE) + unat h + 32 * 2 ^ 20 \<le> unat ue" using hf(1) x(3) um(1,2) ua by simp
  moreover have "unat h \<le> 1536 * 2 ^ 20" using hf(1) x(2) by linarith
  ultimately show ?thesis unfolding m' using g(1) fr n(1) ud up he h1 by simp
qed

lemma demo_align:
  "(0xffffffc081000123::usize) AND NOT KERNEL_WINDOW_BASE = 0x81000123"
  "(0xffffffc080200000::usize) AND NOT KERNEL_WINDOW_BASE = 0x80200000"
  "align_up 0x81000123 PAGE_SIZE = 0x81001000" "align_up 0x82001000 PAGE_SIZE = 0x82001000"
  "align_down 0x10000000 PAGE_SIZE = 0x10000000"
  by (simp_all add: KERNEL_WINDOW_BASE_def align_up_def align_down_def PAGE_SIZE_def)

theorem boot_layout_sound_witness:
  "\<exists>m. boot_init [(Some ''cpu'', None), (Some ''memory'', Some [(0x80000000, Some 0x40000000)])] [0xbf000000]
      0xffffffc080200000 0xffffffc081000123 = Some m
    \<and> unat (frame_start m) + 32 * 2 ^ 20 \<le> unat (frame_end m) \<and> frame_end m \<le> 0xbf000000"
proof -
  let ?r = "boot_init [(Some ''cpu'', None), (Some ''memory'', Some [(0x80000000, Some 0x40000000)])] [0xbf000000]
      0xffffffc080200000 0xffffffc081000123"
  have "?r = Some \<lparr>memory_start = 0x80000000, memory_end = 0xc0000000, dma_start = 0x81001000, dma_end = 0x82001000,
     heap_start = 0x82001000, heap_end = 0x92001000, frame_start = 0x92001000, frame_end = 0xbf000000\<rparr>"
    unfolding boot_init_def demo_align Let_def
    by (simp add: platform_memory_range_def checked_add_def checked_sub_def demo_align DMA_SIZE_def MIN_FRAME_POOL_SIZE_def
        MIN_HEAP_SIZE_def MAX_HEAP_SIZE_def HEAP_MEMORY_FRACTION_def CPU_CORE_NUM_def) (simp add: PAGE_SIZE_def)
  then obtain m where m: "?r = Some m" by blast
  have "align_up (0xffffffc081000123 AND NOT KERNEL_WINDOW_BASE) PAGE_SIZE \<le> 0xbf000000" unfolding demo_align by simp
  with boot_layout_sound [OF m] m show ?thesis by (elim conjE) simp
qed

end
