(* ===== verification/Frame_Alloc.thy ===== *)
theory Frame_Alloc
  imports Kernel_Config "HOL-Library.Multiset"
begin

text \<open>
  The physical frame allocator (\<open>mm/frame_allocator.rs\<close>).  Frame numbers are natural numbers: the
  range the allocator is given comes from page numbers of at most 44 bits, so that no sum below
  leaves \<open>usize\<close>.  The theorems account for every frame of that range.
\<close>

subsection \<open>Definitions\<close>

definition npages :: "page_size \<Rightarrow> nat" where
  "npages p = unat (num_pages p)"

record frame_allocator =
  fa_current :: nat
  fa_end :: nat
  recycled_std :: "nat list"
  recycled_mega :: "nat list"
  recycled_giga :: "nat list"

definition fa_new :: frame_allocator where
  "fa_new = \<lparr>fa_current = 0, fa_end = 0, recycled_std = [], recycled_mega = [], recycled_giga = []\<rparr>"

definition fa_init :: "frame_allocator \<Rightarrow> nat \<Rightarrow> nat \<Rightarrow> frame_allocator" where
  "fa_init s l r = s\<lparr>fa_current := l, fa_end := r\<rparr>"

lemma npages_simps [simp]: "npages Page4K = 1" "npages Page2M = 512" "npages Page1G = 262144"
  by (simp_all add: npages_def num_pages_def ps_size_def PAGE_SIZE_def)

function recycle_range :: "frame_allocator \<Rightarrow> nat \<Rightarrow> nat \<Rightarrow> frame_allocator" where
  "recycle_range s pos end =
     (if pos < end then
        (if pos mod npages Page1G = 0 \<and> end - pos \<ge> npages Page1G
         then recycle_range (s\<lparr>recycled_giga := recycled_giga s @ [pos]\<rparr>) (pos + npages Page1G) end
         else if pos mod npages Page2M = 0 \<and> end - pos \<ge> npages Page2M
         then recycle_range (s\<lparr>recycled_mega := recycled_mega s @ [pos]\<rparr>) (pos + npages Page2M) end
         else recycle_range (s\<lparr>recycled_std := recycled_std s @ [pos]\<rparr>) (pos + 1) end)
      else s)"
  by pat_completeness auto
termination
  by (relation "measure (\<lambda>(_, pos, end). end - pos)") auto

declare recycle_range.simps [simp del]

definition split_into :: "nat \<Rightarrow> nat \<Rightarrow> nat \<Rightarrow> nat list \<Rightarrow> nat list \<times> nat" where
  "split_into base k unit recycler = (recycler @ map (\<lambda>i. base + i * unit) [1..<k], base)"

definition free_frames :: "frame_allocator \<Rightarrow> nat" where
  "free_frames s = (fa_end s - fa_current s) + length (recycled_std s) * npages Page4K
     + length (recycled_mega s) * npages Page2M + length (recycled_giga s) * npages Page1G"

definition alloc_std :: "frame_allocator \<Rightarrow> frame_allocator \<times> nat option" where
  "alloc_std s =
     (if recycled_std s \<noteq> [] then (s\<lparr>recycled_std := butlast (recycled_std s)\<rparr>, Some (last (recycled_std s)))
      else if recycled_mega s \<noteq> [] then
        (let (std, p) = split_into (last (recycled_mega s)) (npages Page2M) 1 (recycled_std s) in
         (s\<lparr>recycled_mega := butlast (recycled_mega s), recycled_std := std\<rparr>, Some p))
      else if fa_current s < fa_end s then (s\<lparr>fa_current := fa_current s + 1\<rparr>, Some (fa_current s + 1 - 1))
      else if recycled_giga s \<noteq> [] then
        (let mega_pages = npages Page2M;
             mega_in_giga = npages Page1G div mega_pages;
             (mega, first_mega) = split_into (last (recycled_giga s)) mega_in_giga mega_pages (recycled_mega s);
             (std, p) = split_into first_mega mega_pages 1 (recycled_std s) in
         (s\<lparr>recycled_giga := butlast (recycled_giga s), recycled_mega := mega, recycled_std := std\<rparr>, Some p))
      else (s, None))"

definition fresh_aligned :: "frame_allocator \<Rightarrow> nat \<Rightarrow> frame_allocator \<times> nat option" where
  "fresh_aligned s pages =
     (let aligned_current = (fa_current s + pages - 1) div pages * pages in
      if aligned_current + pages > fa_end s then (s, None)
      else ((recycle_range s (fa_current s) aligned_current)\<lparr>fa_current := aligned_current + pages\<rparr>, Some aligned_current))"

definition alloc_mega :: "frame_allocator \<Rightarrow> frame_allocator \<times> nat option" where
  "alloc_mega s =
     (let mega_pages = npages Page2M in
      if recycled_mega s \<noteq> [] then (s\<lparr>recycled_mega := butlast (recycled_mega s)\<rparr>, Some (last (recycled_mega s)))
      else if recycled_giga s \<noteq> [] then
        (let (mega, p) = split_into (last (recycled_giga s)) (npages Page1G div mega_pages) mega_pages (recycled_mega s) in
         (s\<lparr>recycled_giga := butlast (recycled_giga s), recycled_mega := mega\<rparr>, Some p))
      else fresh_aligned s mega_pages)"

definition alloc_giga :: "frame_allocator \<Rightarrow> frame_allocator \<times> nat option" where
  "alloc_giga s =
     (if recycled_giga s \<noteq> [] then (s\<lparr>recycled_giga := butlast (recycled_giga s)\<rparr>, Some (last (recycled_giga s)))
      else fresh_aligned s (npages Page1G))"

definition fa_alloc :: "frame_allocator \<Rightarrow> page_size \<Rightarrow> frame_allocator \<times> nat option" where
  "fa_alloc s p = (case p of Page4K \<Rightarrow> alloc_std s | Page2M \<Rightarrow> alloc_mega s | Page1G \<Rightarrow> alloc_giga s)"

definition fa_dealloc :: "frame_allocator \<Rightarrow> nat \<Rightarrow> page_size \<Rightarrow> frame_allocator option" where
  "fa_dealloc s ppn p =
     (let already_freed = (case p of Page4K \<Rightarrow> ppn \<in> set (recycled_std s) | Page2M \<Rightarrow> ppn \<in> set (recycled_mega s)
                             | Page1G \<Rightarrow> ppn \<in> set (recycled_giga s)) in
      if ppn \<ge> fa_end s \<or> already_freed then None
      else Some (case p of Page4K \<Rightarrow> s\<lparr>recycled_std := recycled_std s @ [ppn]\<rparr>
                   | Page2M \<Rightarrow> s\<lparr>recycled_mega := recycled_mega s @ [ppn]\<rparr>
                   | Page1G \<Rightarrow> s\<lparr>recycled_giga := recycled_giga s @ [ppn]\<rparr>))"

text \<open>
  \<open>frame_alloc\<close>: reclaim first when memory is low, and up to ten times after a failure.
  \<open>reclaim n\<close> stands for \<open>free_up_mem_space\<close>, which drops pages others hold.
\<close>

fun alloc_retry :: "(nat \<Rightarrow> frame_allocator \<Rightarrow> frame_allocator) \<Rightarrow> page_size \<Rightarrow> nat \<Rightarrow> frame_allocator \<Rightarrow> frame_allocator \<times> nat option" where
  "alloc_retry reclaim p 0 s = (s, None)"
| "alloc_retry reclaim p (Suc k) s =
     (case fa_alloc (reclaim (npages Page2M) s) p of
        (s, Some ppn) \<Rightarrow> (s, Some ppn)
      | (s, None) \<Rightarrow> alloc_retry reclaim p k s)"

definition frame_alloc :: "(nat \<Rightarrow> frame_allocator \<Rightarrow> frame_allocator) \<Rightarrow> page_size \<Rightarrow> frame_allocator \<Rightarrow> frame_allocator \<times> nat option" where
  "frame_alloc reclaim p s =
     (let s = (if free_frames s \<le> npages Page2M * 10 then reclaim (npages Page2M * 50) s else s) in
      case fa_alloc s p of
        (s, Some ppn) \<Rightarrow> (s, Some ppn)
      | (s, None) \<Rightarrow> alloc_retry reclaim p 10 s)"

subsection \<open>The frames of a state\<close>

text \<open>\<open>frames n p\<close>: the \<open>n\<close> frames from \<open>p\<close>.\<close>

definition frames :: "nat \<Rightarrow> nat \<Rightarrow> nat multiset" where
  "frames n p = mset [p..<p + n]"

definition block_frames :: "nat \<Rightarrow> nat list \<Rightarrow> nat multiset" where
  "block_frames n ps = sum_list (map (frames n) ps)"

definition free_set :: "frame_allocator \<Rightarrow> nat multiset" where
  "free_set s = block_frames (npages Page4K) (recycled_std s) + block_frames (npages Page2M) (recycled_mega s)
     + block_frames (npages Page1G) (recycled_giga s) + mset [fa_current s..<fa_end s]"

definition fa_inv :: "frame_allocator \<Rightarrow> bool" where
  "fa_inv s \<longleftrightarrow> fa_current s \<le> fa_end s \<and> (\<forall>p \<in> set (recycled_mega s). p mod npages Page2M = 0)
     \<and> (\<forall>p \<in> set (recycled_giga s). p mod npages Page1G = 0)"

lemma block_frames_simps [simp]:
  "block_frames n [] = {#}" "block_frames n (xs @ ys) = block_frames n xs + block_frames n ys"
  "block_frames n [p] = frames n p" "block_frames n (p # ps) = frames n p + block_frames n ps"
  by (simp_all add: block_frames_def)

declare mset_upt [simp del]

lemma frames_range: "a \<le> b \<Longrightarrow> frames (b - a) a = mset [a..<b]"
  by (simp add: frames_def)

lemma range_append: "a \<le> b \<Longrightarrow> b \<le> c \<Longrightarrow> mset [a..<b] + mset [b..<c] = mset [a..<c]"
  by (metis le_Suc_ex mset_append upt_add_eq_append)

lemma frames_append: "frames m p + frames n (p + m) = frames (m + n) p"
  using range_append [of p "p + m" "p + m + n"] by (simp add: frames_def ac_simps)

lemma frames_take: "a + n \<le> c \<Longrightarrow> frames n a + mset [a + n..<c] = mset [a..<c]"
  using range_append [of a "a + n" c] by (simp add: frames_def)

lemma block_frames_unzip: "ps \<noteq> [] \<Longrightarrow> block_frames n ps = block_frames n (butlast ps) + frames n (last ps)"
  using block_frames_simps(2) [of n "butlast ps" "[last ps]"] by simp

lemma frames_grid: "block_frames u (map (\<lambda>i. b + i * u) [j..<k]) = frames ((k - j) * u) (b + j * u)"
proof (induction k)
  case 0
  show ?case by (simp add: frames_def)
next
  case (Suc k)
  show ?case
  proof (cases "j \<le> k")
    case True
    have e: "b + j * u + (k - j) * u = b + k * u" using True by (metis add.assoc add_mult_distrib le_add_diff_inverse)
    have "frames ((k - j) * u) (b + j * u) + frames u (b + k * u) = frames ((Suc k - j) * u) (b + j * u)"
      using frames_append [of "(k - j) * u" "b + j * u" u] True unfolding e by (simp add: Suc_diff_le add.commute)
    with Suc.IH True show ?thesis by simp
  qed (simp add: frames_def)
qed

lemma split_frames:
  assumes "0 < k" "split_into b k u r = (r', p)"
  shows "p = b" "block_frames u r' + frames u b = block_frames u r + frames (k * u) b" "\<And>x. x \<in> set r' \<Longrightarrow> x \<in> set r \<or> (\<exists>i. x = b + i * u)"
proof -
  from assms(2) show "p = b" "\<And>x. x \<in> set r' \<Longrightarrow> x \<in> set r \<or> (\<exists>i. x = b + i * u)" by (auto simp: split_into_def)
  have "frames ((k - 1) * u) (b + u) + frames u b = frames (k * u) b"
    using frames_append [of u b "(k - 1) * u"] assms(1) by (cases k) (simp_all add: ac_simps)
  with assms(2) frames_grid [of u b 1 k] show "block_frames u r' + frames u b = block_frames u r + frames (k * u) b"
    by (auto simp: split_into_def ac_simps)
qed

subsection \<open>Allocation and release\<close>

lemma recycle_range_spec:
  assumes "pos \<le> end"
    "\<forall>p \<in> set (recycled_mega s). p mod npages Page2M = 0" "\<forall>p \<in> set (recycled_giga s). p mod npages Page1G = 0"
  defines "s' \<equiv> recycle_range s pos end"
  shows "block_frames (npages Page4K) (recycled_std s') + block_frames (npages Page2M) (recycled_mega s') + block_frames (npages Page1G) (recycled_giga s')
      = block_frames (npages Page4K) (recycled_std s) + block_frames (npages Page2M) (recycled_mega s) + block_frames (npages Page1G) (recycled_giga s)
        + mset [pos..<end]
    \<and> fa_end s' = fa_end s \<and> (\<forall>p \<in> set (recycled_mega s'). p mod npages Page2M = 0) \<and> (\<forall>p \<in> set (recycled_giga s'). p mod npages Page1G = 0)"
  using assms(1-3) unfolding s'_def
proof (induction s pos "end" rule: recycle_range.induct)
  case (1 s pos e)
  have take: "frames n pos + mset [pos + n..<e] = mset [pos..<e]" if "n \<le> e - pos" "pos < e" for n
    using frames_take [of pos n e] that by simp
  consider "\<not> pos < e" | "pos < e" "pos mod npages Page1G = 0 \<and> e - pos \<ge> npages Page1G"
    | "pos < e" "\<not> (pos mod npages Page1G = 0 \<and> e - pos \<ge> npages Page1G)" "pos mod npages Page2M = 0 \<and> e - pos \<ge> npages Page2M"
    | "pos < e" "\<not> (pos mod npages Page1G = 0 \<and> e - pos \<ge> npages Page1G)" "\<not> (pos mod npages Page2M = 0 \<and> e - pos \<ge> npages Page2M)"
    by blast
  then show ?case
  proof cases
    case 1
    with "1.prems" show ?thesis by (subst (1 2 3 4 5 6) recycle_range.simps) simp
  next
    case 2
    let ?s = "s\<lparr>recycled_giga := recycled_giga s @ [pos]\<rparr>"
    have e: "recycle_range s pos e = recycle_range ?s (pos + npages Page1G) e" using 2 by (subst recycle_range.simps) simp
    from "1.IH"(1) [OF 2] "1.prems" 2 take [of "npages Page1G"] show ?thesis unfolding e by (auto simp: ac_simps)
  next
    case 3
    let ?s = "s\<lparr>recycled_mega := recycled_mega s @ [pos]\<rparr>"
    have e: "recycle_range s pos e = recycle_range ?s (pos + npages Page2M) e" by (subst recycle_range.simps) (simp only: 3 if_True if_False simp_thms)
    from "1.IH"(2) [OF 3] "1.prems" 3(1,3) take [of "npages Page2M"] show ?thesis unfolding e by (auto simp: ac_simps)
  next
    case 4
    let ?s = "s\<lparr>recycled_std := recycled_std s @ [pos]\<rparr>"
    have e: "recycle_range s pos e = recycle_range ?s (pos + 1) e" by (subst recycle_range.simps) (simp only: 4 if_True if_False)
    have r: "mset [pos..<e] = frames (npages Page4K) pos + mset [pos + 1..<e]" using take [of 1] 4(1) by simp
    have l: "pos + 1 \<le> e" "\<forall>p \<in> set (recycled_mega ?s). p mod npages Page2M = 0" "\<forall>p \<in> set (recycled_giga ?s). p mod npages Page1G = 0"
      using 4(1) "1.prems"(2,3) by simp_all
    have q: "block_frames (npages Page4K) (recycled_std ?s) = block_frames (npages Page4K) (recycled_std s) + frames (npages Page4K) pos"
      "recycled_mega ?s = recycled_mega s" "recycled_giga ?s = recycled_giga s" "fa_end ?s = fa_end s" by simp_all
    from "1.IH"(3) [OF 4 l] show ?thesis unfolding e r q by (simp only: ac_simps simp_thms) blast
  qed
qed

text \<open>What an allocation does to the free frames.\<close>

definition takes :: "frame_allocator \<Rightarrow> nat \<Rightarrow> frame_allocator \<times> nat option \<Rightarrow> bool" where
  "takes s n r \<longleftrightarrow>
     (case r of
        (s', None) \<Rightarrow> s' = s
      | (s', Some p) \<Rightarrow> fa_inv s' \<and> fa_end s' = fa_end s \<and> p mod n = 0 \<and> free_set s = free_set s' + frames n p)"

lemma grid_aligned: "b mod u = 0 \<Longrightarrow> (b + i * u) mod u = 0" for b u :: nat
  by simp

lemma take_std: "fa_inv s \<Longrightarrow> recycled_std s \<noteq> [] \<Longrightarrow>
    takes s (npages Page4K) (s\<lparr>recycled_std := butlast (recycled_std s)\<rparr>, Some (last (recycled_std s)))"
  using block_frames_unzip [of "recycled_std s" "npages Page4K"] by (simp add: takes_def fa_inv_def free_set_def ac_simps)

lemma take_mega: "fa_inv s \<Longrightarrow> recycled_mega s \<noteq> [] \<Longrightarrow>
    takes s (npages Page2M) (s\<lparr>recycled_mega := butlast (recycled_mega s)\<rparr>, Some (last (recycled_mega s)))"
  using block_frames_unzip [of "recycled_mega s" "npages Page2M"]
  by (auto simp: takes_def fa_inv_def free_set_def ac_simps dest: in_set_butlastD)

lemma take_giga: "fa_inv s \<Longrightarrow> recycled_giga s \<noteq> [] \<Longrightarrow>
    takes s (npages Page1G) (s\<lparr>recycled_giga := butlast (recycled_giga s)\<rparr>, Some (last (recycled_giga s)))"
  using block_frames_unzip [of "recycled_giga s" "npages Page1G"]
  by (auto simp: takes_def fa_inv_def free_set_def ac_simps dest: in_set_butlastD)

text \<open>Splitting a block just taken: the first part is handed out, the rest is recycled one level down.\<close>

lemma split_mega:
  assumes t: "takes s (npages Page2M) (s1, Some b)" and e: "split_into b (npages Page2M) 1 (recycled_std s1) = (std, p)"
  shows "takes s (npages Page4K) (s1\<lparr>recycled_std := std\<rparr>, Some p)"
  using t split_frames [OF _ e] by (auto simp: takes_def fa_inv_def free_set_def ac_simps)

lemma split_giga:
  assumes t: "takes s (npages Page1G) (s1, Some b)"
    and e: "split_into b (npages Page1G div npages Page2M) (npages Page2M) (recycled_mega s1) = (mega, p)"
  shows "takes s (npages Page2M) (s1\<lparr>recycled_mega := mega\<rparr>, Some p)"
proof -
  have b: "b mod 512 = 0" using t mod_mod_cancel [of 512 262144 b] by (simp add: takes_def)
  have "x mod 512 = 0" if "x \<in> set mega" for x
    using split_frames(3) [OF _ e that] t b by (auto simp: takes_def fa_inv_def)
  with t split_frames(1,2) [OF _ e] b show ?thesis by (auto simp: takes_def fa_inv_def free_set_def ac_simps)
qed

lemma take_fresh:
  assumes i: "fa_inv s" and n: "0 < n"
  shows "takes s n (fresh_aligned s n)"
proof -
  let ?a = "(fa_current s + n - 1) div n * n"
  have a: "fa_current s \<le> ?a"
    using n mod_less_divisor [OF n, of "fa_current s + n - 1"] div_mult_mod_eq [of "fa_current s + n - 1" n] by linarith
  show ?thesis
  proof (cases "?a + n > fa_end s")
    case False
    let ?s = "recycle_range s (fa_current s) ?a"
    note r = recycle_range_spec [OF a, of s]
    have "?a \<le> fa_end s" "?a + n \<le> fa_end s" using False by linarith+
    note range_append [OF a this(1)] frames_take [OF this(2)]
    then have "mset [fa_current s..<fa_end s] = mset [fa_current s..<?a] + (frames n ?a + mset [?a + n..<fa_end s])" by metis
    moreover have "fresh_aligned s n = (?s\<lparr>fa_current := ?a + n\<rparr>, Some ?a)" using False by (simp add: fresh_aligned_def Let_def)
    ultimately show ?thesis using r i False by (simp add: takes_def fa_inv_def free_set_def ac_simps)
  qed (simp add: takes_def fresh_aligned_def Let_def)
qed

lemma fa_alloc_takes:
  assumes i: "fa_inv s"
  shows "takes s (npages p) (fa_alloc s p)"
proof (cases p)
  case Page4K
  note m = take_mega [OF i] and g = take_giga [OF i]
  obtain std q where e: "split_into (last (recycled_mega s)) (npages Page2M) 1 (recycled_std s) = (std, q)" by fastforce
  obtain mega q2 where e2: "split_into (last (recycled_giga s)) (npages Page1G div npages Page2M) (npages Page2M) (recycled_mega s) = (mega, q2)" by fastforce
  obtain std3 q3 where e3: "split_into q2 (npages Page2M) 1 (recycled_std s) = (std3, q3)" by fastforce
  consider "recycled_std s \<noteq> []" | "recycled_std s = []" "recycled_mega s \<noteq> []"
    | "recycled_std s = []" "recycled_mega s = []" "fa_current s < fa_end s"
    | "recycled_std s = []" "recycled_mega s = []" "\<not> fa_current s < fa_end s" by blast
  then show ?thesis
  proof cases
    case 1
    with Page4K take_std [OF i] show ?thesis by (simp add: fa_alloc_def alloc_std_def)
  next
    case 2
    from split_mega [OF m [OF 2(2)], of std q] e 2 Page4K show ?thesis by (simp add: fa_alloc_def alloc_std_def)
  next
    case 3
    have "mset [fa_current s..<fa_end s] = frames 1 (fa_current s) + mset [fa_current s + 1..<fa_end s]"
      using frames_take [of "fa_current s" 1 "fa_end s"] 3(3) by simp
    with 3 i Page4K show ?thesis by (simp add: fa_alloc_def alloc_std_def takes_def fa_inv_def free_set_def)
  next
    case 4
    show ?thesis
    proof (cases "recycled_giga s = []")
      case True
      with 4 Page4K show ?thesis by (simp add: fa_alloc_def alloc_std_def takes_def)
    next
      case False
      from split_mega [OF split_giga [OF g [OF False], of mega q2], of std3 q3] e2 e3 False 4 Page4K
      show ?thesis by (simp add: fa_alloc_def alloc_std_def Let_def)
    qed
  qed
next
  case Page2M
  obtain mega q2 where e2: "split_into (last (recycled_giga s)) (npages Page1G div npages Page2M) (npages Page2M) (recycled_mega s) = (mega, q2)" by fastforce
  show ?thesis
    using take_mega [OF i] split_giga [OF take_giga [OF i], of mega q2] e2 take_fresh [OF i, of "npages Page2M"] Page2M
    by (auto simp: fa_alloc_def alloc_mega_def Let_def)
next
  case Page1G
  show ?thesis using take_giga [OF i] take_fresh [OF i, of "npages Page1G"] Page1G by (simp add: fa_alloc_def alloc_giga_def)
qed

lemma fa_dealloc_spec:
  assumes i: "fa_inv s" and e: "fa_dealloc s b p = Some s'" and a: "b mod npages p = 0"
  shows "fa_inv s' \<and> fa_end s' = fa_end s \<and> free_set s' = free_set s + frames (npages p) b"
  using assms by (cases p) (auto simp: fa_dealloc_def fa_inv_def free_set_def ac_simps split: if_splits)

lemma recycled_free:
  "b \<in> set (recycled_std s) \<Longrightarrow> b \<in># free_set s" "b \<in> set (recycled_mega s) \<Longrightarrow> b \<in># free_set s"
  "b \<in> set (recycled_giga s) \<Longrightarrow> b \<in># free_set s"
proof -
  have "b \<in># block_frames n ps" if "b \<in> set ps" "0 < n" for n ps
    using that by (induction ps) (auto simp: frames_def)
  then show "b \<in> set (recycled_std s) \<Longrightarrow> b \<in># free_set s" "b \<in> set (recycled_mega s) \<Longrightarrow> b \<in># free_set s"
    "b \<in> set (recycled_giga s) \<Longrightarrow> b \<in># free_set s" by (simp_all add: free_set_def)
qed

subsection \<open>The allocator in use\<close>

text \<open>\<open>held\<close>: the blocks handed out and not yet given back.\<close>

definition held_frames :: "(nat \<times> page_size) multiset \<Rightarrow> nat multiset" where
  "held_frames h = sum_mset (image_mset (\<lambda>(b, p). frames (npages p) b) h)"

inductive fa_step :: "frame_allocator \<times> (nat \<times> page_size) multiset \<Rightarrow> frame_allocator \<times> (nat \<times> page_size) multiset \<Rightarrow> bool" where
  Alloc: "fa_alloc s p = (s', Some b) \<Longrightarrow> fa_step (s, h) (s', add_mset (b, p) h)"
| Dealloc: "fa_dealloc s b p = Some s' \<Longrightarrow> fa_step (s, add_mset (b, p) h) (s', h)"

definition fa_ok :: "nat \<Rightarrow> nat \<Rightarrow> frame_allocator \<times> (nat \<times> page_size) multiset \<Rightarrow> bool" where
  "fa_ok l r c \<longleftrightarrow> (case c of (s, h) \<Rightarrow>
     fa_inv s \<and> fa_end s = r \<and> free_set s + held_frames h = mset [l..<r] \<and> (\<forall>(b, p) \<in># h. b mod npages p = 0))"

lemma fa_ok_init: "l \<le> r \<Longrightarrow> fa_ok l r (fa_init fa_new l r, {#})"
  by (simp add: fa_ok_def fa_init_def fa_new_def fa_inv_def free_set_def held_frames_def)

lemma fa_step_ok: "fa_step c c' \<Longrightarrow> fa_ok l r c \<Longrightarrow> fa_ok l r c'"
proof (induction rule: fa_step.induct)
  case (Alloc s p s' b h)
  then have "takes s (npages p) (s', Some b)" using fa_alloc_takes [of s p] by (simp add: fa_ok_def)
  with Alloc show ?case by (auto simp: fa_ok_def takes_def held_frames_def ac_simps)
next
  case (Dealloc s b p s' h)
  then show ?case using fa_dealloc_spec [of s b p s'] by (auto simp: fa_ok_def held_frames_def ac_simps)
qed

lemma fa_reachable_ok:
  assumes "fa_step\<^sup>*\<^sup>* (fa_init fa_new l r, {#}) c" "l \<le> r"
  shows "fa_ok l r c"
  using assms by (induction rule: rtranclp_induct) (auto simp: fa_ok_init intro: fa_step_ok)

text \<open>
  C12. Physical frames are conserved: after any sequence of allocations of all three page sizes
  and releases, the free frames and the frames of the blocks in use are together exactly the
  frames of the range, each once.  So no frame is in two blocks in use, none is both free and
  in use, none is lost; blocks are aligned to their size, and the free count is exact.
\<close>

theorem frames_conserved:
  assumes "fa_step\<^sup>*\<^sup>* (fa_init fa_new l r, {#}) (s, h)" "l \<le> r"
  shows "free_set s + held_frames h = mset [l..<r] \<and> (\<forall>b p. (b, p) \<in># h \<longrightarrow> b mod npages p = 0)
    \<and> free_frames s = size (free_set s)"
proof -
  have "size (block_frames n ps) = length ps * n" for n ps
    by (induction ps) (simp_all add: frames_def)
  then have "free_frames s = size (free_set s)" by (simp add: free_frames_def free_set_def)
  with fa_reachable_ok [OF assms] show ?thesis by (auto simp: fa_ok_def)
qed

theorem frames_conserved_witness:
  "\<exists>s h. fa_step\<^sup>*\<^sup>* (fa_init fa_new 600 2000, {#}) (s, h) \<and> (1024, Page2M) \<in># h \<and> free_set s + held_frames h = mset [600..<2000]"
proof -
  obtain s where e: "fa_alloc (fa_init fa_new 600 2000) Page2M = (s, Some 1024)"
    by (simp add: fa_alloc_def alloc_mega_def fa_init_def fa_new_def fresh_aligned_def Let_def)
  have r: "fa_step\<^sup>*\<^sup>* (fa_init fa_new 600 2000, {#}) (s, add_mset (1024, Page2M) {#})"
    by (rule r_into_rtranclp) (rule fa_step.Alloc [OF e])
  have le: "(600 :: nat) \<le> 2000" by simp
  show ?thesis
    by (intro exI [of _ s] exI [of _ "add_mset (1024, Page2M) {#}"] conjI, rule r, simp,
        rule frames_conserved [OF r le, THEN conjunct1])
qed

text \<open>
  C31. Giving back a block in use never panics: the release checks of \<open>dealloc\<close> never fire on a
  block that was handed out and not yet returned.
\<close>

theorem frame_release_never_panics:
  assumes r: "fa_step\<^sup>*\<^sup>* (fa_init fa_new l r, {#}) (s, h)" "l \<le> r" and h: "(b, p) \<in># h"
  shows "fa_dealloc s b p \<noteq> None"
proof -
  from fa_reachable_ok [OF r] have ok: "fa_end s = r" "free_set s + held_frames h = mset [l..<r]" by (auto simp: fa_ok_def)
  from h obtain h' where h': "h = add_mset (b, p) h'" by (blast dest: multi_member_split)
  have "b \<in># frames (npages p) b" by (cases p) (simp_all add: frames_def)
  then have m: "b \<in># held_frames h" by (simp add: h' held_frames_def)
  have "b \<in># mset [l..<r]" unfolding ok(2) [symmetric] using m by simp
  then have lt: "b < r" by simp
  have "count (free_set s) b + count (held_frames h) b \<le> 1" unfolding count_union [symmetric] ok(2) by (simp add: count_mset_set' mset_upt)
  moreover have "0 < count (held_frames h) b" using m by simp
  ultimately have "count (free_set s) b = 0" by linarith
  then have "b \<notin># free_set s" by (simp add: not_in_iff)
  then show ?thesis using recycled_free [of b s] lt ok(1) by (cases p) (auto simp: fa_dealloc_def)
qed

theorem frame_release_never_panics_witness:
  "\<exists>s. fa_alloc (fa_init fa_new 600 2000) Page2M = (s, Some 1024) \<and> fa_dealloc s 1024 Page2M \<noteq> None"
proof -
  obtain s where e: "fa_alloc (fa_init fa_new 600 2000) Page2M = (s, Some 1024)"
    by (simp add: fa_alloc_def alloc_mega_def fa_init_def fa_new_def fresh_aligned_def Let_def)
  have r: "fa_step\<^sup>*\<^sup>* (fa_init fa_new 600 2000, {#}) (s, add_mset (1024, Page2M) {#})"
    by (rule r_into_rtranclp) (rule fa_step.Alloc [OF e])
  from frame_release_never_panics [OF r, of 1024 Page2M] e show ?thesis by simp
qed

text \<open>
  A standard page is refused only when no frame is free: the recycled lists of every size
  and the fresh range are all exhausted.
\<close>

theorem alloc_std_exhaustive:
  assumes "fa_inv s"
  shows "snd (fa_alloc s Page4K) = None \<longleftrightarrow> free_set s = {#}"
proof -
  have ne: "ps \<noteq> [] \<Longrightarrow> block_frames n ps \<noteq> {#}" if "0 < n" for n ps
    using that by (cases ps) (auto simp: frames_def)
  have "snd (fa_alloc s Page4K) = None \<longleftrightarrow> recycled_std s = [] \<and> recycled_mega s = [] \<and> recycled_giga s = [] \<and> \<not> fa_current s < fa_end s"
    by (auto simp: fa_alloc_def alloc_std_def Let_def split: prod.splits)
  also have "\<dots> \<longleftrightarrow> free_set s = {#}"
    using ne [of "npages Page4K"] ne [of "npages Page2M"] ne [of "npages Page1G"] by (auto simp: free_set_def)
  finally show ?thesis .
qed

theorem alloc_std_exhaustive_witness: "fa_inv (fa_init fa_new 5 5) \<and> snd (fa_alloc (fa_init fa_new 5 5) Page4K) = None"
proof -
  have i: "fa_inv (fa_init fa_new 5 5)" by (simp add: fa_inv_def fa_init_def fa_new_def)
  have "free_set (fa_init fa_new 5 5) = {#}" by (simp add: free_set_def fa_init_def fa_new_def)
  with alloc_std_exhaustive [OF i] i show ?thesis by simp
qed

end
