(* ===== verification/Recycle_Alloc.thy ===== *)
theory Recycle_Alloc
  imports Kernel_Prelude
begin

unbundle bit_operations_syntax

text \<open>
  The recycling id allocator of \<open>process/id.rs\<close>, which numbers processes and threads, address
  spaces, message queues and shared memory segments, and the kernel stacks built on it.  Its
  contract is the locale \<open>id_pool\<close>: an id handed out is not in use, and an id in use can be
  given back.
\<close>

subsection \<open>The allocator\<close>

record recycle_allocator =
  ra_current :: usize
  ra_recycled :: "usize list"

definition ra_new_with_start :: "usize \<Rightarrow> recycle_allocator" where
  "ra_new_with_start start = \<lparr>ra_current = start, ra_recycled = []\<rparr>"

definition ra_new :: recycle_allocator where
  "ra_new = \<lparr>ra_current = 0, ra_recycled = []\<rparr>"

text \<open>\<open>recycled\<close> is a stack: \<open>push\<close> appends and \<open>pop\<close> takes the last element.\<close>

definition ra_alloc :: "recycle_allocator \<Rightarrow> recycle_allocator \<times> usize" where
  "ra_alloc a =
     (if ra_recycled a \<noteq> [] then (a\<lparr>ra_recycled := butlast (ra_recycled a)\<rparr>, last (ra_recycled a))
      else (a\<lparr>ra_current := ra_current a + 1\<rparr>, ra_current a + 1 - 1))"

definition ra_dealloc :: "recycle_allocator \<Rightarrow> usize \<Rightarrow> recycle_allocator option" where
  "ra_dealloc a i =
     do { guard_panic (i < ra_current a);
          guard_panic (\<not> list_ex (\<lambda>j. j = i) (ra_recycled a));
          Some (a\<lparr>ra_recycled := ra_recycled a @ [i]\<rparr>) }"

subsection \<open>The contract\<close>

locale id_pool =
  fixes pool_inv :: "'s \<Rightarrow> usize set \<Rightarrow> bool"
    and alloc :: "'s \<Rightarrow> 's \<times> usize"
    and dealloc :: "'s \<Rightarrow> usize \<Rightarrow> 's option"
    and cap :: nat
  assumes alloc_fresh: "pool_inv s L \<Longrightarrow> card L < cap \<Longrightarrow> alloc s = (s', i) \<Longrightarrow> i \<notin> L \<and> pool_inv s' (insert i L)"
    and dealloc_live: "pool_inv s L \<Longrightarrow> i \<in> L \<Longrightarrow> \<exists>s'. dealloc s i = Some s' \<and> pool_inv s' (L - {i})"
begin

text \<open>Every sequence of allocations and releases of ids in use returns, and never repeats a live id.\<close>

fun pool_run :: "bool list \<Rightarrow> 's \<Rightarrow> usize list \<Rightarrow> ('s \<times> usize list) option" where
  "pool_run [] s L = Some (s, L)"
| "pool_run (True # ops) s L = (case alloc s of (s', i) \<Rightarrow> pool_run ops s' (L @ [i]))"
| "pool_run (False # ops) s [] = pool_run ops s []"
| "pool_run (False # ops) s (i # L) = do { s' \<leftarrow> dealloc s i; pool_run ops s' L }"

lemma pool_run_unique:
  assumes "pool_inv s (set L)" "distinct L" "length L + length (filter id ops) \<le> cap"
  shows "\<exists>s' L'. pool_run ops s L = Some (s', L') \<and> distinct L' \<and> pool_inv s' (set L')"
  using assms
proof (induction ops s L rule: pool_run.induct)
  case (2 ops s L)
  obtain s' i where a: "alloc s = (s', i)" by fastforce
  with 2 alloc_fresh [OF "2.prems"(1) _ a] show ?case by (simp add: distinct_card)
next
  case (4 ops s i L)
  from dealloc_live [of s "set (i # L)" i] "4.prems" obtain s' where
    "dealloc s i = Some s'" "pool_inv s' (set (i # L) - {i})" by auto
  moreover have "set (i # L) - {i} = set L" using "4.prems"(2) by auto
  ultimately show ?case using "4.IH" "4.prems" by auto
qed auto

end

subsection \<open>The allocator meets it\<close>

definition ra_inv :: "usize \<Rightarrow> recycle_allocator \<Rightarrow> usize set \<Rightarrow> bool" where
  "ra_inv start a L \<longleftrightarrow> start \<le> ra_current a \<and> distinct (ra_recycled a) \<and> set (ra_recycled a) \<inter> L = {}
     \<and> set (ra_recycled a) \<union> L = {start..<ra_current a}"

lemma ra_inv_new: "ra_inv start (ra_new_with_start start) {}" "ra_inv 0 ra_new {}"
  by (simp_all add: ra_inv_def ra_new_with_start_def ra_new_def)

lemma unat_interval: "unat ` {a..<b} = {unat a..<unat b}" for a b :: usize
proof (intro subset_antisym subsetI)
  fix n assume n: "n \<in> {unat a..<unat b}"
  moreover have "n < 2 ^ 64" using n unsigned_less [of b, where ?'a = nat] by simp
  ultimately have "n = unat (of_nat n :: usize)" "(of_nat n :: usize) \<in> {a..<b}"
    by (simp_all add: unat_of_nat word_less_nat_alt word_le_nat_alt)
  then show "n \<in> unat ` {a..<b}" by blast
qed (auto simp: word_less_nat_alt word_le_nat_alt)

lemma card_word_interval: "card {a..<b} = unat b - unat a" for a b :: usize
proof -
  have "inj_on unat {a..<b}" by (simp add: inj_on_def word_unat_eq_iff)
  from card_image [OF this] show ?thesis by (simp add: unat_interval)
qed

lemma word_less_Suc: "c \<noteq> - 1 \<Longrightarrow> x < c + 1 \<longleftrightarrow> x \<le> c" for c x :: usize
proof -
  assume "c \<noteq> - 1"
  then have "unat c \<noteq> 2 ^ 64 - 1" using unat_minus_one [where ?'a = 64] by (auto simp: word_unat_eq_iff)
  then have "Suc (unat c) < 2 ^ 64" using unat_le_max [of c] by simp
  then show ?thesis by (auto simp: word_less_nat_alt word_le_nat_alt unat_plus_one)
qed

lemma ra_alloc_fresh:
  assumes i: "ra_inv start a L" and c: "card L < 2 ^ 64 - 1 - unat start" and e: "ra_alloc a = (a', x)"
  shows "x \<notin> L \<and> ra_inv start a' (insert x L)"
proof (cases "ra_recycled a = []")
  case False
  then obtain ys where ys: "ra_recycled a = ys @ [x]" "a' = a\<lparr>ra_recycled := ys\<rparr>"
    using e by (auto simp: ra_alloc_def) (metis append_butlast_last_id)
  with i show ?thesis by (auto simp: ra_inv_def)
next
  case True
  with i have L: "L = {start..<ra_current a}" and s: "start \<le> ra_current a" by (auto simp: ra_inv_def)
  with c have "unat (ra_current a) < 2 ^ 64 - 1" by (simp add: card_word_interval word_le_nat_alt)
  then have m: "ra_current a \<noteq> - 1" by (auto simp: unat_minus_one)
  from True e have "x = ra_current a" "a' = a\<lparr>ra_current := ra_current a + 1\<rparr>" by (auto simp: ra_alloc_def)
  moreover have "insert (ra_current a) {start..<ra_current a} = {start..<ra_current a + 1}"
    using s by (auto simp: word_less_Suc [OF m] dest: order_less_imp_le)
  moreover have "start \<le> ra_current a + 1" using s word_less_plus_one [OF m] by (auto simp: word_le_less_eq)
  ultimately show ?thesis using i L True by (auto simp: ra_inv_def)
qed

lemma ra_dealloc_live:
  assumes i: "ra_inv start a L" and x: "x \<in> L"
  shows "\<exists>a'. ra_dealloc a x = Some a' \<and> ra_inv start a' (L - {x})"
proof -
  have "x \<in> {start..<ra_current a}" "x \<notin> set (ra_recycled a)" using i x by (auto simp: ra_inv_def)
  with i x show ?thesis by (auto simp: ra_dealloc_def ra_inv_def list_ex_iff)
qed

interpretation ra: id_pool "ra_inv start" ra_alloc ra_dealloc "2 ^ 64 - 1 - unat start" for start
  by unfold_locales (rule ra_alloc_fresh, assumption+, rule ra_dealloc_live)

end
