(* ===== verification/Kernel_Stack.thy ===== *)
theory Kernel_Stack
  imports Recycle_Alloc Kernel_Config
begin

text \<open>
  Kernel stacks (\<open>process/id.rs\<close>): where stack number \<open>i\<close> lies in the kernel address space, on
  RISC-V and on LoongArch, and the pool of stacks with its cache of mapped but unused ones.
  Address space identifiers (\<open>mm/id.rs\<close>).
\<close>

subsection \<open>Positions\<close>

definition KSTACK_LOWEST :: usize where "KSTACK_LOWEST = 0xffffffffc0000000"

definition kernel_stack_position :: "usize \<Rightarrow> (usize \<times> usize) option" where
  "kernel_stack_position app_id =
     do { offset \<leftarrow> checked_mul app_id (KERNEL_STACK_SIZE + PAGE_SIZE);
          top \<leftarrow> checked_sub TRAMPOLINE offset;
          bottom \<leftarrow> checked_sub top KERNEL_STACK_SIZE;
          guard_panic (\<not> bottom < KSTACK_LOWEST);
          Some (bottom, top) }"

definition kernel_stack_position_la :: "usize \<Rightarrow> (usize \<times> usize) option" where
  "kernel_stack_position_la app_id =
     (if app_id \<ge> (LOWRAM_END - LOWRAM_BASE) div KERNEL_STACK_SIZE then None
      else let top = LOWRAM_END - app_id * (KERNEL_STACK_SIZE + PAGE_SIZE) in
           Some (top - KERNEL_STACK_SIZE, top))"

lemma kernel_stack_position_Some:
  assumes "kernel_stack_position i = Some (b, t)"
  shows "unat t = 2 ^ 64 - 4096 - unat i * 135168" "unat b = unat t - 131072"
    "unat i * 135168 + 131072 \<le> 2 ^ 64 - 4096" "KSTACK_LOWEST \<le> b"
proof -
  from assms obtain off where o: "checked_mul i (KERNEL_STACK_SIZE + PAGE_SIZE) = Some off"
      "checked_sub TRAMPOLINE off = Some t" "checked_sub t KERNEL_STACK_SIZE = Some b" "KSTACK_LOWEST \<le> b"
    by (auto simp: kernel_stack_position_def bind_eq_Some_conv not_less)
  note f = checked_mul_Some [OF o(1)] checked_sub_Some [OF o(2)] checked_sub_Some [OF o(3)]
  have "unat (KERNEL_STACK_SIZE + PAGE_SIZE) = 135168" "unat KERNEL_STACK_SIZE = 131072" "unat TRAMPOLINE = 2 ^ 64 - 4096"
    by (simp_all add: KERNEL_STACK_SIZE_def PAGE_SIZE_def TRAMPOLINE_def unsigned_minus_1_eq_mask)
  note f = f [unfolded this]
  show "unat t = 2 ^ 64 - 4096 - unat i * 135168" "unat b = unat t - 131072" using f by simp_all
  show "unat i * 135168 + 131072 \<le> 2 ^ 64 - 4096" using f by linarith
  show "KSTACK_LOWEST \<le> b" by (rule o(4))
qed

lemma stack_ranges_disjoint:
  assumes i: "kernel_stack_position i = Some (b, t)" and j: "kernel_stack_position j = Some (b', t')" and lt: "i < j"
  shows "unat t' + 4096 \<le> unat b"
proof -
  note I = kernel_stack_position_Some [OF i] and J = kernel_stack_position_Some [OF j]
  have "Suc (unat i) * 135168 \<le> unat j * 135168" using lt by (intro mult_right_mono) (simp_all add: word_less_nat_alt)
  then show ?thesis using I J by simp
qed

text \<open>
  C27. RISC-V kernel stacks lie in the region of root entry 511 below the trampoline, are
  128 KiB, and any two of them are separated by at least one unmapped guard page.
\<close>

theorem kernel_stacks_separated:
  assumes "kernel_stack_position i = Some (b, t)" "kernel_stack_position j = Some (b', t')" "i \<noteq> j"
  shows "KSTACK_LOWEST \<le> b \<and> unat b + unat KERNEL_STACK_SIZE = unat t \<and> t \<le> TRAMPOLINE
    \<and> (unat t' + unat PAGE_SIZE \<le> unat b \<or> unat t + unat PAGE_SIZE \<le> unat b')"
proof -
  note I = kernel_stack_position_Some [OF assms(1)]
  have n: "unat KERNEL_STACK_SIZE = 131072" "unat PAGE_SIZE = 4096" "unat TRAMPOLINE = 2 ^ 64 - 4096"
    by (simp_all add: KERNEL_STACK_SIZE_def PAGE_SIZE_def TRAMPOLINE_def unsigned_minus_1_eq_mask)
  have "i < j \<or> j < i" using assms(3) by auto
  then have "unat t' + 4096 \<le> unat b \<or> unat t + 4096 \<le> unat b'"
    using stack_ranges_disjoint [OF assms(1,2)] stack_ranges_disjoint [OF assms(2,1)] by blast
  then show ?thesis using I n by (simp add: word_le_nat_alt)
qed

theorem kernel_stacks_separated_witness:
  "kernel_stack_position 3 = Some (0xfffffffffff7c000, 0xfffffffffff9c000)
   \<and> kernel_stack_position 4 = Some (0xfffffffffff5b000, 0xfffffffffff7b000)
   \<and> unat (0xfffffffffff7b000 :: usize) + unat PAGE_SIZE \<le> unat (0xfffffffffff7c000 :: usize)"
proof -
  have e: "kernel_stack_position 3 = Some (0xfffffffffff7c000, 0xfffffffffff9c000)"
    "kernel_stack_position 4 = Some (0xfffffffffff5b000, 0xfffffffffff7b000)"
    by (simp_all add: kernel_stack_position_def checked_mul_def checked_sub_def KERNEL_STACK_SIZE_def PAGE_SIZE_def
        TRAMPOLINE_def KSTACK_LOWEST_def)
  from kernel_stacks_separated [OF e] e show ?thesis by (simp add: PAGE_SIZE_def)
qed


subsection \<open>The pool of stacks\<close>

definition KSTACK_CACHE_LIMIT :: nat where "KSTACK_CACHE_LIMIT = 64"

text \<open>\<open>ks_mapped\<close> holds the numbers of the stacks the kernel address space maps.\<close>

record kstack_pool =
  ks_alloc :: recycle_allocator
  ks_cache :: "usize list"
  ks_mapped :: "usize set"

definition kstack_new :: kstack_pool where
  "kstack_new = \<lparr>ks_alloc = ra_new, ks_cache = [], ks_mapped = {}\<rparr>"

definition kstack_alloc :: "kstack_pool \<Rightarrow> (kstack_pool \<times> usize) option" where
  "kstack_alloc s =
     (if ks_cache s \<noteq> [] then
        (let i = last (ks_cache s) in
         do { _ \<leftarrow> kernel_stack_position i; Some (s\<lparr>ks_cache := butlast (ks_cache s)\<rparr>, i) })
      else
        (let (a, i) = ra_alloc (ks_alloc s) in
         do { _ \<leftarrow> kernel_stack_position i; Some (s\<lparr>ks_alloc := a, ks_mapped := insert i (ks_mapped s)\<rparr>, i) }))"

definition kstack_drop :: "kstack_pool \<Rightarrow> usize \<Rightarrow> kstack_pool option" where
  "kstack_drop s i =
     (if length (ks_cache s) < KSTACK_CACHE_LIMIT then Some (s\<lparr>ks_cache := ks_cache s @ [i]\<rparr>)
      else do { _ \<leftarrow> kernel_stack_position i;
                a \<leftarrow> ra_dealloc (ks_alloc s) i;
                Some (s\<lparr>ks_alloc := a, ks_mapped := ks_mapped s - {i}\<rparr>) })"

text \<open>\<open>L\<close> is the set of stacks in use.\<close>

definition ks_inv :: "kstack_pool \<Rightarrow> usize set \<Rightarrow> bool" where
  "ks_inv s L \<longleftrightarrow> ra_inv 0 (ks_alloc s) (L \<union> set (ks_cache s)) \<and> distinct (ks_cache s) \<and> L \<inter> set (ks_cache s) = {}
     \<and> length (ks_cache s) \<le> KSTACK_CACHE_LIMIT \<and> ks_mapped s = L \<union> set (ks_cache s)
     \<and> (\<forall>i \<in> ks_mapped s. kernel_stack_position i \<noteq> None)"

inductive ks_step :: "kstack_pool \<times> usize set \<Rightarrow> kstack_pool \<times> usize set \<Rightarrow> bool" where
  Alloc: "kstack_alloc s = Some (s', i) \<Longrightarrow> ks_step (s, L) (s', insert i L)"
| Drop: "i \<in> L \<Longrightarrow> kstack_drop s i = Some s' \<Longrightarrow> ks_step (s, L) (s', L - {i})"

lemma ks_inv_new: "ks_inv kstack_new {}"
  by (simp add: ks_inv_def kstack_new_def ra_inv_new)

lemma ks_card:
  assumes "ks_inv s L"
  shows "card (L \<union> set (ks_cache s)) < 2 ^ 64 - 1"
proof -
  have "unat i \<le> 2 ^ 47" if "i \<in> L \<union> set (ks_cache s)" for i
  proof -
    from that assms obtain b t where "kernel_stack_position i = Some (b, t)" by (fastforce simp: ks_inv_def)
    from kernel_stack_position_Some(3) [OF this] show ?thesis by simp
  qed
  then have "unat ` (L \<union> set (ks_cache s)) \<subseteq> {..2 ^ 47}" by auto
  from card_mono [OF _ this] have "card (unat ` (L \<union> set (ks_cache s))) \<le> 2 ^ 47 + 1" by simp
  moreover have "inj_on unat (L \<union> set (ks_cache s))" by (simp add: inj_on_def word_unat_eq_iff)
  ultimately show ?thesis by (simp add: card_image)
qed

lemma ks_alloc_inv:
  assumes i: "ks_inv s L" and e: "kstack_alloc s = Some (s', x)"
  shows "x \<notin> L \<and> ks_inv s' (insert x L)"
proof (cases "ks_cache s = []")
  case False
  then obtain ys where ys: "ks_cache s = ys @ [x]" "s' = s\<lparr>ks_cache := ys\<rparr>"
    using e by (auto simp: kstack_alloc_def bind_eq_Some_conv Let_def) (metis append_butlast_last_id)
  have "insert x L \<union> set ys = L \<union> set (ks_cache s)" using ys(1) by auto
  with i ys show ?thesis by (auto simp: ks_inv_def)
next
  case True
  with e obtain a p where a: "ra_alloc (ks_alloc s) = (a, x)" "kernel_stack_position x = Some p"
      "s' = s\<lparr>ks_alloc := a, ks_mapped := insert x (ks_mapped s)\<rparr>"
    by (auto simp: kstack_alloc_def bind_eq_Some_conv split: prod.splits)
  have "ra_inv 0 (ks_alloc s) L" "card L < 2 ^ 64 - 1 - unat 0" using i True ks_card [OF i] by (simp_all add: ks_inv_def)
  from ra.alloc_fresh [OF this a(1)] i True a show ?thesis by (auto simp: ks_inv_def)
qed

lemma ks_drop_inv:
  assumes i: "ks_inv s L" and x: "x \<in> L"
  shows "\<exists>s'. kstack_drop s x = Some s' \<and> ks_inv s' (L - {x})"
proof (cases "length (ks_cache s) < KSTACK_CACHE_LIMIT")
  case True
  have "L - {x} \<union> set (ks_cache s @ [x]) = L \<union> set (ks_cache s)" using x by auto
  with i x True show ?thesis by (auto simp: kstack_drop_def ks_inv_def)
next
  case False
  have r: "ra_inv 0 (ks_alloc s) (L \<union> set (ks_cache s))" "x \<in> L \<union> set (ks_cache s)" using i x by (simp_all add: ks_inv_def)
  have "kernel_stack_position x \<noteq> None" using i x unfolding ks_inv_def by blast
  then obtain p where p: "kernel_stack_position x = Some p" by blast
  have d: "L \<union> set (ks_cache s) - {x} = L - {x} \<union> set (ks_cache s)" using i x by (auto simp: ks_inv_def)
  from ra.dealloc_live [OF r] i p False show ?thesis by (auto simp: kstack_drop_def ks_inv_def d)
qed

text \<open>
  C28. Over every interleaving of stack allocations and releases: a stack in use stays mapped,
  two stacks in use never touch, the cache holds at most 64 stacks and none that is in use,
  and releasing a stack in use never panics.
\<close>

theorem kstack_pool_safe:
  assumes "ks_step\<^sup>*\<^sup>* (kstack_new, {}) (s, L)"
  shows "L \<subseteq> ks_mapped s \<and> length (ks_cache s) \<le> 64 \<and> L \<inter> set (ks_cache s) = {}
    \<and> (\<forall>i j b t b' t'. i \<in> L \<longrightarrow> j \<in> L \<longrightarrow> i < j \<longrightarrow> kernel_stack_position i = Some (b, t) \<longrightarrow>
         kernel_stack_position j = Some (b', t') \<longrightarrow> unat t' < unat b)
    \<and> (\<forall>i. i \<in> L \<longrightarrow> kstack_drop s i \<noteq> None)"
proof -
  have "ks_inv (fst (s, L)) (snd (s, L))" using assms
  proof (induction rule: rtranclp_induct)
    case (step y z)
    from step(2,3) show ?case
      by (cases rule: ks_step.cases) (use ks_alloc_inv ks_drop_inv in fastforce)+
  qed (simp add: ks_inv_new)
  then have i: "ks_inv s L" by simp
  have "\<forall>i. i \<in> L \<longrightarrow> kstack_drop s i \<noteq> None" using ks_drop_inv [OF i] by fastforce
  moreover have "unat t' < unat b" if "kernel_stack_position i = Some (b, t)" "kernel_stack_position j = Some (b', t')" "i < j"
    for i j b t b' t' using stack_ranges_disjoint [OF that] by simp
  ultimately show ?thesis using i by (auto simp: ks_inv_def KSTACK_CACHE_LIMIT_def)
qed

theorem kstack_pool_safe_witness:
  "\<exists>s. ks_step\<^sup>*\<^sup>* (kstack_new, {}) (s, {0}) \<and> {0} \<subseteq> ks_mapped s \<and> kstack_drop s 0 \<noteq> None"
proof -
  let ?s = "\<lparr>ks_alloc = \<lparr>ra_current = 1, ra_recycled = []\<rparr>, ks_cache = [], ks_mapped = {0}\<rparr>"
  have "kstack_alloc kstack_new = Some (?s, 0)"
    by (simp add: kstack_alloc_def kstack_new_def ra_new_def ra_alloc_def kernel_stack_position_def checked_mul_def
        checked_sub_def KERNEL_STACK_SIZE_def PAGE_SIZE_def TRAMPOLINE_def KSTACK_LOWEST_def)
  then have r: "ks_step\<^sup>*\<^sup>* (kstack_new, {}) (?s, {0})" by (intro r_into_rtranclp ks_step.Alloc)
  with kstack_pool_safe [OF r] show ?thesis by (intro exI [of _ ?s]) simp
qed

subsection \<open>Address space identifiers\<close>

definition ASID_COUNT :: usize where "ASID_COUNT = 0x10000"

definition asid_alloc :: "recycle_allocator \<Rightarrow> (recycle_allocator \<times> usize) option" where
  "asid_alloc a = (let (a, asid) = ra_alloc a in do { guard_panic (asid < ASID_COUNT); Some (a, asid) })"

text \<open>Dropping the handle: RISC-V keeps the identifier retired, LoongArch recycles it.\<close>

definition asid_drop :: "recycle_allocator \<Rightarrow> usize \<Rightarrow> recycle_allocator option" where
  "asid_drop a asid = Some a"

definition asid_drop_la :: "recycle_allocator \<Rightarrow> usize \<Rightarrow> recycle_allocator option" where
  "asid_drop_la a asid = ra_dealloc a asid"

subsection \<open>Process and thread ids\<close>

text \<open>A thread id either owns its number or borrows the one of its process.\<close>

datatype tid_handle = TIdHandle usize bool

definition PID_START :: recycle_allocator where "PID_START = ra_new_with_start 1"

definition pid_alloc :: "recycle_allocator \<Rightarrow> recycle_allocator \<times> usize" where
  "pid_alloc a = ra_alloc a"

definition pid_drop :: "recycle_allocator \<Rightarrow> usize \<Rightarrow> recycle_allocator option" where
  "pid_drop a pid = ra_dealloc a pid"

definition tid_alloc :: "recycle_allocator \<Rightarrow> recycle_allocator \<times> tid_handle" where
  "tid_alloc a = (let (a, i) = ra_alloc a in (a, TIdHandle i True))"

definition tid_from_pid :: "usize \<Rightarrow> tid_handle" where
  "tid_from_pid pid = TIdHandle pid False"

fun tid_drop :: "recycle_allocator \<Rightarrow> tid_handle \<Rightarrow> recycle_allocator option" where
  "tid_drop a (TIdHandle i owned) = (if owned then ra_dealloc a i else Some a)"

text \<open>
  C29. A process that starts with a borrowed main thread id and creates threads: as long as the
  numbers in use fit, every number handed out is new, and dropping the main thread's borrowed
  handle leaves the number with the process, so that dropping the process handle afterwards
  releases it exactly once and a second release panics.
\<close>

theorem pid_tid_released_once:
  assumes i: "ra_inv 1 a L" and c: "card L < 2 ^ 64 - 2" and p: "pid_alloc a = (a1, pid)"
  shows "pid \<notin> L \<and> pid \<noteq> 0 \<and> tid_drop a1 (tid_from_pid pid) = Some a1
    \<and> (\<exists>a2. pid_drop a1 pid = Some a2 \<and> ra_inv 1 a2 L \<and> pid_drop a2 pid = None)"
proof -
  from ra.alloc_fresh [OF i] c p have f: "pid \<notin> L" "ra_inv 1 a1 (insert pid L)" by (auto simp: pid_alloc_def)
  then have "pid \<in> {1..<ra_current a1}" unfolding ra_inv_def by blast
  then have nz: "pid \<noteq> 0" by (auto simp: word_le_nat_alt)
  from ra.dealloc_live [OF f(2), of pid] f(1) obtain a2 where d: "ra_dealloc a1 pid = Some a2" "ra_inv 1 a2 L" by auto
  then have "pid \<in> set (ra_recycled a2)" by (auto simp: ra_dealloc_def bind_eq_Some_conv)
  then have "ra_dealloc a2 pid = None" by (auto simp: ra_dealloc_def list_ex_iff bind_eq_None_conv)
  with f nz d show ?thesis by (auto simp: tid_from_pid_def pid_drop_def)
qed

theorem pid_tid_released_once_witness:
  "pid_alloc PID_START = (\<lparr>ra_current = 2, ra_recycled = []\<rparr>, 1)
   \<and> (\<exists>a2. pid_drop \<lparr>ra_current = 2, ra_recycled = []\<rparr> 1 = Some a2 \<and> pid_drop a2 1 = None)"
proof -
  have e: "pid_alloc PID_START = (\<lparr>ra_current = 2, ra_recycled = []\<rparr>, 1)"
    by (simp add: pid_alloc_def PID_START_def ra_new_with_start_def ra_alloc_def)
  from pid_tid_released_once [of PID_START "{}", OF _ _ e] e show ?thesis by (auto simp: PID_START_def ra_inv_new)
qed

end
