(* ===== verification/Mm_Address.thy ===== *)
theory Mm_Address
  imports Kernel_Config
begin

unbundle bit_operations_syntax

text \<open>
  Addresses and page numbers (\<open>mm/address.rs\<close>): the four newtypes, their conversions, page table
  indexes and the iterators over page ranges, at the 64 bits of \<open>usize\<close> with the widths of
  RISC-V Sv39.  Raw pointer views (\<open>get_ref\<close>, \<open>get_bytes_array\<close> and the like) are memory accesses
  and not modelled; the alignment assertion of \<open>get_bytes_array_with_size\<close> is.
\<close>

subsection \<open>Types and conversions\<close>

datatype phys_addr = PhysAddr (pa: usize)
datatype virt_addr = VirtAddr (va: usize)
datatype phys_page_num = PhysPageNum (ppn: usize)
datatype virt_page_num = VirtPageNum (vpn: usize)

definition PPN_WIDTH :: nat where "PPN_WIDTH = PA_WIDTH - PAGE_SIZE_BITS"
definition VPN_WIDTH :: nat where "VPN_WIDTH = VA_WIDTH - PAGE_SIZE_BITS"

definition pa_from :: "usize \<Rightarrow> phys_addr" where
  "pa_from v = PhysAddr (v AND (push_bit PA_WIDTH 1 - 1))"

definition ppn_from :: "usize \<Rightarrow> phys_page_num" where
  "ppn_from v = PhysPageNum (v AND (push_bit PPN_WIDTH 1 - 1))"

definition va_from :: "usize \<Rightarrow> virt_addr" where
  "va_from v = VirtAddr (v AND (push_bit VA_WIDTH 1 - 1))"

definition vpn_from :: "usize \<Rightarrow> virt_page_num" where
  "vpn_from v = VirtPageNum (v AND (push_bit VPN_WIDTH 1 - 1))"

text \<open>\<open>usize::from(VirtAddr)\<close>, also \<open>full_addr\<close>: sign extension from bit \<open>VA_WIDTH - 1\<close>.\<close>

definition full_addr :: "virt_addr \<Rightarrow> usize" where
  "full_addr a = (if va a \<ge> push_bit (VA_WIDTH - 1) 1 then va a OR NOT (push_bit VA_WIDTH 1 - 1) else va a)"

definition va_floor :: "virt_addr \<Rightarrow> virt_page_num" where
  "va_floor a = VirtPageNum (va a div PAGE_SIZE)"

definition va_ceil :: "virt_addr \<Rightarrow> virt_page_num" where
  "va_ceil a = VirtPageNum ((va a - 1 + PAGE_SIZE) div PAGE_SIZE)"

definition va_page_offset :: "virt_addr \<Rightarrow> usize" where
  "va_page_offset a = va a AND (PAGE_SIZE - 1)"

definition va_actual_offset :: "virt_addr \<Rightarrow> page_size \<Rightarrow> usize" where
  "va_actual_offset a p = va a AND (ps_size p - 1)"

definition va_aligned :: "virt_addr \<Rightarrow> bool" where
  "va_aligned a \<longleftrightarrow> va_page_offset a = 0"

definition va_actual_aligned :: "virt_addr \<Rightarrow> page_size \<Rightarrow> bool" where
  "va_actual_aligned a p \<longleftrightarrow> va_actual_offset a p = 0"

definition vpn_of_va :: "virt_addr \<Rightarrow> virt_page_num option" where
  "vpn_of_va a = do { guard_panic (va_page_offset a = 0); Some (va_floor a) }"

definition va_of_vpn :: "virt_page_num \<Rightarrow> virt_addr" where
  "va_of_vpn v = VirtAddr (push_bit PAGE_SIZE_BITS (vpn v))"

definition pa_floor :: "phys_addr \<Rightarrow> phys_page_num" where
  "pa_floor a = PhysPageNum (pa a div PAGE_SIZE)"

definition pa_ceil :: "phys_addr \<Rightarrow> phys_page_num" where
  "pa_ceil a = PhysPageNum ((pa a + PAGE_SIZE - 1) div PAGE_SIZE)"

definition pa_page_offset :: "phys_addr \<Rightarrow> usize" where
  "pa_page_offset a = pa a AND (PAGE_SIZE - 1)"

definition pa_actual_offset :: "phys_addr \<Rightarrow> page_size \<Rightarrow> usize" where
  "pa_actual_offset a p = pa a AND (ps_size p - 1)"

definition pa_aligned :: "phys_addr \<Rightarrow> bool" where
  "pa_aligned a \<longleftrightarrow> pa_page_offset a = 0"

definition pa_actual_aligned :: "phys_addr \<Rightarrow> page_size \<Rightarrow> bool" where
  "pa_actual_aligned a p \<longleftrightarrow> pa_actual_offset a p = 0"

definition get_cached_addr :: "phys_addr \<Rightarrow> usize" where
  "get_cached_addr a = pa a OR KERNEL_WINDOW_BASE"

definition ppn_of_pa :: "phys_addr \<Rightarrow> phys_page_num option" where
  "ppn_of_pa a = do { guard_panic (pa_page_offset a = 0); Some (pa_floor a) }"

definition pa_of_ppn :: "phys_page_num \<Rightarrow> phys_addr" where
  "pa_of_ppn v = PhysAddr (push_bit PAGE_SIZE_BITS (ppn v))"

definition start_addr :: "virt_page_num \<Rightarrow> usize" where
  "start_addr v = full_addr (va_of_vpn v)"

text \<open>The three page table indexes, the root's first.\<close>

fun index_loop :: "nat \<Rightarrow> usize \<Rightarrow> usize list \<Rightarrow> usize list" where
  "index_loop 0 v idx = idx"
| "index_loop (Suc i) v idx =
     index_loop i (drop_bit (PAGE_SIZE_BITS - 3) v) (idx[i := v AND (drop_bit 3 PAGE_SIZE - 1)])"

definition indexes :: "virt_page_num \<Rightarrow> usize list" where
  "indexes v = index_loop 3 (vpn v) [0, 0, 0]"

text \<open>The bytes a frame of \<open>p\<close> spans, with the alignment assertion of \<open>get_bytes_array_with_size\<close>.\<close>

definition frame_bytes :: "phys_page_num \<Rightarrow> page_size \<Rightarrow> (usize \<times> usize) option" where
  "frame_bytes v p =
     (let a = pa_of_ppn v in
      do { guard_panic (pa_actual_aligned a p); Some (get_cached_addr a, ps_size p) })"

subsection \<open>Ranges\<close>

text \<open>
  \<open>SimpleRange\<close> and \<open>RangeWithStep\<close> over page numbers, with their iterators; the first is the
  second with step one.  The iterator stops when it meets the end exactly.
\<close>

record page_range =
  r_start :: usize
  r_end :: usize
  r_step :: usize

definition range_new :: "usize \<Rightarrow> usize \<Rightarrow> page_range option" where
  "range_new s e = do { guard_panic (s \<le> e); Some \<lparr>r_start = s, r_end = e, r_step = 1\<rparr> }"

definition range_with_step :: "usize \<Rightarrow> usize \<Rightarrow> usize \<Rightarrow> page_range option" where
  "range_with_step s e n = do { guard_panic (s \<le> e); Some \<lparr>r_start = s, r_end = e, r_step = n\<rparr> }"

definition add_step :: "page_range \<Rightarrow> usize \<Rightarrow> page_range option" where
  "add_step r n = range_with_step (r_start r) (r_end r) n"

definition range_contains :: "page_range \<Rightarrow> usize \<Rightarrow> bool" where
  "range_contains r t \<longleftrightarrow> r_start r \<le> t \<and> t < r_end r"

definition iter_next :: "page_range \<Rightarrow> page_range \<times> usize option" where
  "iter_next r = (if r_start r = r_end r then (r, None)
                  else (r\<lparr>r_start := r_start r + r_step r\<rparr>, Some (r_start r)))"

partial_function (option) iter_all :: "page_range \<Rightarrow> usize list option" where
  "iter_all r = (case iter_next r of
                   (r', None) \<Rightarrow> Some []
                 | (r', Some t) \<Rightarrow> do { ts \<leftarrow> iter_all r'; Some (t # ts) })"

subsection \<open>Bits of addresses\<close>

lemma width_mask: "push_bit n 1 - 1 = (mask n :: usize)"
  by (simp add: mask_eq_exp_minus_1)

lemma from_take_bit:
  "pa_from v = PhysAddr (take_bit 56 v)" "ppn_from v = PhysPageNum (take_bit 44 v)"
  "va_from v = VirtAddr (take_bit 39 v)" "vpn_from v = VirtPageNum (take_bit 27 v)"
  by (simp_all only: pa_from_def ppn_from_def va_from_def vpn_from_def width_mask take_bit_eq_mask PPN_WIDTH_def
      VPN_WIDTH_def PA_WIDTH_def VA_WIDTH_def PAGE_SIZE_BITS_def) simp_all

lemma unat_exp_eq_helper: "n < 64 \<Longrightarrow> unat (2 ^ n :: usize) = 2 ^ n"
proof -
  assume n: "n < 64"
  have "unat (of_nat (2 ^ n) :: usize) = take_bit 64 (2 ^ n)" by (simp only: unat_of_nat) (simp add: take_bit_eq_mod)
  also have "\<dots> = 2 ^ n" using n by (simp add: take_bit_nat_eq_self)
  finally show ?thesis by simp
qed

lemma bit_word_iff_unat_odd: "bit (x :: usize) n \<longleftrightarrow> odd (unat x div 2 ^ n)"
proof -
  have "bit x n \<longleftrightarrow> bit (unat x) n" by (auto simp: bit_unsigned_iff dest: bit_imp_le_length)
  then show ?thesis by (simp add: bit_iff_odd)
qed

lemma top_bit: "2 ^ n \<le> x \<longleftrightarrow> bit x n" if "take_bit (Suc n) x = x" "Suc n < 64" for x :: usize
proof -
  have "unat (take_bit (Suc n) x) < 2 ^ Suc n" by (simp only: unsigned_take_bit_eq take_bit_nat_less_exp)
  then have u: "unat x < 2 * 2 ^ n" using that(1) by simp
  have e: "unat (2 ^ n :: usize) = 2 ^ n" using that(2) by (simp add: unat_exp_eq_helper)
  have "bit x n \<longleftrightarrow> odd (unat x div 2 ^ n)" by (simp add: bit_word_iff_unat_odd)
  also have "\<dots> \<longleftrightarrow> 2 ^ n \<le> unat x"
  proof (cases "2 ^ n \<le> unat x")
    case True
    then have "unat x div 2 ^ n = 1" using u by (simp add: div_nat_eqI)
    with True show ?thesis by simp
  qed simp
  finally show ?thesis using e by (simp add: word_le_nat_alt)
qed

lemma high_bits: "take_bit m x = x \<Longrightarrow> bit x n \<Longrightarrow> n < m" for x :: usize
  by (metis bit_take_bit_iff)

lemma full_addr_signed:
  assumes "take_bit 39 (va a) = va a"
  shows "full_addr a = signed_take_bit 38 (va a)"
proof -
  have "push_bit 38 1 \<le> va a \<longleftrightarrow> bit (va a) 38" using top_bit [of 38 "va a"] assms by (simp add: push_bit_of_1)
  moreover have "signed_take_bit 38 (va a) = (if bit (va a) 38 then va a OR NOT (mask 39) else va a)"
  proof (rule bit_word_eqI)
    fix n assume "n < LENGTH(64)"
    show "bit (signed_take_bit 38 (va a)) n = bit (if bit (va a) 38 then va a OR NOT (mask 39) else va a) n"
      using high_bits [OF assms, of n] \<open>n < LENGTH(64)\<close> by (cases "n = 38") (auto simp: bit_simps min_def)
  qed
  moreover have "full_addr a = (if push_bit 38 1 \<le> va a then va a OR NOT (mask 39) else va a)"
    by (simp add: full_addr_def VA_WIDTH_def flip: width_mask)
  ultimately show ?thesis by simp
qed

lemma va_from_full: "take_bit 39 (va a) = va a \<Longrightarrow> va_from (full_addr a) = a"
  by (cases a) (simp add: full_addr_signed from_take_bit take_bit_signed_take_bit)

lemma page_size_exp: "PAGE_SIZE = 2 ^ 12" "PAGE_SIZE - 1 = mask 12" "unat PAGE_SIZE = 4096"
  by (simp_all add: PAGE_SIZE_def mask_eq_exp_minus_1)

lemma floor_offset:
  "vpn (va_floor a) = drop_bit 12 (va a)" "va_page_offset a = take_bit 12 (va a)"
  "ppn (pa_floor b) = drop_bit 12 (pa b)" "pa_page_offset b = take_bit 12 (pa b)"
  by (simp_all only: va_floor_def va_page_offset_def pa_floor_def pa_page_offset_def page_size_exp(2) take_bit_eq_mask
      drop_bit_eq_div virt_page_num.sel phys_page_num.sel) (simp_all only: page_size_exp(1))

lemma shift_back: "take_bit 52 (x :: usize) = x \<Longrightarrow> drop_bit 12 (push_bit 12 x) = x"
  by (rule bit_word_eqI) (auto simp: bit_simps dest: high_bits)

lemma ceil_unat:
  assumes "unat (x :: usize) \<le> 2 ^ 64 - 4096"
  shows "unat ((x + PAGE_SIZE - 1) div PAGE_SIZE) = (unat x + 4095) div 4096"
proof -
  have "x + PAGE_SIZE - 1 = x + 4095" by (simp add: PAGE_SIZE_def)
  moreover have "unat (x + 4095) = unat x + 4095" using assms by (simp add: unat_word_ariths)
  ultimately show ?thesis by (simp only: unat_div page_size_exp(3))
qed

lemma small_bits: "unat (x :: usize) < 2 ^ n \<Longrightarrow> take_bit n x = x"
  by (simp add: word_unat_eq_iff unsigned_take_bit_eq take_bit_nat_eq_self)

lemma sint_signed_take: "n < 63 \<Longrightarrow> sint (signed_take_bit n (x :: usize)) = signed_take_bit n (sint x)"
  by (rule bit_eqI) (auto simp: bit_signed_iff bit_signed_take_bit_iff min_def)

subsection \<open>Round trips\<close>

text \<open>
  C32. Masking a \<open>usize\<close> to a \<open>VirtAddr\<close> and reading it back sign-extends bit 38; the result is the
  original exactly for canonical addresses, and a masked address always survives the way back.
\<close>

theorem canonical_roundtrip:
  "full_addr (va_from v) = signed_take_bit 38 v
   \<and> (full_addr (va_from v) = v \<longleftrightarrow> - (2 ^ 38) \<le> sint v \<and> sint v < 2 ^ 38)
   \<and> va_from (full_addr (va_from v)) = va_from v"
proof -
  have e: "full_addr (va_from v) = signed_take_bit 38 v"
    by (simp add: full_addr_signed from_take_bit signed_take_bit_take_bit)
  have "signed_take_bit 38 v = v \<longleftrightarrow> signed_take_bit 38 (sint v) = sint v"
    by (auto simp flip: sint_signed_take intro: signed_word_eqI)
  with e show ?thesis by (simp add: signed_take_bit_int_eq_self_iff from_take_bit take_bit_signed_take_bit)
qed

text \<open>
  C33. Pages and addresses: a page number of at most 52 bits survives the way to an address and
  back, without the alignment panic; page number and offset determine the address; the two
  roundings up (written differently for virtual and physical addresses) agree with the
  mathematical one up to the last page of the address space, address zero included.
\<close>

theorem page_roundtrip:
  assumes "unat n < 2 ^ 52" and "unat x \<le> 2 ^ 64 - 4096"
  shows "vpn_of_va (va_of_vpn (VirtPageNum n)) = Some (VirtPageNum n)
    \<and> ppn_of_pa (pa_of_ppn (PhysPageNum n)) = Some (PhysPageNum n)
    \<and> vpn (va_floor (VirtAddr x)) * PAGE_SIZE + va_page_offset (VirtAddr x) = x
    \<and> unat (vpn (va_ceil (VirtAddr x))) = (unat x + 4095) div 4096
    \<and> unat (ppn (pa_ceil (PhysAddr x))) = (unat x + 4095) div 4096"
proof -
  have s: "drop_bit 12 (push_bit 12 n) = n" "take_bit 12 (push_bit 12 n) = 0"
    using shift_back small_bits [OF assms(1)] by (simp_all add: take_bit_push_bit)
  have v: "vpn_of_va (va_of_vpn (VirtPageNum n)) = Some (VirtPageNum n)"
    using s by (simp add: vpn_of_va_def va_of_vpn_def floor_offset PAGE_SIZE_BITS_def virt_page_num.expand)
  have p: "ppn_of_pa (pa_of_ppn (PhysPageNum n)) = Some (PhysPageNum n)"
    using s by (simp add: ppn_of_pa_def pa_of_ppn_def floor_offset PAGE_SIZE_BITS_def phys_page_num.expand)
  have "drop_bit 12 x * 2 ^ 12 + take_bit 12 x = x"
    using bits_ident [of 12 x] by (simp add: push_bit_eq_mult)
  then have f: "vpn (va_floor (VirtAddr x)) * PAGE_SIZE + va_page_offset (VirtAddr x) = x"
    by (simp only: floor_offset page_size_exp virt_addr.sel)
  have e: "x - 1 + PAGE_SIZE = x + PAGE_SIZE - 1" by simp
  have "unat (vpn (va_ceil (VirtAddr x))) = (unat x + 4095) div 4096"
    unfolding va_ceil_def virt_addr.sel virt_page_num.sel e by (rule ceil_unat [OF assms(2)])
  moreover have "unat (ppn (pa_ceil (PhysAddr x))) = (unat x + 4095) div 4096"
    unfolding pa_ceil_def phys_addr.sel phys_page_num.sel by (rule ceil_unat [OF assms(2)])
  ultimately show ?thesis using v p f by blast
qed

theorem page_roundtrip_witness:
  "vpn_of_va (va_of_vpn (VirtPageNum 5)) = Some (VirtPageNum 5) \<and> unat (vpn (va_ceil (VirtAddr 0))) = 0"
  using page_roundtrip [of 5 0] by simp

subsection \<open>Page table walk\<close>

lemma index_values:
  "indexes v = [take_bit 9 (drop_bit 18 (vpn v)), take_bit 9 (drop_bit 9 (vpn v)), take_bit 9 (vpn v)]"
  by (simp add: indexes_def numeral_3_eq_3 PAGE_SIZE_def PAGE_SIZE_BITS_def drop_bit_Suc take_bit_eq_mask mask_eq_exp_minus_1)

text \<open>
  C34. The page table walk loses nothing: for a 27-bit page number \<open>indexes\<close> yields three entries,
  each below the 512 slots of a table, root first, and they spell the page number in base 512;
  hence two pages with the same walk are the same page.
\<close>

theorem indexes_spell_vpn:
  assumes "unat (vpn v) < 2 ^ 27"
  shows "\<exists>i j k. indexes v = [i, j, k] \<and> unat i < 512 \<and> unat j < 512 \<and> unat k < 512
    \<and> unat (vpn v) = unat i * 512 ^ 2 + unat j * 512 + unat k"
proof -
  define n where "n = unat (vpn v)"
  have u: "unat (take_bit 9 (drop_bit m (vpn v))) = n div 2 ^ m mod 512" for m
  proof -
    have "unat (take_bit 9 (drop_bit m (vpn v))) = take_bit 9 (drop_bit m (unat (vpn v)))"
      by (simp only: unsigned_take_bit_eq unat_drop_bit_eq)
    then show ?thesis by (simp only: n_def drop_bit_eq_div) (simp add: take_bit_eq_mod)
  qed
  have "n div 2 ^ 18 mod 512 = n div 2 ^ 18" using assms by (simp add: n_def less_mult_imp_div_less)
  moreover have "n = n div 2 ^ 18 * 512 ^ 2 + n div 2 ^ 9 mod 512 * 512 + n mod 512"
  proof -
    have d: "n div 2 ^ 18 = n div 512 div 512" by (simp flip: div_mult2_eq)
    have "n = n div 512 div 512 * 262144 + n div 512 mod 512 * 512 + n mod 512"
      using div_mult_mod_eq [of "n div 512" 512] div_mult_mod_eq [of n 512] by linarith
    with d show ?thesis by simp
  qed
  ultimately have "unat (vpn v) = unat (take_bit 9 (drop_bit 18 (vpn v))) * 512 ^ 2
      + unat (take_bit 9 (drop_bit 9 (vpn v))) * 512 + unat (take_bit 9 (vpn v))"
    using u [of 18] u [of 9] u [of 0] by (simp only: n_def drop_bit_0 id_apply power_0 div_by_1)
  moreover have "unat (take_bit 9 (drop_bit m (vpn v))) < 512" for m by (simp add: u)
  from this [of 18] this [of 9] this [of 0] have
    "unat (take_bit 9 (drop_bit 18 (vpn v))) < 512" "unat (take_bit 9 (drop_bit 9 (vpn v))) < 512"
    "unat (take_bit 9 (vpn v)) < 512" by (simp_all only: drop_bit_0 id_apply)
  ultimately show ?thesis using index_values by blast
qed

theorem indexes_spell_vpn_witness:
  "\<exists>i j k. indexes (VirtPageNum 262657) = [i, j, k] \<and> unat i * 512 ^ 2 + unat j * 512 + unat k = 262657"
  using indexes_spell_vpn [of "VirtPageNum 262657"] by auto

subsection \<open>Iteration\<close>

lemma iter_all_step:
  "iter_all r = (if r_start r = r_end r then Some []
     else do { ts \<leftarrow> iter_all (r\<lparr>r_start := r_start r + r_step r\<rparr>); Some (r_start r # ts) })"
  by (subst iter_all.simps) (simp add: iter_next_def)

lemma iter_all_run:
  assumes "unat (r_start r) + m * unat (r_step r) = unat (r_end r)" "0 < unat (r_step r)"
  shows "iter_all r = Some (map (\<lambda>k. r_start r + of_nat k * r_step r) [0..<m])"
  using assms
proof (induction m arbitrary: r)
  case 0
  then show ?case by (subst iter_all_step) (simp add: word_unat_eq_iff)
next
  case (Suc m)
  have "unat (r_end r) < 2 ^ 64" using unsigned_less [of "r_end r"] by simp
  then have "unat (r_start r + r_step r) = unat (r_start r) + unat (r_step r)"
    using Suc.prems(1) by (simp add: unat_word_ariths)
  then have i: "iter_all (r\<lparr>r_start := r_start r + r_step r\<rparr>)
      = Some (map (\<lambda>k. r_start r + r_step r + of_nat k * r_step r) [0..<m])"
    using Suc.IH [of "r\<lparr>r_start := r_start r + r_step r\<rparr>"] Suc.prems by simp
  have "r_start r \<noteq> r_end r" using Suc.prems by auto
  then have "iter_all r = Some (r_start r # map (\<lambda>k. r_start r + r_step r + of_nat k * r_step r) [0..<m])"
    by (subst iter_all_step) (simp add: i)
  moreover have "map (\<lambda>k. r_start r + of_nat k * r_step r) [0..<Suc m]
      = r_start r # map (\<lambda>k. r_start r + r_step r + of_nat k * r_step r) [0..<m]"
    by (simp add: upt_conv_Cons map_Suc_upt [symmetric] algebra_simps del: upt_Suc)
  ultimately show ?case by simp
qed

lemma take_bit_add_exp:
  assumes "k < 64"
  shows "take_bit k (x + 2 ^ k) = take_bit k (x :: usize)"
proof -
  have "(2 :: nat) ^ k dvd 2 ^ 64" by (rule le_imp_power_dvd) (use assms in simp)
  then have "unat (x + 2 ^ k) mod 2 ^ k = unat x mod 2 ^ k"
    using unat_exp_eq_helper [OF assms] by (simp add: unat_word_ariths mod_mod_cancel)
  then show ?thesis by (simp only: word_unat_eq_iff unsigned_take_bit_eq) (simp only: take_bit_eq_mod)
qed

lemma iter_all_meets:
  assumes "iter_all r = Some ts" "r_step r = 2 ^ k" "k < 64"
  shows "take_bit k (r_start r) = take_bit k (r_end r)"
proof -
  have "r_step r = 2 ^ k \<longrightarrow> take_bit k (r_start r) = take_bit k (r_end r)"
  proof (rule iter_all.raw_induct [OF _ assms(1)], intro impI)
    fix f r ts
    assume ih: "\<And>r ts. f r = Some ts \<Longrightarrow> r_step r = 2 ^ k \<longrightarrow> take_bit k (r_start r) = take_bit k (r_end r)"
      and body: "(case iter_next r of (r', None) \<Rightarrow> Some [] | (r', Some t) \<Rightarrow> do { ts \<leftarrow> f r'; Some (t # ts) }) = Some ts"
      and st: "r_step r = 2 ^ k"
    show "take_bit k (r_start r) = take_bit k (r_end r)"
    proof (cases "r_start r = r_end r")
      case False
      with body obtain us where "f (r\<lparr>r_start := r_start r + r_step r\<rparr>) = Some us"
        by (auto simp: iter_next_def split: option.splits Option.bind_splits)
      from ih [OF this] st have "take_bit k (r_start r + 2 ^ k) = take_bit k (r_end r)" by simp
      then show ?thesis by (simp add: take_bit_add_exp [OF assms(3)])
    qed simp
  qed
  with assms(2) show ?thesis by simp
qed

text \<open>
  C35. Iterating a page range visits its pages in order and stops exactly when the power-of-two step
  divides the distance of its ends: then the pages are \<open>start\<close>, \<open>start + step\<close>, up to the end, each
  once.  Otherwise the end is never met, since the iterator compares with \<open>==\<close>, and it does not stop.
\<close>

theorem range_iteration:
  assumes "range_with_step s e (2 ^ k) = Some r" "k < 64"
  shows "iter_all r =
    (if 2 ^ k dvd unat e - unat s
     then Some (map (\<lambda>i. s + of_nat i * 2 ^ k) [0..<(unat e - unat s) div 2 ^ k]) else None)"
proof -
  have le: "unat s \<le> unat e" and r: "r = \<lparr>r_start = s, r_end = e, r_step = 2 ^ k\<rparr>"
    using assms(1) by (auto simp: range_with_step_def guard_panic_def word_le_nat_alt split: if_splits Option.bind_splits)
  note p = unat_exp_eq_helper [OF assms(2)]
  show ?thesis
  proof (cases "2 ^ k dvd unat e - unat s")
    case True
    then have "unat s + (unat e - unat s) div 2 ^ k * unat (2 ^ k :: usize) = unat e" using le p by simp
    with iter_all_run [of r "(unat e - unat s) div 2 ^ k"] p r True show ?thesis by simp
  next
    case False
    have "take_bit k s = take_bit k e \<Longrightarrow> unat s mod 2 ^ k = unat e mod 2 ^ k"
      by (drule arg_cong [where f = unat]) (simp only: unsigned_take_bit_eq, simp only: take_bit_eq_mod)
    moreover have "unat s mod 2 ^ k \<noteq> unat e mod 2 ^ k" using False le mod_eq_dvd_iff_nat by metis
    ultimately show ?thesis using iter_all_meets [of r _ k] r False assms(2) by (cases "iter_all r") auto
  qed
qed

theorem range_iteration_witness:
  "iter_all \<lparr>r_start = 512, r_end = 1536, r_step = 2 ^ 9\<rparr> = Some [512, 1024]
   \<and> iter_all \<lparr>r_start = 512, r_end = 1537, r_step = 2 ^ 9\<rparr> = None"
  using range_iteration [of 512 1536 9] range_iteration [of 512 1537 9]
  by (simp add: range_with_step_def guard_panic_def upt_rec)

end
