(* ===== verification/Rw_Lock.thy ===== *)
theory Rw_Lock
  imports Kernel_Prelude
begin

text \<open>
  The writer-preferring spin lock (\<open>sync/rw.rs\<close>) at the granularity of its atomic operations.
  A thread is where it stands in \<open>read\<close>, \<open>write\<close>, \<open>downgrade\<close> and the guards' \<open>drop\<close>; a step of
  the system is one atomic operation of one thread.  The two counters are integers: with fewer
  than \<open>2^63\<close> threads an \<open>isize\<close> does not wrap.
\<close>

subsection \<open>Definitions\<close>

record rw_lock =
  rw_state :: int
  rw_asked :: int

definition rw_new :: rw_lock where
  "rw_new = \<lparr>rw_state = 0, rw_asked = 0\<rparr>"

datatype rw_pc =
    Outside
  | ReadStart
  | ReadLoaded int
  | ReadCas int
  | ReadRecheck
  | ReadBackoff
  | Reading
  | WriteAsk
  | WriteSpin
  | WriteCas
  | WriteGot
  | Writing

text \<open>One atomic operation of \<open>RwLock::read\<close>.\<close>

fun read_step :: "rw_lock \<Rightarrow> rw_pc \<Rightarrow> (rw_lock \<times> rw_pc) option" where
  "read_step l ReadStart = Some (l, ReadLoaded (rw_state l))"
| "read_step l (ReadLoaded s) =
     Some (l, if s \<ge> 0 \<and> rw_asked l = 0 then ReadCas s else ReadStart)"
| "read_step l (ReadCas s) =
     (if rw_state l = s then Some (l\<lparr>rw_state := s + 1\<rparr>, ReadRecheck) else Some (l, ReadStart))"
| "read_step l ReadRecheck = Some (l, if rw_asked l = 0 then Reading else ReadBackoff)"
| "read_step l ReadBackoff = Some (l\<lparr>rw_state := rw_state l - 1\<rparr>, ReadStart)"
| "read_step l _ = None"

text \<open>One atomic operation of \<open>RwLock::write\<close>.\<close>

fun write_step :: "rw_lock \<Rightarrow> rw_pc \<Rightarrow> (rw_lock \<times> rw_pc) option" where
  "write_step l WriteAsk = Some (l\<lparr>rw_asked := rw_asked l + 1\<rparr>, WriteSpin)"
| "write_step l WriteSpin = Some (l, if rw_state l = 0 then WriteCas else WriteSpin)"
| "write_step l WriteCas = (if rw_state l = 0 then Some (l\<lparr>rw_state := - 1\<rparr>, WriteGot) else Some (l, WriteSpin))"
| "write_step l WriteGot = Some (l\<lparr>rw_asked := rw_asked l - 1\<rparr>, Writing)"
| "write_step l _ = None"

definition read_drop :: "rw_lock \<Rightarrow> rw_lock" where
  "read_drop l = l\<lparr>rw_state := rw_state l - 1\<rparr>"

definition write_drop :: "rw_lock \<Rightarrow> rw_lock" where
  "write_drop l = l\<lparr>rw_state := 0\<rparr>"

definition downgrade :: "rw_lock \<Rightarrow> rw_lock" where
  "downgrade l = l\<lparr>rw_state := 1\<rparr>"

text \<open>\<open>n\<close> threads over one lock.\<close>

type_synonym rw_sys = "rw_lock \<times> rw_pc list"

inductive rw_step :: "rw_sys \<Rightarrow> rw_sys \<Rightarrow> bool" where
  CallRead: "i < length ps \<Longrightarrow> ps ! i = Outside \<Longrightarrow> rw_step (l, ps) (l, ps[i := ReadStart])"
| CallWrite: "i < length ps \<Longrightarrow> ps ! i = Outside \<Longrightarrow> rw_step (l, ps) (l, ps[i := WriteAsk])"
| Read: "i < length ps \<Longrightarrow> read_step l (ps ! i) = Some (l', p) \<Longrightarrow> rw_step (l, ps) (l', ps[i := p])"
| Write: "i < length ps \<Longrightarrow> write_step l (ps ! i) = Some (l', p) \<Longrightarrow> rw_step (l, ps) (l', ps[i := p])"
| ReadDrop: "i < length ps \<Longrightarrow> ps ! i = Reading \<Longrightarrow> rw_step (l, ps) (read_drop l, ps[i := Outside])"
| WriteDrop: "i < length ps \<Longrightarrow> ps ! i = Writing \<Longrightarrow> rw_step (l, ps) (write_drop l, ps[i := Outside])"
| Downgrade: "i < length ps \<Longrightarrow> ps ! i = Writing \<Longrightarrow> rw_step (l, ps) (downgrade l, ps[i := Reading])"

subsection \<open>Invariant\<close>

text \<open>Who contributes to the counters.\<close>

definition reads :: "rw_pc \<Rightarrow> bool" where
  "reads p \<longleftrightarrow> p \<in> {ReadRecheck, ReadBackoff, Reading}"

definition writes :: "rw_pc \<Rightarrow> bool" where
  "writes p \<longleftrightarrow> p \<in> {WriteGot, Writing}"

definition asks :: "rw_pc \<Rightarrow> bool" where
  "asks p \<longleftrightarrow> p \<in> {WriteSpin, WriteCas, WriteGot}"

definition tally :: "(rw_pc \<Rightarrow> bool) \<Rightarrow> rw_pc list \<Rightarrow> int" where
  "tally P ps = int (length (filter P ps))"

definition sound_load :: "rw_pc \<Rightarrow> bool" where
  "sound_load p \<longleftrightarrow> (case p of ReadCas s \<Rightarrow> s \<ge> 0 | _ \<Rightarrow> True)"

definition rw_inv :: "rw_sys \<Rightarrow> bool" where
  "rw_inv c \<longleftrightarrow> (case c of (l, ps) \<Rightarrow>
     rw_asked l = tally asks ps \<and> (\<forall>p \<in> set ps. sound_load p)
     \<and> (if tally writes ps = 0 then rw_state l = tally reads ps
        else tally writes ps = 1 \<and> tally reads ps = 0 \<and> rw_state l = - 1))"

lemma tally_update:
  "i < length ps \<Longrightarrow> tally P (ps[i := p]) = tally P ps - of_bool (P (ps ! i)) + of_bool (P p)"
proof (induction ps arbitrary: i)
  case (Cons q ps)
  then show ?case by (cases i) (auto simp: tally_def)
qed simp

lemma tally_pos: "i < length ps \<Longrightarrow> P (ps ! i) \<Longrightarrow> 0 < tally P ps"
  by (force simp: tally_def filter_empty_conv in_set_conv_nth)

lemma tally_nonneg [simp]: "0 \<le> tally P ps"
  by (simp add: tally_def)

lemmas pc_sets = reads_def writes_def asks_def sound_load_def

lemma rw_inv_new: "rw_inv (rw_new, replicate n Outside)"
  by (simp add: rw_inv_def rw_new_def tally_def pc_sets)

lemma sound_update: "(\<forall>q \<in> set ps. sound_load q) \<Longrightarrow> sound_load p \<Longrightarrow> (\<forall>q \<in> set (ps[i := p]). sound_load q)"
  using set_update_subset_insert [of ps i p] by blast

lemma read_step_inv:
  assumes i: "i < length ps" and s: "read_step l (ps ! i) = Some (l', p)" and inv: "rw_inv (l, ps)"
  shows "rw_inv (l', ps[i := p])"
proof -
  note t = tally_update [OF i, of _ p] and pos = tally_pos [OF i] and u = sound_update [of ps p i]
  have w: "sound_load (ps ! i)" using inv i by (simp add: rw_inv_def)
  show ?thesis
  proof (cases "ps ! i")
    case (ReadCas k)
    show ?thesis
    proof (cases "rw_state l = k")
      case True
      with ReadCas s w inv t u show ?thesis by (auto simp: rw_inv_def pc_sets split: if_splits)
    qed (use ReadCas s inv t u in \<open>auto simp: rw_inv_def pc_sets split: if_splits\<close>)
  qed (use s inv t u pos [of reads] in \<open>auto simp: rw_inv_def pc_sets split: if_splits\<close>)
qed

lemma write_step_inv:
  assumes i: "i < length ps" and s: "write_step l (ps ! i) = Some (l', p)" and inv: "rw_inv (l, ps)"
  shows "rw_inv (l', ps[i := p])"
proof -
  note t = tally_update [OF i, of _ p] and u = sound_update [of ps p i]
  have w: "ps ! i = WriteGot \<Longrightarrow> 0 < tally writes ps" using tally_pos [OF i, of writes] by (simp add: pc_sets)
  have nn: "0 \<le> tally reads ps" "0 \<le> tally writes ps" by simp_all
  show ?thesis
    by (cases "ps ! i") (use s inv t u w nn in \<open>auto simp: rw_inv_def pc_sets split: if_splits\<close>)
qed

lemma guard_step_inv:
  assumes i: "i < length ps" and inv: "rw_inv (l, ps)"
  shows "ps ! i = Outside \<Longrightarrow> rw_inv (l, ps[i := ReadStart])" "ps ! i = Outside \<Longrightarrow> rw_inv (l, ps[i := WriteAsk])"
    "ps ! i = Reading \<Longrightarrow> rw_inv (read_drop l, ps[i := Outside])"
    "ps ! i = Writing \<Longrightarrow> rw_inv (write_drop l, ps[i := Outside])"
    "ps ! i = Writing \<Longrightarrow> rw_inv (downgrade l, ps[i := Reading])"
proof -
  note t = tally_update [OF i] and u = sound_update [of ps _ i] and pos = tally_pos [OF i]
  have r: "ps ! i = Reading \<Longrightarrow> 0 < tally reads ps" using pos [of reads] by (simp add: pc_sets)
  have w: "ps ! i = Writing \<Longrightarrow> 0 < tally writes ps" using pos [of writes] by (simp add: pc_sets)
  have a: "\<forall>p \<in> set ps. sound_load p" using inv by (simp add: rw_inv_def)
  note defs = rw_inv_def read_drop_def write_drop_def downgrade_def
  show "ps ! i = Outside \<Longrightarrow> rw_inv (l, ps[i := ReadStart])"
    using inv u [OF a, of ReadStart] by (simp add: defs t pc_sets)
  show "ps ! i = Outside \<Longrightarrow> rw_inv (l, ps[i := WriteAsk])"
    using inv u [OF a, of WriteAsk] by (simp add: defs t pc_sets)
  show "ps ! i = Reading \<Longrightarrow> rw_inv (read_drop l, ps[i := Outside])"
    using inv r u [OF a, of Outside] by (auto simp: defs t pc_sets split: if_splits)
  show "ps ! i = Writing \<Longrightarrow> rw_inv (write_drop l, ps[i := Outside])"
    using inv w u [OF a, of Outside] by (auto simp: defs t pc_sets split: if_splits)
  show "ps ! i = Writing \<Longrightarrow> rw_inv (downgrade l, ps[i := Reading])"
    using inv w u [OF a, of Reading] by (auto simp: defs t pc_sets split: if_splits)
qed

lemma rw_step_inv: "rw_step c d \<Longrightarrow> rw_inv c \<Longrightarrow> rw_inv d"
  by (cases rule: rw_step.cases, assumption)
    (simp_all add: guard_step_inv read_step_inv write_step_inv)

lemma rw_reach_inv: "rw_step\<^sup>*\<^sup>* c d \<Longrightarrow> rw_inv c \<Longrightarrow> rw_inv d"
  by (induction rule: rtranclp_induct) (auto intro: rw_step_inv)

lemma tally_one:
  assumes "tally P ps = 1" "i < length ps" "P (ps ! i)" "j < length ps" "P (ps ! j)"
  shows "i = j"
proof (rule ccontr)
  assume "i \<noteq> j"
  moreover have "length (filter P ps) = card {k. k < length ps \<and> P (ps ! k)}" by (simp add: length_filter_conv_card)
  moreover have "{i, j} \<subseteq> {k. k < length ps \<and> P (ps ! k)}" using assms by auto
  then have "card {i, j} \<le> card {k. k < length ps \<and> P (ps ! k)}" by (intro card_mono) auto
  ultimately show False using assms(1) by (simp add: tally_def)
qed

lemma rw_exclusive:
  assumes inv: "rw_inv (l, ps)" and i: "i < length ps" "writes (ps ! i)" and j: "j < length ps" "j \<noteq> i"
  shows "\<not> writes (ps ! j)" "\<not> reads (ps ! j)"
proof -
  have "0 < tally writes ps" using tally_pos [of i ps writes] i by simp
  with inv have t: "tally writes ps = 1" "tally reads ps = 0" by (auto simp: rw_inv_def split: if_splits)
  show "\<not> writes (ps ! j)" using tally_one [OF t(1) i j(1)] j(2) by auto
  show "\<not> reads (ps ! j)" using tally_pos [OF j(1), of reads] t(2) by auto
qed

subsection \<open>Exclusion and preference\<close>

text \<open>
  C18. Mutual exclusion: from a fresh lock, after any interleaving of the atomic operations of any
  number of threads, a thread holding the write guard excludes every other writer and every reader,
  the state word is \<open>-1\<close> exactly then, and otherwise it counts the readers (those holding a guard
  and those about to take or give up one).
\<close>

theorem rw_mutual_exclusion:
  assumes "rw_step\<^sup>*\<^sup>* (rw_new, replicate n Outside) (l, ps)"
  shows "(\<forall>i < length ps. \<forall>j < length ps. ps ! i = Writing \<longrightarrow> ps ! j \<in> {Reading, Writing} \<longrightarrow> j = i)
    \<and> (rw_state l = - 1 \<longleftrightarrow> (\<exists>p \<in> set ps. writes p))
    \<and> (rw_state l \<noteq> - 1 \<longrightarrow> rw_state l = tally reads ps)"
proof (intro conjI)
  have inv: "rw_inv (l, ps)" using rw_reach_inv [OF assms rw_inv_new] .
  show "\<forall>i < length ps. \<forall>j < length ps. ps ! i = Writing \<longrightarrow> ps ! j \<in> {Reading, Writing} \<longrightarrow> j = i"
  proof (intro allI impI)
    fix i j
    assume "i < length ps" "j < length ps" "ps ! i = Writing" "ps ! j \<in> {Reading, Writing}"
    then show "j = i" using rw_exclusive [OF inv, of i j] by (cases "j = i") (auto simp: reads_def writes_def)
  qed
  have "tally writes ps = 0 \<longleftrightarrow> \<not> (\<exists>p \<in> set ps. writes p)" by (auto simp: tally_def filter_empty_conv)
  moreover have "tally reads ps \<noteq> - 1" by (simp add: tally_def)
  ultimately show "rw_state l = - 1 \<longleftrightarrow> (\<exists>p \<in> set ps. writes p)" "rw_state l \<noteq> - 1 \<longrightarrow> rw_state l = tally reads ps"
    using inv by (auto simp: rw_inv_def split: if_splits)
qed

text \<open>
  C19. Writer preference: while some writer has announced itself and has not yet got the lock, no
  thread is granted a read guard, except the writer that turns its own guard into one; a reader
  that slips in between its check and its update backs off instead.
\<close>

theorem rw_writer_preference:
  assumes "rw_step\<^sup>*\<^sup>* (rw_new, replicate n Outside) (l, ps)" "rw_step (l, ps) (l', ps')"
    and "w < length ps" "asks (ps ! w)" and "i < length ps" "ps' ! i = Reading"
  shows "ps ! i = Reading \<or> (ps ! i = Writing \<and> l' = downgrade l)"
proof -
  have "rw_inv (l, ps)" using rw_reach_inv [OF assms(1) rw_inv_new] .
  then have a: "rw_asked l \<noteq> 0" using tally_pos [of w ps asks] assms(3,4) by (simp add: rw_inv_def)
  have r: "read_step l q = Some (m, Reading) \<Longrightarrow> False" for q m
    using a by (cases q) (auto split: if_splits)
  have w: "write_step l q = Some (m, Reading) \<Longrightarrow> False" for q m
    by (cases q) (auto split: if_splits)
  from assms(2) show ?thesis
    by cases (use assms(5,6) r w in \<open>auto simp: nth_list_update split: if_splits\<close>)
qed

text \<open>A run of two threads: the first takes the write lock while the second announces itself.\<close>

lemma rw_write_run:
  "rw_step\<^sup>*\<^sup>* (rw_new, replicate 2 Outside) (\<lparr>rw_state = - 1, rw_asked = 0\<rparr>, [Writing, WriteAsk])"
proof -
  have s: "rw_step\<^sup>*\<^sup>* c (l, ps) \<Longrightarrow> i < length ps \<Longrightarrow> write_step l (ps ! i) = Some (l', p) \<Longrightarrow>
      rw_step\<^sup>*\<^sup>* c (l', ps[i := p])" for c l ps i l' p
    using rtranclp.rtrancl_into_rtrancl Write by metis
  have a: "rw_step\<^sup>*\<^sup>* (rw_new, replicate 2 Outside) (rw_new, [WriteAsk, Outside])"
    using CallWrite [of 0 "replicate 2 Outside" rw_new] by (auto simp: numeral_2_eq_2)
  have "rw_step\<^sup>*\<^sup>* (rw_new, replicate 2 Outside) (rw_new, [WriteAsk, WriteAsk])"
    using rtranclp.rtrancl_into_rtrancl [OF a CallWrite [of 1]] by simp
  from s [OF this, of 0] have "rw_step\<^sup>*\<^sup>* (rw_new, replicate 2 Outside) (\<lparr>rw_state = 0, rw_asked = 1\<rparr>, [WriteSpin, WriteAsk])"
    by (simp add: rw_new_def)
  from s [OF this, of 0] have "rw_step\<^sup>*\<^sup>* (rw_new, replicate 2 Outside) (\<lparr>rw_state = 0, rw_asked = 1\<rparr>, [WriteCas, WriteAsk])"
    by simp
  from s [OF this, of 0] have "rw_step\<^sup>*\<^sup>* (rw_new, replicate 2 Outside) (\<lparr>rw_state = - 1, rw_asked = 1\<rparr>, [WriteGot, WriteAsk])"
    by simp
  from s [OF this, of 0] show ?thesis by simp
qed

theorem rw_mutual_exclusion_witness:
  "rw_step\<^sup>*\<^sup>* (rw_new, replicate 2 Outside) (\<lparr>rw_state = - 1, rw_asked = 0\<rparr>, [Writing, WriteAsk])
   \<and> [Writing, WriteAsk] ! 1 \<notin> {Reading, Writing}"
  using rw_mutual_exclusion [OF rw_write_run] rw_write_run by auto

theorem rw_writer_preference_witness:
  "rw_step (\<lparr>rw_state = - 1, rw_asked = 1\<rparr>, [Writing, WriteSpin])
     (downgrade \<lparr>rw_state = - 1, rw_asked = 1\<rparr>, [Reading, WriteSpin])
   \<and> ([Writing, WriteSpin] ! 0 = Reading \<or> [Writing, WriteSpin] ! 0 = Writing)"
proof -
  have r: "rw_step\<^sup>*\<^sup>* (rw_new, replicate 2 Outside) (\<lparr>rw_state = - 1, rw_asked = 1\<rparr>, [Writing, WriteSpin])"
    using rtranclp.rtrancl_into_rtrancl [OF rw_write_run Write [of 1]] by simp
  have d: "rw_step (\<lparr>rw_state = - 1, rw_asked = 1\<rparr>, [Writing, WriteSpin])
     (downgrade \<lparr>rw_state = - 1, rw_asked = 1\<rparr>, [Reading, WriteSpin])"
    using Downgrade [of 0 "[Writing, WriteSpin]"] by simp
  from rw_writer_preference [OF r d, of 1 0] d show ?thesis by (simp add: asks_def)
qed

end
