(* ===== verification/Wait_Queue.thy ===== *)
theory Wait_Queue
  imports Sched_System
begin

text \<open>
  Blocking and waking (\<open>process/scheduler/wait.rs\<close>), the wait queue and the semaphore
  (\<open>sync/semaphore.rs\<close>), waiting for children (\<open>process/child_wait.rs\<close>) and the sleep queue
  (\<open>process/scheduler/nanosleep.rs\<close>), on top of the scheduler's \<open>wake_up_task\<close>.

  A blocking function is modelled up to its call of \<open>schedule\<close>: the value is the state in which the
  context switch starts, and the switch itself is \<open>switch_back\<close>.  The predicate a caller passes
  as a closure is evaluated under the queue's lock; here it is its value at that moment.
\<close>

subsection \<open>Wait queues\<close>

type_synonym wait_queue = "tid list"

definition wq_new :: wait_queue where "wq_new = []"

definition wq_push_back :: "wait_queue \<Rightarrow> tid \<Rightarrow> wait_queue" where
  "wq_push_back q t = q @ [t]"

fun wq_pop_front :: "wait_queue \<Rightarrow> wait_queue \<times> tid option" where
  "wq_pop_front [] = ([], None)"
| "wq_pop_front (t # q) = (q, Some t)"

definition wq_is_empty :: "wait_queue \<Rightarrow> bool" where "wq_is_empty q \<longleftrightarrow> q = []"

definition wq_remove_by_tid :: "wait_queue \<Rightarrow> tid \<Rightarrow> wait_queue" where
  "wq_remove_by_tid q t = filter (\<lambda>u. u \<noteq> t) q"

definition wq_front_tid :: "wait_queue \<Rightarrow> tid option" where
  "wq_front_tid q = (case q of [] \<Rightarrow> None | t # _ \<Rightarrow> Some t)"

definition wq_len :: "wait_queue \<Rightarrow> nat" where "wq_len q = length q"

subsection \<open>Blocking\<close>

definition suspend_current_and_run_next :: "tid \<Rightarrow> sched_sys \<Rightarrow> sched_sys" where
  "suspend_current_and_run_next t s = s\<lparr>sys_tasks := upd_task t (state_update (\<lambda>_. Ready)) (sys_tasks s)\<rparr>"

definition block_saving :: "tid \<Rightarrow> sched_sys \<Rightarrow> sched_sys" where
  "block_saving t s =
     s\<lparr>sys_tasks := upd_task t (\<lambda>i. i\<lparr>wake_pending := False, wake_source_cpu := None, state := BlockSaving\<rparr>) (sys_tasks s)\<rparr>"

definition block_current_and_run_next_if_task :: "tid \<Rightarrow> (task_inner \<Rightarrow> bool) \<Rightarrow> sched_sys \<Rightarrow> sched_sys \<times> bool" where
  "block_current_and_run_next_if_task t should_block s =
     (if \<not> should_block (sys_tasks s t) then (s, False) else (block_saving t s, True))"

definition block_current_and_run_next :: "tid \<Rightarrow> wait_queue \<Rightarrow> sched_sys \<Rightarrow> sched_sys \<times> wait_queue" where
  "block_current_and_run_next t q s = (let s = block_saving t s in (s, wq_push_back q t))"

definition block_current_and_run_next_if ::
  "tid \<Rightarrow> bool \<Rightarrow> wait_queue \<Rightarrow> sched_sys \<Rightarrow> sched_sys \<times> wait_queue \<times> bool" where
  "block_current_and_run_next_if t should_block q s =
     (if \<not> should_block then (s, q, False) else (block_saving t s, wq_push_back q t, True))"

definition block_current_and_run_next_if_mp ::
  "tid \<Rightarrow> bool \<Rightarrow> wait_queue \<Rightarrow> sched_sys \<Rightarrow> sched_sys \<times> wait_queue \<times> bool" where
  "block_current_and_run_next_if_mp t should_block q s =
     (if \<not> should_block then (s, q, False) else (block_saving t s, wq_push_back q t, True))"

subsection \<open>Waking\<close>

fun wake_up_one :: "nat \<Rightarrow> sched_sys \<Rightarrow> wait_queue \<Rightarrow> (sched_sys \<times> wait_queue \<times> bool) option" where
  "wake_up_one hart s [] = Some (s, [], False)"
| "wake_up_one hart s (t # q) =
     (case state (sys_tasks s t) of
        BlockSaving \<Rightarrow>
          Some (s\<lparr>sys_tasks := upd_task t (\<lambda>i. i\<lparr>wake_pending := True, wake_source_cpu := Some hart\<rparr>) (sys_tasks s)\<rparr>, q, True)
      | Blocked \<Rightarrow> do { (s, _) \<leftarrow> wake_up_task hart s t; Some (s, q, True) }
      | _ \<Rightarrow> wake_up_one hart s q)"

lemma wake_up_one_shorter: "wake_up_one hart s q = Some (s', q', True) \<Longrightarrow> length q' < length q"
  by (induction hart s q arbitrary: s' q' rule: wake_up_one.induct)
    (auto split: task_status.splits Option.bind_splits intro: less_SucI)

function wake_up_all :: "nat \<Rightarrow> sched_sys \<Rightarrow> wait_queue \<Rightarrow> nat \<Rightarrow> (sched_sys \<times> wait_queue \<times> nat) option" where
  "wake_up_all hart s q n =
     (case wake_up_one hart s q of
        None \<Rightarrow> None
      | Some (s', q', True) \<Rightarrow> wake_up_all hart s' q' (n + 1)
      | Some (s', q', False) \<Rightarrow> Some (s', q', n))"
  by pat_completeness auto
termination by (relation "measure (\<lambda>(h, s, q, n). length q)") (auto dest: wake_up_one_shorter)

fun wake_each :: "nat \<Rightarrow> sched_sys \<Rightarrow> tid list \<Rightarrow> nat \<Rightarrow> (sched_sys \<times> nat) option" where
  "wake_each hart s [] n = Some (s, n)"
| "wake_each hart s (t # ts) n =
     do { (s, b) \<leftarrow> wake_up_task hart s t; wake_each hart s ts (if b then n + 1 else n) }"

definition wake_up_all_mp :: "nat \<Rightarrow> sched_sys \<Rightarrow> wait_queue \<Rightarrow> (sched_sys \<times> wait_queue \<times> nat) option" where
  "wake_up_all_mp hart s q = do { (s, n) \<leftarrow> wake_each hart s q 0; Some (s, [], n) }"

subsection \<open>The semaphore\<close>

text \<open>
  \<open>lock\<close> is an atomic decrement and, when the old value is below one, \<open>block_current_and_run_next\<close>;
  the guard's \<open>drop\<close> is an atomic increment and, when the old value is negative, \<open>wake_up_one\<close>.
  Between the two parts of \<open>lock\<close> no lock is held.
\<close>

record semaphore =
  sem_count :: int
  sem_queue :: wait_queue

definition sem_new :: "int \<Rightarrow> semaphore" where
  "sem_new n = \<lparr>sem_count = n, sem_queue = wq_new\<rparr>"

definition sem_lock_enter :: "semaphore \<Rightarrow> semaphore \<times> bool" where
  "sem_lock_enter m = (m\<lparr>sem_count := sem_count m - 1\<rparr>, sem_count m < 1)"

definition sem_lock_block :: "tid \<Rightarrow> semaphore \<Rightarrow> sched_sys \<Rightarrow> sched_sys \<times> semaphore" where
  "sem_lock_block t m s = (let (s, q) = block_current_and_run_next t (sem_queue m) s in (s, m\<lparr>sem_queue := q\<rparr>))"

definition sem_drop :: "nat \<Rightarrow> semaphore \<Rightarrow> sched_sys \<Rightarrow> (sched_sys \<times> semaphore) option" where
  "sem_drop hart m s =
     (let old = sem_count m; m = m\<lparr>sem_count := old + 1\<rparr> in
      if old < 0 then do { (s, q, _) \<leftarrow> wake_up_one hart s (sem_queue m); Some (s, m\<lparr>sem_queue := q\<rparr>) }
      else Some (s, m))"

subsection \<open>Waiting for children\<close>

record child =
  ch_pid :: usize
  ch_pgid :: usize
  ch_state :: task_status

definition P_ALL :: int where "P_ALL = 0"
definition P_PID :: int where "P_PID = 1"
definition P_PGID :: int where "P_PGID = 2"

definition wait4_matches :: "usize \<Rightarrow> int \<Rightarrow> child \<Rightarrow> bool" where
  "wait4_matches own_pgid pid c =
     (if pid = - 1 then True
      else if pid = 0 then ch_pgid c = own_pgid
      else if pid > 0 then ch_pid c = of_int pid
      else if pid < - 1 then pid \<noteq> - (2 ^ 31) \<and> ch_pgid c = of_int (- pid)
      else False)"

definition waitid_matches :: "int \<Rightarrow> int \<Rightarrow> child \<Rightarrow> bool" where
  "waitid_matches idtype i c =
     (if idtype = P_ALL then True
      else if idtype = P_PID then i \<ge> 0 \<and> ch_pid c = of_int i
      else if idtype = P_PGID then i \<ge> 0 \<and> ch_pgid c = of_int i
      else False)"

fun scan_children :: "(child \<Rightarrow> bool) \<Rightarrow> child list \<Rightarrow> bool \<Rightarrow> bool" where
  "scan_children f [] has_match = has_match"
| "scan_children f (c # cs) has_match =
     (if f c then (if ch_state c = Zombie then False else scan_children f cs True)
      else scan_children f cs has_match)"

definition wait4_should_block :: "usize \<Rightarrow> child list \<Rightarrow> int \<Rightarrow> bool" where
  "wait4_should_block own_pgid cs pid = scan_children (wait4_matches own_pgid pid) cs False"

definition waitid_should_block :: "child list \<Rightarrow> int \<Rightarrow> int \<Rightarrow> bool" where
  "waitid_should_block cs idtype i = scan_children (waitid_matches idtype i) cs False"

definition wait4_block_current ::
  "tid \<Rightarrow> usize \<Rightarrow> child list \<Rightarrow> int \<Rightarrow> wait_queue \<Rightarrow> sched_sys \<Rightarrow> sched_sys \<times> wait_queue \<times> bool" where
  "wait4_block_current t own_pgid cs pid q s =
     block_current_and_run_next_if_mp t (wait4_should_block own_pgid cs pid) q s"

definition waitid_block_current ::
  "tid \<Rightarrow> child list \<Rightarrow> int \<Rightarrow> int \<Rightarrow> wait_queue \<Rightarrow> sched_sys \<Rightarrow> sched_sys \<times> wait_queue \<times> bool" where
  "waitid_block_current t cs idtype i q s =
     block_current_and_run_next_if_mp t (waitid_should_block cs idtype i) q s"

definition wake_child_exit_waiters :: "nat \<Rightarrow> sched_sys \<Rightarrow> wait_queue \<Rightarrow> (sched_sys \<times> wait_queue \<times> nat) option" where
  "wake_child_exit_waiters hart s q = wake_up_all_mp hart s q"

subsection \<open>What waking achieves\<close>

text \<open>
  A sleeping task is blocked or about to block.  It is signalled when it cannot sleep on: it is on
  a run queue, or its pending block will be cancelled by the scheduler.
\<close>

definition sleeping :: "sched_sys \<Rightarrow> tid \<Rightarrow> bool" where
  "sleeping s t \<longleftrightarrow> state (sys_tasks s t) = BlockSaving \<or> (state (sys_tasks s t) = Blocked \<and> \<not> on_rq (sys_tasks s t))"

definition signalled :: "sched_sys \<Rightarrow> tid \<Rightarrow> bool" where
  "signalled s t \<longleftrightarrow> (state (sys_tasks s t) = BlockSaving \<and> wake_pending (sys_tasks s t))
     \<or> (state (sys_tasks s t) = Ready \<and> t \<in># sys_queued s)"

definition wakeable :: "sched_sys \<Rightarrow> tid \<Rightarrow> bool" where
  "wakeable s t \<longleftrightarrow> state (sys_tasks s t) \<in> {Blocked, BlockSaving}"

definition wakes :: "sched_sys \<Rightarrow> tid list \<Rightarrow> sched_sys \<Rightarrow> bool" where
  "wakes s ts s' \<longleftrightarrow> sys_inv s' \<and> length (sys_rqs s') = length (sys_rqs s)
     \<and> size (sys_queued s') \<le> size (sys_queued s) + length ts
     \<and> (\<forall>t \<in> set ts. sleeping s t \<longrightarrow> signalled s' t) \<and> (\<forall>t. signalled s t \<longrightarrow> signalled s' t)
     \<and> (\<forall>u. u \<notin> set ts \<longrightarrow> sys_tasks s' u = sys_tasks s u)"

definition roomy :: "sched_sys \<Rightarrow> nat \<Rightarrow> bool" where
  "roomy s n \<longleftrightarrow> sys_inv s \<and> 0 < length (sys_rqs s) \<and> size (sys_queued s) + n < 2 ^ 64"

lemma wakes_roomy: "wakes s ts s' \<Longrightarrow> roomy s (length ts + n) \<Longrightarrow> roomy s' n"
  by (auto simp: wakes_def roomy_def)

lemma wakes_Nil: "sys_inv s \<Longrightarrow> wakes s [] s"
  by (simp add: wakes_def)

lemma wakes_append:
  assumes 1: "wakes s ts s1" and 2: "wakes s1 us s2"
  shows "wakes s (ts @ us) s2"
proof -
  have "signalled s2 t" if "t \<in> set (ts @ us)" "sleeping s t" for t
  proof (cases "t \<in> set ts")
    case False
    with 1 have "sys_tasks s1 t = sys_tasks s t" by (simp add: wakes_def)
    with that False 2 show ?thesis by (auto simp: wakes_def sleeping_def)
  qed (use 1 2 that in \<open>auto simp: wakes_def\<close>)
  with 1 2 show ?thesis by (auto simp: wakes_def)
qed

lemma wakes_stale:
  assumes "sys_inv s" "\<forall>t \<in> set ts. \<not> wakeable s t"
  shows "wakes s ts s"
  using assms by (auto simp: wakes_def wakeable_def sleeping_def)

lemma wake_up_task_wakes:
  assumes "roomy s 1"
  shows "\<exists>s' b. wake_up_task hart s t = Some (s', b) \<and> wakes s [t] s'"
proof -
  obtain s' b where w: "wake_up_task hart s t = Some (s', b)" "sys_inv s'" "length (sys_rqs s') = length (sys_rqs s)"
    "b \<longleftrightarrow> state (sys_tasks s t) = Blocked \<and> \<not> on_rq (sys_tasks s t)"
    "sys_queued s' = (if b then add_mset t (sys_queued s) else sys_queued s)"
    "b \<longrightarrow> state (sys_tasks s' t) = Ready"
    "\<forall>u. u \<noteq> t \<or> state (sys_tasks s t) \<notin> {Blocked, BlockSaving} \<longrightarrow> sys_tasks s' u = sys_tasks s u"
    "state (sys_tasks s t) = BlockSaving \<longrightarrow> state (sys_tasks s' t) = BlockSaving \<and> wake_pending (sys_tasks s' t)
       \<and> wake_source_cpu (sys_tasks s' t) = Some hart"
    using wake_up_spec [of s hart t] assms by (auto simp: roomy_def)
  have "signalled s' u" if "signalled s u" for u
  proof (cases "u = t")
    case True
    with that w(5,7,8) show ?thesis by (auto simp: signalled_def)
  qed (use that w(5,7) in \<open>auto simp: signalled_def\<close>)
  moreover have "sleeping s t \<longrightarrow> signalled s' t" using w(4-8) by (auto simp: signalled_def sleeping_def)
  moreover have "size (sys_queued s') \<le> size (sys_queued s) + 1" using w(5) by simp
  ultimately have "wakes s [t] s'" using w(2,3,7) by (simp add: wakes_def)
  with w(1) show ?thesis by blast
qed

lemma wake_up_one_wakeable:
  assumes "wakeable s t"
  shows "wake_up_one hart s (t # q) = do { (s, _) \<leftarrow> wake_up_task hart s t; Some (s, q, True) }"
  using assms by (auto simp: wakeable_def wake_up_task_def)

lemma wake_up_one_stale: "\<not> wakeable s t \<Longrightarrow> wake_up_one hart s (t # q) = wake_up_one hart s q"
  by (auto simp: wakeable_def split: task_status.split)

declare wake_up_one.simps(2) [simp del] wake_up_all.simps [simp del]

lemma wake_up_one_spec:
  assumes "roomy s 1"
  shows "\<exists>s' q' b p. wake_up_one hart s q = Some (s', q', b) \<and> q = p @ q' \<and> wakes s p s'
    \<and> (if b then \<exists>t. filter (wakeable s) p = [t] \<and> last p = t else s' = s \<and> q' = [] \<and> filter (wakeable s) q = [])"
proof (induction q)
  case Nil
  show ?case using assms wakes_Nil by (auto simp: roomy_def)
next
  case (Cons t q)
  show ?case
  proof (cases "wakeable s t")
    case True
    obtain s' b where "wake_up_task hart s t = Some (s', b)" "wakes s [t] s'" using wake_up_task_wakes [OF assms] by blast
    with True show ?thesis 
      by - (rule exI [of _ s'], rule exI [of _ q], rule exI [of _ True], rule exI [of _ "[t]"],
        simp add: wake_up_one_wakeable)
  next
    case False
    from Cons.IH obtain s' q' b p where i: "wake_up_one hart s q = Some (s', q', b)" "q = p @ q'" "wakes s p s'"
      "if b then \<exists>t. filter (wakeable s) p = [t] \<and> last p = t else s' = s \<and> q' = [] \<and> filter (wakeable s) q = []" by blast
    have "wakes s [t] s" using wakes_stale [of s "[t]"] assms False by (simp add: roomy_def)
    from wakes_append [OF this i(3)] have "wakes s (t # p) s'" by simp
    with False i show ?thesis
      by - (rule exI [of _ s'], rule exI [of _ q'], rule exI [of _ b], rule exI [of _ "t # p"],
        auto simp: wake_up_one_stale split: if_splits)
  qed
qed

lemma wake_up_one_size:
  assumes "roomy s 1" "wake_up_one hart s q = Some (s', q', b)"
  shows "size (sys_queued s') \<le> size (sys_queued s) + 1"
  using assms(2)
proof (induction q)
  case (Cons t q)
  show ?case
  proof (cases "wakeable s t")
    case True
    from wake_up_task_wakes [OF assms(1), of hart t] Cons.prems True show ?thesis
      by (auto simp: wake_up_one_wakeable wakes_def)
  qed (use Cons in \<open>simp add: wake_up_one_stale\<close>)
qed simp

lemma wake_up_all_spec:
  "roomy s (length q) \<Longrightarrow> \<exists>s' k. wake_up_all hart s q n = Some (s', [], n + k) \<and> wakes s q s'"
proof (induction hart s q n rule: wake_up_all.induct)
  case (1 hart s q n)
  show ?case
  proof (cases "q = []")
    case True
    with 1(2) wakes_Nil [of s] show ?thesis by (subst wake_up_all.simps) (auto simp: roomy_def)
  next
    case False
    then have "roomy s 1" using 1(2) by (cases q) (auto simp: roomy_def)
    from wake_up_one_spec [OF this, of hart q] obtain s1 q1 b p where w: "wake_up_one hart s q = Some (s1, q1, b)" "q = p @ q1" "wakes s p s1"
      "if b then \<exists>t. filter (wakeable s) p = [t] \<and> last p = t else s1 = s \<and> q1 = [] \<and> filter (wakeable s) q = []" by blast
    show ?thesis
    proof (cases b)
      case True
      have "roomy s1 (length q1)" using wakes_roomy [OF w(3)] 1(2) w(2) by simp
      from 1(1) [OF w(1) refl refl _ this] True obtain s2 k where
        k: "wake_up_all hart s1 q1 (n + 1) = Some (s2, [], n + 1 + k)" "wakes s1 q1 s2" by blast
      from wakes_append [OF w(3) k(2)] k(1) w(1,2) True show ?thesis
        by (subst wake_up_all.simps) auto
    next
      case False
      with w show ?thesis by (subst wake_up_all.simps) auto
    qed
  qed
qed

lemma wake_each_spec:
  "roomy s (length ts) \<Longrightarrow> \<exists>s' k. wake_each hart s ts n = Some (s', n + k) \<and> k \<le> length ts \<and> wakes s ts s'"
proof (induction ts arbitrary: s n)
  case Nil
  then show ?case using wakes_Nil by (simp add: roomy_def)
next
  case (Cons t ts)
  then have "roomy s 1" by (auto simp: roomy_def)
  from wake_up_task_wakes [OF this] obtain s1 b where w: "wake_up_task hart s t = Some (s1, b)" "wakes s [t] s1" by blast
  from Cons.IH [of s1 "if b then n + 1 else n"] wakes_roomy [OF w(2)] Cons.prems obtain s2 k where
    k: "wake_each hart s1 ts (if b then n + 1 else n) = Some (s2, (if b then n + 1 else n) + k)" "k \<le> length ts" "wakes s1 ts s2"
    by auto
  from wakes_append [OF w(2) k(3)] k w(1) show ?case
    by (intro exI [of _ s2] exI [of _ "if b then k + 1 else k"]) auto
qed

subsection \<open>Nothing sleeps through its event\<close>

lemma block_saving_roomy:
  assumes "roomy s n" "state (sys_tasks s t) = Running"
  shows "roomy (block_saving t s) n"
proof -
  have i: "sys_inv s" using assms(1) by (simp add: roomy_def)
  have "sys_inv (block_saving t s)" unfolding block_saving_def
    by (rule sys_inv_upd_task [OF i]) (use sys_flag [OF i, of t] sys_policy [OF i, of t] assms(2) in \<open>auto simp: flag_ok_def\<close>)
  then show ?thesis using assms(1) by (simp add: roomy_def block_saving_def sys_queued_def)
qed

lemma block_saving_sleeping [simp]: "sleeping (block_saving t s) t"
  by (simp add: block_saving_def sleeping_def)

lemma signalled_commit:
  "signalled s t \<Longrightarrow> state (fst (commit_block now (sys_tasks s t))) = Ready"
  by (auto simp: signalled_def commit_block_def Let_def)

text \<open>
  C15. Waking is first in, first out and complete: from a well-formed scheduler \<open>wake_up_one\<close> returns
  without panicking, drops the stale entries at the front, signals the first task that is blocked or
  about to block, touches no other task and leaves the rest of the queue; it reports failure only
  when no entry is waiting, and then the whole queue was stale.
\<close>

theorem wake_up_one_fifo:
  assumes "sys_inv s" "0 < length (sys_rqs s)" "size (sys_queued s) + 1 < 2 ^ 64"
  shows "\<exists>s'. sys_inv s' \<and> wake_up_one hart s q =
      (case dropWhile (\<lambda>t. \<not> wakeable s t) q of [] \<Rightarrow> Some (s', [], False) | _ # q' \<Rightarrow> Some (s', q', True))
    \<and> (case dropWhile (\<lambda>t. \<not> wakeable s t) q of
         [] \<Rightarrow> s' = s
       | t # _ \<Rightarrow> (sleeping s t \<longrightarrow> signalled s' t) \<and> (\<forall>u. u \<noteq> t \<longrightarrow> sys_tasks s' u = sys_tasks s u))"
proof (induction q)
  case (Cons t q)
  show ?case
  proof (cases "wakeable s t")
    case True
    have "roomy s 1" using assms by (simp add: roomy_def)
    from wake_up_task_wakes [OF this, of hart t] obtain s' b where "wake_up_task hart s t = Some (s', b)" "wakes s [t] s'" by blast
    with True show ?thesis by (auto simp: wake_up_one_wakeable wakes_def)
  qed (use Cons.IH in \<open>simp add: wake_up_one_stale\<close>)
qed (use assms(1) in simp)


text \<open>
  The semaphore does lose wake-ups.  Its \<open>lock\<close> decrements the counter and enters the wait
  queue in two separate steps; a release between them sees a negative counter and wakes an empty
  queue.  The second thread then blocks although nobody holds the semaphore, with nothing left
  to wake it, and every later \<open>lock\<close> blocks as well.
\<close>

theorem semaphore_loses_wakeup:
  "\<exists>m1 m2 m3 s4 m4. sem_lock_enter (sem_new 1) = (m1, False) \<and> sem_lock_enter m1 = (m2, True)
     \<and> sem_drop hart m2 s = Some (s, m3) \<and> sem_lock_block t m3 s = (s4, m4)
     \<and> state (fst (commit_block now (sys_tasks s4 t))) = Blocked \<and> sem_queue m4 = [t] \<and> snd (sem_lock_enter m4)"
  by (simp add: sem_lock_enter_def sem_new_def sem_drop_def sem_lock_block_def block_current_and_run_next_def
      wq_new_def wq_push_back_def block_saving_def commit_block_def Let_def)

subsection \<open>Waiting for children\<close>

lemma scan_children_iff:
  "scan_children f cs h \<longleftrightarrow> (h \<or> (\<exists>c \<in> set cs. f c)) \<and> (\<forall>c \<in> set cs. f c \<longrightarrow> ch_state c \<noteq> Zombie)"
  by (induction f cs h rule: scan_children.induct) auto

text \<open>
  A parent sleeps in \<open>wait4\<close> and \<open>waitid\<close> exactly when it has a matching child and none of the
  matching children has exited; when it sleeps, the next child exit signals it.
\<close>

theorem child_wait_correct:
  assumes "sys_inv s" "0 < length (sys_rqs s)" "size (sys_queued s) + length q + 1 < 2 ^ 64"
    and "state (sys_tasks s t) = Running"
    and "(r, f) \<in> {(wait4_block_current t g cs pid q s, wait4_matches g pid), (waitid_block_current t cs idtype i q s, waitid_matches idtype i)}"
    and "r = (s1, q1, blocked)"
  shows "(blocked \<longleftrightarrow> (\<exists>c \<in> set cs. f c) \<and> (\<forall>c \<in> set cs. f c \<longrightarrow> ch_state c \<noteq> Zombie))
    \<and> (blocked \<longrightarrow> (\<exists>s2 k. wake_child_exit_waiters hart s1 q1 = Some (s2, [], k) \<and> signalled s2 t))"
proof -
  have r: "roomy (block_saving t s) (length (q @ [t]))"
    by (rule block_saving_roomy) (use assms in \<open>simp_all add: roomy_def\<close>)
  note defs = wait4_block_current_def waitid_block_current_def wait4_should_block_def waitid_should_block_def
    block_current_and_run_next_if_mp_def wq_push_back_def scan_children_iff
  have e: "(blocked \<longleftrightarrow> (\<exists>c \<in> set cs. f c) \<and> (\<forall>c \<in> set cs. f c \<longrightarrow> ch_state c \<noteq> Zombie))
      \<and> (blocked \<longrightarrow> s1 = block_saving t s \<and> q1 = q @ [t])"
    using assms(5,6) by (auto simp: defs split: if_splits)
  from wake_each_spec [OF r, of hart 0] obtain s3 k where
    "wake_each hart (block_saving t s) (q @ [t]) 0 = Some (s3, k)" "wakes (block_saving t s) (q @ [t]) s3" by auto
  then have "\<exists>s2 k. wake_child_exit_waiters hart (block_saving t s) (q @ [t]) = Some (s2, [], k) \<and> signalled s2 t"
    by (auto simp: wake_child_exit_waiters_def wake_up_all_mp_def wakes_def)
  with e show ?thesis by blast
qed

subsection \<open>Witnesses\<close>

definition busy_new :: sched_sys where
  "busy_new = sys_new 1 (\<lambda>_. fresh_task\<lparr>state := Running\<rparr>)"

lemma busy_sys [simp]: "sys_inv busy_new" "sys_rqs busy_new \<noteq> []" "sys_queued busy_new = {#}"
  "state (sys_tasks busy_new t) = Running"
  unfolding busy_new_def
  by (rule sys_inv_new, simp_all add: fresh_task_def policy_ok_def sched_policy_defs) (simp_all add: sys_new_def)

theorem wake_up_one_fifo_witness:
  "wake_up_one 0 busy_new [7, 8] = Some (busy_new, [], False)"
  using wake_up_one_fifo [of busy_new 0 "[7, 8]"] by (simp add: wakeable_def)


theorem child_wait_correct_witness:
  "\<exists>s1 q1. wait4_block_current 7 1 [\<lparr>ch_pid = 9, ch_pgid = 1, ch_state = Ready\<rparr>] (- 1) [] busy_new = (s1, q1, True)
     \<and> (\<exists>s2 k. wake_child_exit_waiters 0 s1 q1 = Some (s2, [], k) \<and> signalled s2 7)"
proof -
  obtain s1 q1 b where r: "wait4_block_current 7 1 [\<lparr>ch_pid = 9, ch_pgid = 1, ch_state = Ready\<rparr>] (- 1) [] busy_new = (s1, q1, b)"
    by (metis prod_cases3)
  show ?thesis
    using child_wait_correct [of busy_new "[]" 7 _ "wait4_matches 1 (- 1)" 1
        "[\<lparr>ch_pid = 9, ch_pgid = 1, ch_state = Ready\<rparr>]" "- 1", OF _ _ _ _ _ r] r
    by (auto simp: wait4_matches_def)
qed

end
