(* ===== verification/Sleep_Queue.thy ===== *)
theory Sleep_Queue
  imports Wait_Queue "HOL-Library.Multiset"
begin

text \<open>
  The sleep queue of \<open>nanosleep\<close> and of timed futex waits (\<open>process/scheduler/nanosleep.rs\<close>).  The
  standard library's binary heap is the list of its entries; \<open>peek\<close> finds a greatest entry in the
  order of \<open>SleepEntry\<close>, whose last key is the address of the task's allocation, the argument \<open>addr\<close>.
\<close>

subsection \<open>Definitions\<close>

record sleep_entry =
  deadline_ns :: usize
  sl_order :: usize
  sl_task :: tid

record sleep_queue =
  sq_inner :: "sleep_entry list"
  enqueue_order :: usize

definition sleep_cmp :: "(tid \<Rightarrow> usize) \<Rightarrow> sleep_entry \<Rightarrow> sleep_entry \<Rightarrow> ordering" where
  "sleep_cmp addr a b =
     then_with (usize_cmp (deadline_ns b) (deadline_ns a))
       (then_with (usize_cmp (sl_order b) (sl_order a)) (usize_cmp (addr (sl_task a)) (addr (sl_task b))))"

fun heap_peek :: "(tid \<Rightarrow> usize) \<Rightarrow> sleep_entry list \<Rightarrow> sleep_entry option" where
  "heap_peek addr [] = None"
| "heap_peek addr (e # es) =
     (case heap_peek addr es of
        None \<Rightarrow> Some e
      | Some m \<Rightarrow> if sleep_cmp addr m e = Greater then Some m else Some e)"

definition heap_pop :: "(tid \<Rightarrow> usize) \<Rightarrow> sleep_entry list \<Rightarrow> (sleep_entry list \<times> sleep_entry) option" where
  "heap_pop addr es = map_option (\<lambda>e. (remove1 e es, e)) (heap_peek addr es)"

definition sq_new :: sleep_queue where
  "sq_new = \<lparr>sq_inner = [], enqueue_order = 0\<rparr>"

definition sq_push :: "sleep_queue \<Rightarrow> usize \<Rightarrow> tid \<Rightarrow> sleep_queue" where
  "sq_push q d t =
     (let inner = filter (\<lambda>e. sl_task e \<noteq> t) (sq_inner q);
          entry = \<lparr>deadline_ns = d, sl_order = enqueue_order q, sl_task = t\<rparr> in
      \<lparr>sq_inner = entry # inner, enqueue_order = enqueue_order q + 1\<rparr>)"

definition sq_remove_task :: "sleep_queue \<Rightarrow> tid \<Rightarrow> sleep_queue" where
  "sq_remove_task q t = q\<lparr>sq_inner := filter (\<lambda>e. sl_task e \<noteq> t) (sq_inner q)\<rparr>"

definition pop_expired :: "(tid \<Rightarrow> usize) \<Rightarrow> usize \<Rightarrow> sleep_queue \<Rightarrow> sleep_queue \<times> tid option" where
  "pop_expired addr now_ns q =
     (case heap_pop addr (sq_inner q) of
        None \<Rightarrow> (q, None)
      | Some (es, e) \<Rightarrow> if deadline_ns e \<le> now_ns then (q\<lparr>sq_inner := es\<rparr>, Some (sl_task e)) else (q, None))"

lemma heap_peek_mem: "heap_peek addr es = Some e \<Longrightarrow> e \<in> set es"
  by (induction es arbitrary: e) (auto split: option.splits if_splits)

lemma heap_pop_Some: "heap_pop addr es = Some (es', e) \<Longrightarrow> mset es = add_mset e (mset es')"
  by (auto simp: heap_pop_def dest: heap_peek_mem)

lemma heap_pop_shorter: "heap_pop addr es = Some (es', e) \<Longrightarrow> length es' < length es"
  by (drule heap_pop_Some, drule arg_cong [where f = size]) simp

function pop_all_loop :: "(tid \<Rightarrow> usize) \<Rightarrow> usize \<Rightarrow> sleep_entry list \<Rightarrow> tid list \<Rightarrow> sleep_entry list \<times> tid list" where
  "pop_all_loop addr now_ns es tasks =
     (case heap_pop addr es of
        None \<Rightarrow> (es, tasks)
      | Some (es', e) \<Rightarrow>
          if deadline_ns e \<le> now_ns then pop_all_loop addr now_ns es' (tasks @ [sl_task e]) else (es, tasks))"
  by pat_completeness auto
termination by (relation "measure (\<lambda>(_, _, es, _). length es)") (auto dest: heap_pop_shorter)

declare pop_all_loop.simps [simp del]

definition pop_all_expired :: "(tid \<Rightarrow> usize) \<Rightarrow> usize \<Rightarrow> sleep_queue \<Rightarrow> sleep_queue \<times> tid list" where
  "pop_all_expired addr now_ns q =
     (let (es, tasks) = pop_all_loop addr now_ns (sq_inner q) [] in (q\<lparr>sq_inner := es\<rparr>, tasks))"

definition monotonic_now_ns :: "usize \<Rightarrow> usize" where
  "monotonic_now_ns time_us = sat_mul time_us 1000"

definition register_sleep_task :: "usize \<Rightarrow> tid \<Rightarrow> sleep_queue \<Rightarrow> sleep_queue" where
  "register_sleep_task d t q = sq_push q d t"

definition cancel_sleep_task :: "tid \<Rightarrow> sleep_queue \<Rightarrow> sleep_queue" where
  "cancel_sleep_task t q = sq_remove_task q t"

definition sleep_current_until :: "tid \<Rightarrow> usize \<Rightarrow> sched_sys \<Rightarrow> sleep_queue \<Rightarrow> sched_sys \<times> sleep_queue" where
  "sleep_current_until t d s q = (block_saving t s, register_sleep_task d t q)"

definition wake_expired_sleep_tasks ::
  "(tid \<Rightarrow> usize) \<Rightarrow> nat \<Rightarrow> usize \<Rightarrow> sched_sys \<Rightarrow> sleep_queue \<Rightarrow> (sched_sys \<times> sleep_queue) option" where
  "wake_expired_sleep_tasks addr hart time_us s q =
     (let (q, tasks) = pop_all_expired addr (monotonic_now_ns time_us) q in
      do { (s, _) \<leftarrow> wake_each hart s tasks 0; Some (s, q) })"

subsection \<open>Expiry\<close>

definition sooner_eq :: "sleep_entry \<Rightarrow> sleep_entry \<Rightarrow> bool" where
  "sooner_eq a b \<longleftrightarrow> deadline_ns a < deadline_ns b \<or> (deadline_ns a = deadline_ns b \<and> sl_order a \<le> sl_order b)"

lemma sooner_eq_refl [simp]: "sooner_eq a a"
  by (simp add: sooner_eq_def)

lemma sooner_eq_trans: "sooner_eq a b \<Longrightarrow> sooner_eq b c \<Longrightarrow> sooner_eq a c"
  by (auto simp: sooner_eq_def)

lemma sleep_cmp_sooner:
  "sleep_cmp addr a b = Greater \<Longrightarrow> sooner_eq a b" "sleep_cmp addr a b \<noteq> Greater \<Longrightarrow> sooner_eq b a"
  by (auto simp: sleep_cmp_def usize_cmp_def sooner_eq_def split: if_splits)

lemma heap_peek_soonest: "heap_peek addr es = Some e \<Longrightarrow> x \<in> set es \<Longrightarrow> sooner_eq e x"
proof (induction es arbitrary: e x)
  case (Cons a es)
  show ?case
  proof (cases "heap_peek addr es")
    case None
    then have "es = []" by (cases es) (auto split: option.splits if_splits)
    with Cons.prems show ?thesis by simp
  next
    case (Some m)
    note ih = Cons.IH [OF Some]
    show ?thesis
    proof (cases "sleep_cmp addr m a = Greater")
      case True
      with Cons.prems Some ih sleep_cmp_sooner(1) show ?thesis by auto
    next
      case False
      with Cons.prems Some ih sleep_cmp_sooner(2) [OF False] sooner_eq_trans show ?thesis by auto
    qed
  qed
qed simp

lemma heap_peek_None: "heap_peek addr es = None \<longleftrightarrow> es = []"
  by (cases es) (auto split: option.splits)

lemma pop_all_loop_spec:
  "\<exists>rest gone. pop_all_loop addr now es ts = (rest, ts @ map sl_task gone)
     \<and> mset rest = filter_mset (\<lambda>e. \<not> deadline_ns e \<le> now) (mset es)
     \<and> mset gone = filter_mset (\<lambda>e. deadline_ns e \<le> now) (mset es) \<and> sorted_wrt sooner_eq gone"
proof (induction addr now es ts rule: pop_all_loop.induct)
  case (1 addr now es ts)
  show ?case
  proof (cases "heap_pop addr es")
    case None
    then have "es = []" by (simp add: heap_pop_def heap_peek_None)
    then show ?thesis by (subst pop_all_loop.simps) (simp add: heap_pop_def)
  next
    case (Some p)
    obtain es' e where p: "heap_pop addr es = Some (es', e)" using Some by (cases p) auto
    note m = heap_pop_Some [OF p]
    have least: "\<forall>x \<in> set es. sooner_eq e x" using p heap_peek_soonest by (auto simp: heap_pop_def)
    show ?thesis
    proof (cases "deadline_ns e \<le> now")
      case True
      from 1 [OF p refl True] obtain rest gone where i: "pop_all_loop addr now es' (ts @ [sl_task e]) = (rest, ts @ [sl_task e] @ map sl_task gone)"
        "mset rest = filter_mset (\<lambda>e. \<not> deadline_ns e \<le> now) (mset es')"
        "mset gone = filter_mset (\<lambda>e. deadline_ns e \<le> now) (mset es')" "sorted_wrt sooner_eq gone" by auto
      have "set gone \<subseteq> set es" using i(3) m by (metis mset_eq_setD set_mset_filter set_mset_mset mem_Collect_eq subsetI insertCI set_mset_add_mset_insert)
      then have "\<forall>x \<in> set gone. sooner_eq e x" using least by blast
      with i m p True show ?thesis
        by (subst pop_all_loop.simps) (auto intro!: exI [of _ "e # gone"])
    next
      case False
      have "\<forall>x \<in> set es. \<not> deadline_ns x \<le> now" using least False by (fastforce simp: sooner_eq_def)
      then have "filter_mset (\<lambda>e. \<not> deadline_ns e \<le> now) (mset es) = mset es" "filter_mset (\<lambda>e. deadline_ns e \<le> now) (mset es) = {#}"
        by (simp_all flip: mset_filter)
      with p False show ?thesis by (subst pop_all_loop.simps) simp
    qed
  qed
qed

definition sq_inv :: "sleep_queue \<Rightarrow> bool" where
  "sq_inv q \<longleftrightarrow> distinct (map sl_task (sq_inner q))"

lemma distinct_map_filter_task: "distinct (map f xs) \<Longrightarrow> distinct (map f (filter P xs))"
  by (induction xs) auto

lemma sq_ops_inv: "sq_inv sq_new" "sq_inv q \<Longrightarrow> sq_inv (sq_push q d t)" "sq_inv q \<Longrightarrow> sq_inv (sq_remove_task q t)"
  by (auto simp: sq_inv_def sq_new_def sq_push_def sq_remove_task_def Let_def distinct_map_filter_task)

text \<open>
  C17. Timers fire exactly when due.  Collecting expired sleepers takes precisely the entries whose
  deadline has passed, earliest first and in the order of registration among equals, leaves
  precisely the others, and every collected task that is asleep is signalled, whether it is already
  blocked or still saving its context.
\<close>

theorem sleepers_wake_when_due:
  assumes "sys_inv s" "0 < length (sys_rqs s)" "size (sys_queued s) + length (sq_inner q) < 2 ^ 64"
  shows "\<exists>s' q' gone. wake_expired_sleep_tasks addr hart us s q = Some (s', q')
    \<and> mset gone = filter_mset (\<lambda>e. deadline_ns e \<le> monotonic_now_ns us) (mset (sq_inner q)) \<and> sorted_wrt sooner_eq gone
    \<and> snd (pop_all_expired addr (monotonic_now_ns us) q) = map sl_task gone
    \<and> mset (sq_inner q') = filter_mset (\<lambda>e. \<not> deadline_ns e \<le> monotonic_now_ns us) (mset (sq_inner q))
    \<and> (\<forall>e \<in> set (sq_inner q). deadline_ns e \<le> monotonic_now_ns us \<longrightarrow> sleeping s (sl_task e) \<longrightarrow> signalled s' (sl_task e))"
proof -
  obtain rest gone where p: "pop_all_loop addr (monotonic_now_ns us) (sq_inner q) [] = (rest, map sl_task gone)"
    "mset rest = filter_mset (\<lambda>e. \<not> deadline_ns e \<le> monotonic_now_ns us) (mset (sq_inner q))"
    "mset gone = filter_mset (\<lambda>e. deadline_ns e \<le> monotonic_now_ns us) (mset (sq_inner q))" "sorted_wrt sooner_eq gone"
    using pop_all_loop_spec [of addr "monotonic_now_ns us" "sq_inner q" "[]"] by auto
  have "length gone \<le> length (sq_inner q)"
    using p(3) size_filter_mset_lesseq [of _ "mset (sq_inner q)"] by (metis size_mset)
  then have "roomy s (length (map sl_task gone))" using assms by (simp add: roomy_def)
  from wake_each_spec [OF this, of hart 0] obtain s' k where
    w: "wake_each hart s (map sl_task gone) 0 = Some (s', k)" "wakes s (map sl_task gone) s'" by auto
  have "signalled s' (sl_task e)"
    if "e \<in> set (sq_inner q)" "deadline_ns e \<le> monotonic_now_ns us" "sleeping s (sl_task e)" for e
  proof -
    have "e \<in># mset gone" using that p(3) by simp
    with w(2) that(3) show ?thesis by (auto simp: wakes_def)
  qed
  with p w(1) show ?thesis
    by (simp add: wake_expired_sleep_tasks_def pop_all_expired_def) blast
qed

theorem sleepers_wake_when_due_witness:
  "\<exists>s' q'. wake_expired_sleep_tasks (\<lambda>t. t) 0 3 (fst (sleep_current_until 7 2000 busy_new sq_new))
      (sq_push (snd (sleep_current_until 7 2000 busy_new sq_new)) 9000 8) = Some (s', q')
    \<and> map sl_task (sq_inner q') = [8] \<and> signalled s' 7"
proof -
  let ?s = "block_saving 7 busy_new" and ?q = "sq_push (sq_push sq_new 2000 7) 9000 8"
  have e: "sleep_current_until 7 2000 busy_new sq_new = (?s, sq_push sq_new 2000 7)"
    by (simp add: sleep_current_until_def register_sleep_task_def)
  have q: "sq_inner ?q = [\<lparr>deadline_ns = 9000, sl_order = 1, sl_task = 8\<rparr>, \<lparr>deadline_ns = 2000, sl_order = 0, sl_task = 7\<rparr>]"
    by (simp add: sq_push_def sq_new_def Let_def)
  have n: "monotonic_now_ns 3 = 3000" by (simp add: monotonic_now_ns_def sat_mul_def)
  have r: "roomy ?s 2" by (rule block_saving_roomy) (simp_all add: roomy_def)
  from sleepers_wake_when_due [of ?s ?q "\<lambda>t. t" 0 3] r obtain s' q' where
    w: "wake_expired_sleep_tasks (\<lambda>t. t) 0 3 ?s ?q = Some (s', q')"
      "mset (sq_inner q') = filter_mset (\<lambda>e. \<not> deadline_ns e \<le> 3000) (mset (sq_inner ?q))"
      "\<forall>e \<in> set (sq_inner ?q). deadline_ns e \<le> 3000 \<longrightarrow> sleeping ?s (sl_task e) \<longrightarrow> signalled s' (sl_task e)"
    unfolding n by (auto simp: roomy_def q)
  have "mset (sq_inner q') = mset [\<lparr>deadline_ns = 9000, sl_order = 1, sl_task = 8\<rparr>]" using w(2) by (simp add: q)
  then have "sq_inner q' = [\<lparr>deadline_ns = 9000, sl_order = 1, sl_task = 8\<rparr>]" by simp
  with w(1,3) e show ?thesis by (simp add: q)
qed

end
