(* ===== verification/Errno.thy ===== *)
theory Errno
  imports Main
begin

text \<open>
  The error numbers the modelled system calls return (\<open>syscall/errno.rs\<close>).  The enumeration is
  C-like, so an error is its code; a system call returns it negated.
\<close>

type_synonym errno = int

definition EPERM :: errno where "EPERM = 1"
definition ENOENT :: errno where "ENOENT = 2"
definition ESRCH :: errno where "ESRCH = 3"
definition EINTR :: errno where "EINTR = 4"
definition EIO :: errno where "EIO = 5"
definition E2BIG :: errno where "E2BIG = 7"
definition EBADF :: errno where "EBADF = 9"
definition ECHILD :: errno where "ECHILD = 10"
definition EAGAIN :: errno where "EAGAIN = 11"
definition ENOMEM :: errno where "ENOMEM = 12"
definition EACCES :: errno where "EACCES = 13"
definition EFAULT :: errno where "EFAULT = 14"
definition EBUSY :: errno where "EBUSY = 16"
definition EEXIST :: errno where "EEXIST = 17"
definition ENOTDIR :: errno where "ENOTDIR = 20"
definition EISDIR :: errno where "EISDIR = 21"
definition EINVAL :: errno where "EINVAL = 22"
definition ENFILE :: errno where "ENFILE = 23"
definition EMFILE :: errno where "EMFILE = 24"
definition ENOTTY :: errno where "ENOTTY = 25"
definition EFBIG :: errno where "EFBIG = 27"
definition ENOSPC :: errno where "ENOSPC = 28"
definition ESPIPE :: errno where "ESPIPE = 29"
definition EPIPE :: errno where "EPIPE = 32"
definition ERANGE :: errno where "ERANGE = 34"
definition ENAMETOOLONG :: errno where "ENAMETOOLONG = 36"
definition ENOSYS :: errno where "ENOSYS = 38"
definition ENOTEMPTY :: errno where "ENOTEMPTY = 39"
definition ELOOP :: errno where "ELOOP = 40"
definition ENOMSG :: errno where "ENOMSG = 42"
definition EIDRM :: errno where "EIDRM = 43"
definition ERESTART :: errno where "ERESTART = 85"
definition EOVERFLOW :: errno where "EOVERFLOW = 75"
definition ETIMEDOUT :: errno where "ETIMEDOUT = 110"
definition EOPNOTSUPP :: errno where "EOPNOTSUPP = 95"

definition as_isize :: "errno \<Rightarrow> int" where
  "as_isize e = e * - 1"

lemmas errno_defs = EPERM_def ENOENT_def ESRCH_def EINTR_def EIO_def E2BIG_def
  EBADF_def ECHILD_def EAGAIN_def ENOMEM_def EACCES_def EFAULT_def
  EBUSY_def EEXIST_def ENOTDIR_def EISDIR_def EINVAL_def ENFILE_def
  EMFILE_def ENOTTY_def EFBIG_def ENOSPC_def ESPIPE_def EPIPE_def
  ERANGE_def ENAMETOOLONG_def ENOSYS_def ENOTEMPTY_def ELOOP_def ENOMSG_def
  EIDRM_def ERESTART_def EOVERFLOW_def ETIMEDOUT_def EOPNOTSUPP_def

end
