(* ===== verification/Futex.thy ===== *)
theory Futex
  imports Sleep_Queue Errno
begin

unbundle bit_operations_syntax

text \<open>
  Futex wait queues (\<open>process/scheduler/futex.rs\<close>) and the \<open>futex\<close> system call
  (\<open>syscall/process.rs\<close>).  An \<open>Arc\<close> of a queue or of a waiter is a number; \<open>fx_held\<close> counts the
  handles on a queue that running calls hold besides the global map, so the strong count of a queue
  is that number plus one when the map contains it.  Each operation runs under the map lock or the
  queue lock it takes in the source and is one step here; only \<open>remove_futex_waiter\<close> releases its
  lock half-way, and there the other processors act through the argument \<open>env\<close>.
\<close>

subsection \<open>Data\<close>

datatype futex_shared_object = Mm u64 | AnonymousMapping u64 | File u64

datatype futex_key = Private u64 usize | Shared futex_shared_object usize

record futex_waiter =
  fw_task :: tid
  fw_bitset :: u32
  fw_location :: "(futex_key \<times> nat) option"

record futex_sys =
  fx_map :: "futex_key \<rightharpoonup> nat"
  fx_queues :: "nat \<Rightarrow> nat list"
  fx_waiters :: "nat \<Rightarrow> futex_waiter"
  fx_held :: "nat \<Rightarrow> nat"
  fx_queue_count :: nat
  fx_waiter_count :: nat

record futex_world =
  fw_sched :: sched_sys
  fw_fx :: futex_sys
  fw_sleep :: sleep_queue
  fw_interrupted :: "tid \<Rightarrow> bool"

definition fx_new :: futex_sys where
  "fx_new = \<lparr>fx_map = Map.empty, fx_queues = (\<lambda>_. []), fx_waiters = (\<lambda>_. \<lparr>fw_task = 0, fw_bitset = 0, fw_location = None\<rparr>),
     fx_held = (\<lambda>_. 0), fx_queue_count = 0, fx_waiter_count = 0\<rparr>"

definition set_queue :: "nat \<Rightarrow> nat list \<Rightarrow> futex_sys \<Rightarrow> futex_sys" where
  "set_queue q ws x = x\<lparr>fx_queues := (fx_queues x)(q := ws)\<rparr>"

definition set_location_while_queued :: "nat \<Rightarrow> futex_key \<Rightarrow> nat \<Rightarrow> futex_sys \<Rightarrow> futex_sys" where
  "set_location_while_queued w key q x =
     x\<lparr>fx_waiters := (fx_waiters x)(w := (fx_waiters x w)\<lparr>fw_location := Some (key, q)\<rparr>)\<rparr>"

definition clear_location_while_queued :: "nat \<Rightarrow> futex_sys \<Rightarrow> futex_sys" where
  "clear_location_while_queued w x = x\<lparr>fx_waiters := (fx_waiters x)(w := (fx_waiters x w)\<lparr>fw_location := None\<rparr>)\<rparr>"

definition waiter_location :: "futex_sys \<Rightarrow> nat \<Rightarrow> (futex_key \<times> nat) option" where
  "waiter_location x w = fw_location (fx_waiters x w)"

text \<open>\<open>Arc::strong_count\<close>; the map holds a queue under one key only.\<close>

definition strong_count :: "futex_sys \<Rightarrow> futex_key \<Rightarrow> nat \<Rightarrow> nat" where
  "strong_count x key q = fx_held x q + (if fx_map x key = Some q then 1 else 0)"

definition drop_queue_handle :: "nat \<Rightarrow> futex_sys \<Rightarrow> futex_sys" where
  "drop_queue_handle q x = x\<lparr>fx_held := (fx_held x)(q := fx_held x q - 1)\<rparr>"

fun pop_matching :: "(nat \<Rightarrow> futex_waiter) \<Rightarrow> u32 \<Rightarrow> nat list \<Rightarrow> (nat list \<times> nat) option" where
  "pop_matching ws bitset [] = None"
| "pop_matching ws bitset (w # q) =
     (if fw_bitset (ws w) AND bitset \<noteq> 0 then Some (q, w)
      else map_option (\<lambda>(q', v). (w # q', v)) (pop_matching ws bitset q))"

definition remove_waiter :: "nat \<Rightarrow> nat list \<Rightarrow> nat list \<times> bool" where
  "remove_waiter w q = (if w \<in> set q then (remove1 w q, True) else (q, False))"

text \<open>\<open>queues.entry(key).or_insert_with(new)\<close>\<close>

definition queue_entry :: "futex_key \<Rightarrow> futex_sys \<Rightarrow> futex_sys \<times> nat" where
  "queue_entry key x =
     (case fx_map x key of
        Some q \<Rightarrow> (x, q)
      | None \<Rightarrow> (let q = fx_queue_count x in
                 (x\<lparr>fx_map := (fx_map x)(key \<mapsto> q), fx_queues := (fx_queues x)(q := []), fx_queue_count := q + 1\<rparr>, q)))"

definition map_remove :: "futex_key \<Rightarrow> futex_sys \<Rightarrow> futex_sys" where
  "map_remove key x = x\<lparr>fx_map := (fx_map x)(key := None)\<rparr>"

subsection \<open>Operations\<close>

definition retire_futex_wait_queue_if_unused :: "futex_key \<Rightarrow> nat \<Rightarrow> futex_sys \<Rightarrow> futex_sys" where
  "retire_futex_wait_queue_if_unused key q x =
     (case fx_map x key of
        None \<Rightarrow> x
      | Some current \<Rightarrow>
          if current \<noteq> q \<or> strong_count x key current \<noteq> 2 then x
          else if fx_queues x current = [] then map_remove key x else x)"

text \<open>Here the function's own clone of the handle counts as one.\<close>

definition retire_futex_wait_queue_by_key_if_unused :: "futex_key \<Rightarrow> futex_sys \<Rightarrow> futex_sys" where
  "retire_futex_wait_queue_by_key_if_unused key x =
     (case fx_map x key of
        None \<Rightarrow> x
      | Some current \<Rightarrow>
          if strong_count x key current + 1 = 2 \<and> fx_queues x current = [] then map_remove key x else x)"

definition block_current_on_futex_if ::
  "tid \<Rightarrow> futex_key \<Rightarrow> u32 \<Rightarrow> usize option \<Rightarrow> bool \<Rightarrow> futex_world \<Rightarrow> futex_world \<times> (nat \<times> nat) option" where
  "block_current_on_futex_if t key bitset deadline should_block wd =
     (let (x, q) = queue_entry key (fw_fx wd) in
      if \<not> should_block then
        (wd\<lparr>fw_fx := (if fx_queues x q = [] then map_remove key x else x)\<rparr>, None)
      else
        (let s = block_saving t (fw_sched wd);
             sl = (case deadline of None \<Rightarrow> fw_sleep wd | Some d \<Rightarrow> register_sleep_task d t (fw_sleep wd));
             w = fx_waiter_count x;
             x = x\<lparr>fx_waiters := (fx_waiters x)(w := \<lparr>fw_task = t, fw_bitset = bitset, fw_location = None\<rparr>), fx_waiter_count := w + 1\<rparr>;
             x = set_location_while_queued w key q x;
             x = set_queue q (fx_queues x q @ [w]) x;
             x = x\<lparr>fx_held := (fx_held x)(q := fx_held x q + 1)\<rparr> in
         (wd\<lparr>fw_sched := s, fw_sleep := sl, fw_fx := x\<rparr>, Some (w, q))))"

fun collect_matching :: "nat \<Rightarrow> u32 \<Rightarrow> nat \<Rightarrow> futex_sys \<Rightarrow> nat list \<Rightarrow> futex_sys \<times> nat list" where
  "collect_matching 0 bitset q x ws = (x, ws)"
| "collect_matching (Suc n) bitset q x ws =
     (case pop_matching (fx_waiters x) bitset (fx_queues x q) of
        None \<Rightarrow> (x, ws)
      | Some (rest, w) \<Rightarrow>
          collect_matching n bitset q (clear_location_while_queued w (set_queue q rest x)) (ws @ [w]))"

definition wake_futex_waiters ::
  "nat \<Rightarrow> nat \<Rightarrow> nat \<Rightarrow> u32 \<Rightarrow> futex_world \<Rightarrow> (futex_world \<times> nat) option" where
  "wake_futex_waiters hart q n bitset wd =
     (let (x, ws) = collect_matching n bitset q (fw_fx wd) [] in
      do { (s, _) \<leftarrow> wake_each hart (fw_sched wd) (map (\<lambda>w. fw_task (fx_waiters x w)) ws) 0;
           Some (wd\<lparr>fw_sched := s, fw_fx := x\<rparr>, length ws) })"

fun pop_wake :: "nat \<Rightarrow> nat \<Rightarrow> futex_sys \<Rightarrow> nat list \<Rightarrow> futex_sys \<times> nat list" where
  "pop_wake 0 src x ws = (x, ws)"
| "pop_wake (Suc n) src x ws =
     (case fx_queues x src of
        [] \<Rightarrow> (x, ws)
      | w # rest \<Rightarrow> pop_wake n src (clear_location_while_queued w (set_queue src rest x)) (ws @ [w]))"

fun move_waiters :: "nat \<Rightarrow> nat \<Rightarrow> nat \<Rightarrow> futex_key \<Rightarrow> futex_sys \<Rightarrow> nat \<Rightarrow> futex_sys \<times> nat" where
  "move_waiters 0 src dst dst_key x moved = (x, moved)"
| "move_waiters (Suc n) src dst dst_key x moved =
     (case fx_queues x src of
        [] \<Rightarrow> (x, moved)
      | w # rest \<Rightarrow>
          (let x = set_queue src rest x;
               x = set_location_while_queued w dst_key dst x;
               x = set_queue dst (fx_queues x dst @ [w]) x in
           move_waiters n src dst dst_key x (moved + 1)))"

text \<open>
  The two branches for different queues take the locks in address order and are otherwise the
  same.  \<open>None\<close> in the second component is \<open>Err(())\<close>.
\<close>

definition requeue_futex_waiters ::
  "nat \<Rightarrow> futex_key \<Rightarrow> futex_key \<Rightarrow> nat \<Rightarrow> nat \<Rightarrow> bool \<Rightarrow> futex_world \<Rightarrow> (futex_world \<times> nat option) option" where
  "requeue_futex_waiters hart src_key dst_key wake_count requeue_count should_requeue wd =
     (case fx_map (fw_fx wd) src_key of
        None \<Rightarrow> Some (wd, if should_requeue then Some 0 else None)
      | Some src \<Rightarrow>
          (let (x, dst) = (if requeue_count > 0 then map_prod id Some (queue_entry dst_key (fw_fx wd)) else (fw_fx wd, None)) in
           if \<not> should_requeue then Some (wd\<lparr>fw_fx := x\<rparr>, None)
           else
             (let (x, ws) = pop_wake wake_count src x [];
                  (x, moved) = (case dst of
                                  None \<Rightarrow> (x, 0)
                                | Some d \<Rightarrow> if src = d then (x, min requeue_count (length (fx_queues x src)))
                                            else move_waiters requeue_count src d dst_key x 0) in
              do { (s, _) \<leftarrow> wake_each hart (fw_sched wd) (map (\<lambda>w. fw_task (fx_waiters x w)) ws) 0;
                   Some (wd\<lparr>fw_sched := s, fw_fx := x\<rparr>, Some (length ws + moved)) })))"

datatype removal = Removed futex_sys futex_key nat | NotQueued futex_sys | Panicked

text \<open>
  \<open>env\<close> is what the other processors do to the futex state before the n-th access: to the location,
  to the queue under its lock, and to the location again.
\<close>

partial_function (option) remove_futex_waiter ::
  "(nat \<Rightarrow> futex_sys \<Rightarrow> futex_sys) \<Rightarrow> nat \<Rightarrow> nat \<Rightarrow> futex_sys \<Rightarrow> removal option" where
  "remove_futex_waiter env i w x =
     (let x = env i x in
      case waiter_location x w of
        None \<Rightarrow> Some (NotQueued x)
      | Some (key, q) \<Rightarrow>
          if strong_count x key q = 0 then Some (NotQueued x)
          else
            (let x = env (i + 1) x; (rest, found) = remove_waiter w (fx_queues x q) in
             if found then
               (let x = clear_location_while_queued w (set_queue q rest x) in
                Some (Removed (x\<lparr>fx_held := (fx_held x)(q := fx_held x q + 1)\<rparr>) key q))
             else
               (let x = env (i + 2) x in
                case waiter_location x w of
                  None \<Rightarrow> Some (NotQueued x)
                | Some (key', q') \<Rightarrow>
                    if \<not> (key' \<noteq> key \<or> q' \<noteq> q) then Some Panicked
                    else remove_futex_waiter env (i + 3) w x)))"

subsection \<open>The system call\<close>

definition FUTEX_WAIT :: u32 where "FUTEX_WAIT = 0"
definition FUTEX_WAKE :: u32 where "FUTEX_WAKE = 1"
definition FUTEX_REQUEUE :: u32 where "FUTEX_REQUEUE = 3"
definition FUTEX_CMP_REQUEUE :: u32 where "FUTEX_CMP_REQUEUE = 4"
definition FUTEX_WAKE_OP :: u32 where "FUTEX_WAKE_OP = 5"
definition FUTEX_WAIT_BITSET :: u32 where "FUTEX_WAIT_BITSET = 9"
definition FUTEX_WAKE_BITSET :: u32 where "FUTEX_WAKE_BITSET = 10"
definition FUTEX_PRIVATE_FLAG :: u32 where "FUTEX_PRIVATE_FLAG = 128"
definition FUTEX_CLOCK_REALTIME :: u32 where "FUTEX_CLOCK_REALTIME = 256"
definition FUTEX_CMD_MASK :: u32 where "FUTEX_CMD_MASK = NOT (FUTEX_PRIVATE_FLAG OR FUTEX_CLOCK_REALTIME)"

text \<open>
  What the call reads of its environment: the user's words (\<open>try_translated_read\<close>), the keys of
  addresses (\<open>MemorySet::futex_key\<close>), the two clocks, and whether a signal is pending for the task.
\<close>

record futex_env =
  fe_task :: tid
  fe_hart :: nat
  fe_word :: "usize \<Rightarrow> u32 option"
  fe_timespec :: "usize \<Rightarrow> (usize \<times> usize) option"
  fe_key :: "usize \<Rightarrow> bool \<Rightarrow> futex_key option"
  fe_time_us :: usize
  fe_wallclock_us :: usize
  fe_pending :: bool

definition futex_deadline_us :: "futex_env \<Rightarrow> u32 \<Rightarrow> u32 \<Rightarrow> usize \<times> usize \<Rightarrow> usize" where
  "futex_deadline_us e cmd op ts =
     (let timeout_us = sat_add (sat_mul (fst ts) 1000000) ((snd ts + 999) div 1000) in
      if cmd = FUTEX_WAIT_BITSET then
        (if op AND FUTEX_CLOCK_REALTIME \<noteq> 0
         then sat_add (fe_time_us e) (sat_sub timeout_us (fe_wallclock_us e)) else timeout_us)
      else sat_add (fe_time_us e) timeout_us)"

definition read_deadline :: "futex_env \<Rightarrow> u32 \<Rightarrow> u32 \<Rightarrow> usize \<Rightarrow> errno + usize option" where
  "read_deadline e cmd op timeout =
     (if timeout = 0 then Inr None
      else case fe_timespec e timeout of
             None \<Rightarrow> Inl EFAULT
           | Some ts \<Rightarrow> if snd ts \<ge> 1000000000 then Inl EINVAL else Inr (Some (futex_deadline_us e cmd op ts)))"

text \<open>The wait up to the context switch; \<open>recheck\<close> is the word read again under the locks.\<close>

datatype wait_outcome = Returned int | Waiting nat nat futex_key "usize option"

definition futex_wait_enter ::
  "futex_env \<Rightarrow> u32 option \<Rightarrow> usize \<Rightarrow> u32 \<Rightarrow> u32 \<Rightarrow> usize \<Rightarrow> u32 \<Rightarrow> futex_world \<Rightarrow> futex_world \<times> wait_outcome" where
  "futex_wait_enter e recheck uaddr op val timeout val3 wd =
     (let cmd = op AND FUTEX_CMD_MASK in
      if cmd = FUTEX_WAIT \<and> op AND FUTEX_CLOCK_REALTIME \<noteq> 0 then (wd, Returned (as_isize EINVAL))
      else if cmd = FUTEX_WAIT_BITSET \<and> val3 = 0 then (wd, Returned (as_isize EINVAL))
      else case fe_word e uaddr of
        None \<Rightarrow> (wd, Returned (as_isize EFAULT))
      | Some current_val \<Rightarrow>
          if current_val \<noteq> val then (wd, Returned (as_isize EAGAIN))
          else case read_deadline e cmd op timeout of
            Inl err \<Rightarrow> (wd, Returned (as_isize err))
          | Inr deadline_us \<Rightarrow>
              if fe_pending e then (wd, Returned (as_isize EINTR))
              else
                (let wd = wd\<lparr>fw_interrupted := (fw_interrupted wd)(fe_task e := False)\<rparr> in
                 case fe_key e uaddr (op AND FUTEX_PRIVATE_FLAG \<noteq> 0) of
                   None \<Rightarrow> (wd, Returned (as_isize EFAULT))
                 | Some key \<Rightarrow>
                     (let bitset = (if cmd = FUTEX_WAIT_BITSET then val3 else - 1);
                          deadline_ns = map_option (\<lambda>d. sat_mul d 1000) deadline_us in
                      case block_current_on_futex_if (fe_task e) key bitset deadline_ns (recheck = Some val) wd of
                        (wd, Some (w, q)) \<Rightarrow> (wd, Waiting w q key deadline_us)
                      | (wd, None) \<Rightarrow> (wd, Returned (case recheck of Some _ \<Rightarrow> as_isize EAGAIN | None \<Rightarrow> as_isize EFAULT)))))"

text \<open>
  The wait after the task runs again, given what \<open>remove_futex_waiter\<close> found; \<open>take\<close> of the
  interruption flag clears it.  The handles on the queues are dropped on return.
\<close>

definition futex_wait_exit ::
  "futex_env \<Rightarrow> nat \<Rightarrow> futex_key \<Rightarrow> usize option \<Rightarrow> removal \<Rightarrow> futex_world \<Rightarrow> (futex_world \<times> int) option" where
  "futex_wait_exit e q key deadline_us removed wd =
     (let sl = (if deadline_us = None then fw_sleep wd else cancel_sleep_task (fe_task e) (fw_sleep wd));
          interrupted = fw_interrupted wd (fe_task e);
          finish = (\<lambda>x timed_out.
            (let x = drop_queue_handle q (retire_futex_wait_queue_if_unused key q x);
                 wd = wd\<lparr>fw_fx := x, fw_sleep := sl, fw_interrupted := (fw_interrupted wd)(fe_task e := False)\<rparr> in
             (wd, if interrupted then as_isize EINTR
                  else if fe_pending e then as_isize EINTR
                  else if deadline_us \<noteq> None \<and> timed_out then as_isize ETIMEDOUT else 0))) in
      case removed of
        Panicked \<Rightarrow> None
      | NotQueued x \<Rightarrow> Some (finish x False)
      | Removed x rkey rq \<Rightarrow>
          (let x = (if rq \<noteq> q then retire_futex_wait_queue_if_unused rkey rq x else x) in
           Some (finish (drop_queue_handle rq x) True)))"

definition wake_key ::
  "futex_env \<Rightarrow> futex_key \<Rightarrow> nat \<Rightarrow> u32 \<Rightarrow> futex_world \<Rightarrow> (futex_world \<times> nat) option" where
  "wake_key e key n bitset wd =
     (case fx_map (fw_fx wd) key of
        None \<Rightarrow> Some (wd, 0)
      | Some q \<Rightarrow>
          do { (wd, woken) \<leftarrow> wake_futex_waiters (fe_hart e) q n bitset
                 (wd\<lparr>fw_fx := (fw_fx wd)\<lparr>fx_held := (fx_held (fw_fx wd))(q := fx_held (fw_fx wd) q + 1)\<rparr>\<rparr>);
               Some (wd\<lparr>fw_fx := drop_queue_handle q (retire_futex_wait_queue_if_unused key q (fw_fx wd))\<rparr>, woken) })"

definition futex_wake :: "futex_env \<Rightarrow> usize \<Rightarrow> u32 \<Rightarrow> u32 \<Rightarrow> u32 \<Rightarrow> futex_world \<Rightarrow> (futex_world \<times> int) option" where
  "futex_wake e uaddr op val val3 wd =
     (let cmd = op AND FUTEX_CMD_MASK in
      if cmd = FUTEX_WAKE_BITSET \<and> val3 = 0 then Some (wd, as_isize EINVAL)
      else if sint val \<le> 0 then Some (wd, 0)
      else case fe_key e uaddr (op AND FUTEX_PRIVATE_FLAG \<noteq> 0) of
        None \<Rightarrow> Some (wd, as_isize EFAULT)
      | Some key \<Rightarrow>
          do { (wd, woken) \<leftarrow> wake_key e key (nat (sint val)) (if cmd = FUTEX_WAKE_BITSET then val3 else - 1) wd;
               Some (wd, int woken) })"

definition futex_requeue ::
  "futex_env \<Rightarrow> usize \<Rightarrow> u32 \<Rightarrow> u32 \<Rightarrow> usize \<Rightarrow> usize \<Rightarrow> u32 \<Rightarrow> futex_world \<Rightarrow> (futex_world \<times> int) option" where
  "futex_requeue e uaddr op val timeout uaddr2 val3 wd =
     (let cmd = op AND FUTEX_CMD_MASK; private_requested = (op AND FUTEX_PRIVATE_FLAG \<noteq> 0) in
      if sint val < 0 \<or> sint timeout < 0 then Some (wd, as_isize EINVAL)
      else if uaddr2 = 0 then Some (wd, as_isize EFAULT)
      else if uaddr2 AND 3 \<noteq> 0 then Some (wd, as_isize EINVAL)
      else if cmd = FUTEX_CMP_REQUEUE \<and> fe_word e uaddr = None then Some (wd, as_isize EFAULT)
      else case (fe_key e uaddr private_requested, fe_key e uaddr2 private_requested) of
        (Some src_key, Some dst_key) \<Rightarrow>
          do { (wd, affected) \<leftarrow> requeue_futex_waiters (fe_hart e) src_key dst_key (nat (sint val)) (unat timeout)
                 (cmd = FUTEX_CMP_REQUEUE \<longrightarrow> fe_word e uaddr = Some val3) wd;
               let x = retire_futex_wait_queue_by_key_if_unused src_key (fw_fx wd);
               let x = (if unat timeout > 0 then retire_futex_wait_queue_by_key_if_unused dst_key x else x);
               Some (wd\<lparr>fw_fx := x\<rparr>, case affected of Some n \<Rightarrow> int n | None \<Rightarrow> as_isize EAGAIN) }
      | _ \<Rightarrow> Some (wd, as_isize EFAULT))"

fun futex_wake_targets ::
  "futex_env \<Rightarrow> bool \<Rightarrow> (usize \<times> nat) list \<Rightarrow> nat \<Rightarrow> futex_world \<Rightarrow> (futex_world \<times> nat) option" where
  "futex_wake_targets e p [] total_woken wd = Some (wd, total_woken)"
| "futex_wake_targets e p ((target, n) # ts) total_woken wd =
     (if target = 0 \<or> n = 0 then futex_wake_targets e p ts total_woken wd
      else if target AND 3 \<noteq> 0 then futex_wake_targets e p ts total_woken wd
      else case fe_key e target p of
        None \<Rightarrow> futex_wake_targets e p ts total_woken wd
      | Some key \<Rightarrow>
          do { (wd, woken) \<leftarrow> wake_key e key n (- 1) wd; futex_wake_targets e p ts (total_woken + woken) wd })"

definition futex_wake_op ::
  "futex_env \<Rightarrow> usize \<Rightarrow> u32 \<Rightarrow> u32 \<Rightarrow> usize \<Rightarrow> usize \<Rightarrow> futex_world \<Rightarrow> (futex_world \<times> int) option" where
  "futex_wake_op e uaddr op val timeout uaddr2 wd =
     do { (wd, n) \<leftarrow> futex_wake_targets e (op AND FUTEX_PRIVATE_FLAG \<noteq> 0)
            [(uaddr, nat (max (sint val) 0)), (uaddr2, min (unat timeout) (2 ^ 63 - 1))] 0 wd;
          Some (wd, int n) }"

text \<open>The dispatch; waiting leaves the task in the state in which the switch starts.\<close>

definition sys_futex ::
  "futex_env \<Rightarrow> u32 option \<Rightarrow> usize \<Rightarrow> u32 \<Rightarrow> u32 \<Rightarrow> usize \<Rightarrow> usize \<Rightarrow> u32 \<Rightarrow> futex_world \<Rightarrow> (futex_world \<times> wait_outcome) option" where
  "sys_futex e recheck uaddr op val timeout uaddr2 val3 wd =
     (if uaddr = 0 then Some (wd, Returned (as_isize EFAULT))
      else if uaddr AND 3 \<noteq> 0 then Some (wd, Returned (as_isize EINVAL))
      else
        (let cmd = op AND FUTEX_CMD_MASK in
         if cmd = FUTEX_WAIT \<or> cmd = FUTEX_WAIT_BITSET
         then Some (futex_wait_enter e recheck uaddr op val timeout val3 wd)
         else map_option (map_prod id Returned)
           (if cmd = FUTEX_WAKE \<or> cmd = FUTEX_WAKE_BITSET then futex_wake e uaddr op val val3 wd
            else if cmd = FUTEX_REQUEUE \<or> cmd = FUTEX_CMP_REQUEUE then futex_requeue e uaddr op val timeout uaddr2 val3 wd
            else if cmd = FUTEX_WAKE_OP then futex_wake_op e uaddr op val timeout uaddr2 wd
            else Some (wd, as_isize ENOSYS))))"

subsection \<open>Consistency of queues, locations and the map\<close>

definition fx_inv :: "futex_sys \<Rightarrow> bool" where
  "fx_inv x \<longleftrightarrow> (\<forall>q w. w \<in> set (fx_queues x q) \<longleftrightarrow> (\<exists>k. waiter_location x w = Some (k, q)))
     \<and> (\<forall>w k q. waiter_location x w = Some (k, q) \<longrightarrow> fx_map x k = Some q)
     \<and> (\<forall>q. distinct (fx_queues x q))
     \<and> (\<forall>k q. fx_map x k = Some q \<longrightarrow> q < fx_queue_count x)
     \<and> (\<forall>w. fx_waiter_count x \<le> w \<longrightarrow> waiter_location x w = None)
     \<and> (\<forall>k k' q. fx_map x k = Some q \<longrightarrow> fx_map x k' = Some q \<longrightarrow> k = k')"

lemma fx_invD:
  assumes "fx_inv x"
  shows "w \<in> set (fx_queues x q) \<longleftrightarrow> (\<exists>k. waiter_location x w = Some (k, q))"
    "waiter_location x w = Some (k, q) \<Longrightarrow> fx_map x k = Some q" "distinct (fx_queues x q)"
    "fx_map x k = Some q \<Longrightarrow> q < fx_queue_count x" "fx_waiter_count x \<le> w \<Longrightarrow> waiter_location x w = None"
    "fx_map x k = Some q \<Longrightarrow> fx_map x k' = Some q \<Longrightarrow> k = k'"
  using assms unfolding fx_inv_def by blast+

lemma fx_inv_new: "fx_inv fx_new"
  by (simp add: fx_inv_def fx_new_def waiter_location_def)

lemma fx_inv_held [simp]: "fx_inv (x\<lparr>fx_held := h\<rparr>) = fx_inv x"
  by (simp add: fx_inv_def waiter_location_def)

lemma fx_inv_drop_handle [simp]: "fx_inv (drop_queue_handle q x) = fx_inv x"
  by (simp add: drop_queue_handle_def)

lemma unused_queue_empty:
  assumes "fx_inv x" "\<And>k. fx_map x k \<noteq> Some q"
  shows "fx_queues x q = []"
proof -
  have "w \<notin> set (fx_queues x q)" for w using fx_invD(1,2) [OF assms(1)] assms(2) by blast
  then show ?thesis by (cases "fx_queues x q") auto
qed

lemma queue_entry_spec:
  assumes "fx_inv x" "queue_entry key x = (x', q)"
  shows "fx_inv x'" "fx_map x' key = Some q" "fx_queues x' = fx_queues x" "fx_waiters x' = fx_waiters x"
    "fx_waiter_count x' = fx_waiter_count x" "\<And>k r. fx_map x k = Some r \<Longrightarrow> fx_map x' k = Some r"
proof -
  have e: "fx_queues x (fx_queue_count x) = []"
    by (rule unused_queue_empty [OF assms(1)]) (use fx_invD(4) [OF assms(1)] in blast)
  then have n: "(fx_queues x)(fx_queue_count x := []) = fx_queues x" by (metis fun_upd_triv)
  have k: "fx_map x k = Some r \<Longrightarrow> r \<noteq> fx_queue_count x" for k r using fx_invD(4) [OF assms(1)] by blast
  show "fx_map x' key = Some q" "fx_queues x' = fx_queues x" "fx_waiters x' = fx_waiters x"
    "fx_waiter_count x' = fx_waiter_count x" "\<And>k r. fx_map x k = Some r \<Longrightarrow> fx_map x' k = Some r"
    using assms(2) n by (auto simp: queue_entry_def Let_def split: option.splits)
  show "fx_inv x'"
  proof (cases "fx_map x key")
    case None
    then have "x' = x\<lparr>fx_map := (fx_map x)(key \<mapsto> fx_queue_count x), fx_queue_count := fx_queue_count x + 1\<rparr>"
      using assms(2) n by (auto simp: queue_entry_def Let_def)
    then show ?thesis using assms(1) None k unfolding fx_inv_def waiter_location_def
      by (auto simp: less_SucI)
  qed (use assms in \<open>auto simp: queue_entry_def\<close>)
qed

lemma map_remove_inv:
  assumes "fx_inv x" "fx_map x key = Some q" "fx_queues x q = []"
  shows "fx_inv (map_remove key x)"
proof -
  have "waiter_location x w \<noteq> Some (key, r)" for w r
    using fx_invD(1,2) [OF assms(1)] assms(2,3) by (metis list.set(1) empty_iff option.inject)
  with assms(1) show ?thesis unfolding fx_inv_def map_remove_def waiter_location_def by auto
qed

lemma retire_inv:
  "fx_inv x \<Longrightarrow> fx_inv (retire_futex_wait_queue_if_unused key q x)"
  "fx_inv x \<Longrightarrow> fx_inv (retire_futex_wait_queue_by_key_if_unused key x)"
  by (auto simp: retire_futex_wait_queue_if_unused_def retire_futex_wait_queue_by_key_if_unused_def
      map_remove_inv split: option.splits)

text \<open>Taking the waiters \<open>ws\<close> out of a queue, in one go.\<close>

definition drain :: "nat list \<Rightarrow> nat \<Rightarrow> futex_sys \<Rightarrow> futex_sys" where
  "drain ws q x = x\<lparr>fx_queues := (fx_queues x)(q := filter (\<lambda>w. w \<notin> set ws) (fx_queues x q)),
     fx_waiters := (\<lambda>w. if w \<in> set ws then (fx_waiters x w)\<lparr>fw_location := None\<rparr> else fx_waiters x w)\<rparr>"

lemma drain_simps [simp]:
  "fx_map (drain ws q x) = fx_map x" "fx_held (drain ws q x) = fx_held x"
  "fx_queues (drain ws q x) q = filter (\<lambda>w. w \<notin> set ws) (fx_queues x q)"
  "r \<noteq> q \<Longrightarrow> fx_queues (drain ws q x) r = fx_queues x r"
  "fw_task (fx_waiters (drain ws q x) w) = fw_task (fx_waiters x w)"
  "fw_bitset (fx_waiters (drain ws q x) w) = fw_bitset (fx_waiters x w)"
  by (simp_all add: drain_def)

lemma drain_Nil [simp]: "drain [] q x = x"
  by (simp add: drain_def)

lemma distinct_remove1_filter: "distinct ws \<Longrightarrow> remove1 w ws = filter (\<lambda>v. v \<noteq> w) ws"
  by (induction ws) (auto simp: filter_id_conv)

lemma drain_one:
  "distinct (fx_queues x q) \<Longrightarrow> clear_location_while_queued w (set_queue q (remove1 w (fx_queues x q)) x) = drain [w] q x"
  by (simp add: drain_def clear_location_while_queued_def set_queue_def distinct_remove1_filter fun_upd_def cong: if_cong)

lemma drain_drain: "drain ws q (drain [w] q x) = drain (w # ws) q x"
  by (simp add: drain_def fun_eq_iff conj_commute)

lemma drain_inv:
  assumes "fx_inv x" "set ws \<subseteq> set (fx_queues x q)"
  shows "fx_inv (drain ws q x)"
proof -
  have l: "waiter_location (drain ws q x) w = (if w \<in> set ws then None else waiter_location x w)" for w
    by (simp add: waiter_location_def drain_def)
  have n: "w \<notin> set (fx_queues x r)" if "w \<in> set ws" "r \<noteq> q" for w r
  proof -
    have "w \<in> set (fx_queues x q)" using assms(2) that(1) by blast
    then show ?thesis using fx_invD(1) [OF assms(1), of w q] fx_invD(1) [OF assms(1), of w r] that(2) by auto
  qed
  have "w \<in> set (fx_queues (drain ws q x) r) \<longleftrightarrow> w \<notin> set ws \<and> w \<in> set (fx_queues x r)" for w r
    using n by (cases "r = q") auto
  moreover have "distinct (fx_queues (drain ws q x) r)" for r using fx_invD(3) [OF assms(1)] by (cases "r = q") auto
  moreover have "fx_queue_count (drain ws q x) = fx_queue_count x" "fx_waiter_count (drain ws q x) = fx_waiter_count x"
    by (simp_all add: drain_def)
  ultimately show ?thesis using fx_invD [OF assms(1)] unfolding fx_inv_def l drain_simps(1) by (simp split: if_splits)
qed

lemma pop_matching_spec:
  "pop_matching ws b q = (case filter (\<lambda>w. fw_bitset (ws w) AND b \<noteq> 0) q of [] \<Rightarrow> None | w # _ \<Rightarrow> Some (remove1 w q, w))"
proof (induction q)
  case (Cons a q)
  let ?P = "\<lambda>w. fw_bitset (ws w) AND b \<noteq> 0"
  show ?case
  proof (cases "filter ?P q")
    case (Cons w v)
    have "w \<in> set (filter ?P q)" unfolding Cons by simp
    then have "?P w" unfolding set_filter by blast
    with Cons \<open>pop_matching ws b q = _\<close> show ?thesis by auto
  qed (use Cons in auto)
qed simp

lemma drain_filter:
  assumes "distinct (fx_queues x q)" "filter P (fx_queues x q) = w # v"
  shows "filter P (fx_queues (drain [w] q x) q) = v"
proof -
  have "filter P (fx_queues (drain [w] q x) q) = filter (\<lambda>u. u \<noteq> w) (filter P (fx_queues x q))"
    by (simp add: conj_commute)
  also have "\<dots> = v" using assms distinct_filter [OF assms(1), of P] by (auto simp: filter_id_conv)
  finally show ?thesis .
qed

lemma collect_matching_drain:
  "distinct (fx_queues x q) \<Longrightarrow>
     collect_matching n b q x ws =
       (drain (take n (filter (\<lambda>w. fw_bitset (fx_waiters x w) AND b \<noteq> 0) (fx_queues x q))) q x,
        ws @ take n (filter (\<lambda>w. fw_bitset (fx_waiters x w) AND b \<noteq> 0) (fx_queues x q)))"
proof (induction n arbitrary: x ws)
  case (Suc n)
  let ?P = "\<lambda>w. fw_bitset (fx_waiters x w) AND b \<noteq> 0"
  show ?case
  proof (cases "filter ?P (fx_queues x q)")
    case Nil
    then show ?thesis by (simp add: pop_matching_spec)
  next
    case (Cons w v)
    have d: "distinct (fx_queues (drain [w] q x) q)" using Suc.prems by simp
    from Suc.IH [OF d, of "ws @ [w]"] drain_filter [OF Suc.prems Cons] Cons show ?thesis
      by (simp add: pop_matching_spec drain_one [OF Suc.prems] drain_drain)
  qed
qed simp

lemma pop_wake_drain:
  "distinct (fx_queues x q) \<Longrightarrow>
     pop_wake n q x ws = (drain (take n (fx_queues x q)) q x, ws @ take n (fx_queues x q))"
proof (induction n arbitrary: x ws)
  case (Suc n)
  show ?case
  proof (cases "fx_queues x q")
    case (Cons w v)
    have d: "distinct (fx_queues (drain [w] q x) q)" using Suc.prems by simp
    have "fx_queues (drain [w] q x) q = v" using drain_filter [OF Suc.prems, of "\<lambda>_. True" w v] Cons by simp
    moreover have "clear_location_while_queued w (set_queue q v x) = drain [w] q x"
      using drain_one [OF Suc.prems, of w] Cons by simp
    ultimately show ?thesis using Suc.IH [OF d, of "ws @ [w]"] Cons by (simp add: drain_drain)
  qed simp
qed simp

text \<open>Moving the waiters \<open>ws\<close> from the front of one queue to the end of another.\<close>

definition shift :: "nat list \<Rightarrow> nat \<Rightarrow> nat \<Rightarrow> futex_key \<Rightarrow> futex_sys \<Rightarrow> futex_sys" where
  "shift ws src dst key x = x\<lparr>fx_queues := (fx_queues x)(src := drop (length ws) (fx_queues x src), dst := fx_queues x dst @ ws),
     fx_waiters := (\<lambda>w. if w \<in> set ws then (fx_waiters x w)\<lparr>fw_location := Some (key, dst)\<rparr> else fx_waiters x w)\<rparr>"

lemma shift_Nil [simp]: "shift [] src dst key x = x"
  by (simp add: shift_def)

lemma move_waiters_shift:
  "src \<noteq> dst \<Longrightarrow> move_waiters n src dst key x m =
     (shift (take n (fx_queues x src)) src dst key x, m + length (take n (fx_queues x src)))"
proof (induction n arbitrary: x m)
  case (Suc n)
  show ?case
  proof (cases "fx_queues x src")
    case (Cons w v)
    let ?y = "set_queue dst (fx_queues x dst @ [w]) (set_location_while_queued w key dst (set_queue src v x))"
    have q: "fx_queues ?y src = v" "fx_queues ?y dst = fx_queues x dst @ [w]"
      using Suc.prems by (simp_all add: set_queue_def set_location_while_queued_def)
    have "shift (take n v) src dst key ?y = shift (w # take n v) src dst key x"
      using Suc.prems Cons by (simp add: shift_def set_queue_def set_location_while_queued_def fun_eq_iff)
    with Suc.IH [OF Suc.prems, of ?y "m + 1"] q Cons Suc.prems show ?thesis
      by (simp add: set_queue_def set_location_while_queued_def)
  qed simp
qed simp

lemma shift_inv:
  assumes inv: "fx_inv x" and ne: "src \<noteq> dst" and k: "fx_map x key = Some dst"
  shows "fx_inv (shift (take n (fx_queues x src)) src dst key x)"
proof -
  let ?ws = "take n (fx_queues x src)" and ?y = "shift (take n (fx_queues x src)) src dst key x"
  have d: "distinct (take n (fx_queues x src) @ drop n (fx_queues x src))" using fx_invD(3) [OF inv] by simp
  have l: "waiter_location ?y w = (if w \<in> set ?ws then Some (key, dst) else waiter_location x w)" for w
    by (simp add: waiter_location_def shift_def)
  have src: "w \<in> set ?ws \<Longrightarrow> \<exists>k. waiter_location x w = Some (k, src)" for w
    using fx_invD(1) [OF inv, of w src] by (auto dest: in_set_takeD)
  have q: "fx_queues ?y src = drop n (fx_queues x src)" "fx_queues ?y dst = fx_queues x dst @ ?ws"
    "r \<noteq> src \<Longrightarrow> r \<noteq> dst \<Longrightarrow> fx_queues ?y r = fx_queues x r" for r
    using ne by (auto simp: shift_def min_def)
  have s: "w \<in> set (drop n (fx_queues x src)) \<longleftrightarrow> w \<in> set (fx_queues x src) \<and> w \<notin> set ?ws" for w
    using d by (metis Un_iff append_take_drop_id disjoint_iff distinct_append set_append)
  have m: "w \<in> set (fx_queues ?y r) \<longleftrightarrow> (\<exists>k. waiter_location ?y w = Some (k, r))" for w r
    using fx_invD(1) [OF inv, of w] src [of w] ne s [of w] q by (cases "r = src"; cases "r = dst") (auto simp: l)
  have "distinct (fx_queues ?y r)" for r
  proof -
    have "set ?ws \<inter> set (fx_queues x dst) = {}" using src fx_invD(1) [OF inv, of _ dst] ne by fastforce
    then show ?thesis using fx_invD(3) [OF inv] d q by (cases "r = src"; cases "r = dst") auto
  qed
  moreover have "fx_map ?y = fx_map x" "fx_queue_count ?y = fx_queue_count x" "fx_waiter_count ?y = fx_waiter_count x"
    by (simp_all add: shift_def)
  moreover have "fx_waiter_count x \<le> w \<Longrightarrow> waiter_location ?y w = None" for w
    using fx_invD(5) [OF inv, of w] src [of w] by (auto simp: l)
  moreover have "waiter_location ?y w = Some (k', r) \<Longrightarrow> fx_map x k' = Some r" for w k' r
    using k fx_invD(2) [OF inv] by (auto simp: l split: if_splits)
  ultimately show ?thesis using m fx_invD(4,6) [OF inv] unfolding fx_inv_def by simp
qed

subsection \<open>Every operation keeps the invariant\<close>

lemma enlist_inv:
  assumes inv: "fx_inv x" and k: "fx_map x key = Some q"
  shows "fx_inv (x\<lparr>fx_waiter_count := Suc (fx_waiter_count x),
      fx_waiters := (fx_waiters x)(fx_waiter_count x := \<lparr>fw_task = t, fw_bitset = b, fw_location = Some (key, q)\<rparr>),
      fx_queues := (fx_queues x)(q := fx_queues x q @ [fx_waiter_count x])\<rparr>)" (is "fx_inv ?y")
proof -
  let ?w = "fx_waiter_count x"
  have l: "waiter_location ?y v = (if v = ?w then Some (key, q) else waiter_location x v)" for v
    by (simp add: waiter_location_def)
  have f: "waiter_location x ?w = None" using fx_invD(5) [OF inv] by simp
  have n: "?w \<notin> set (fx_queues x r)" for r using fx_invD(1) [OF inv, of ?w r] f by simp
  have "v \<in> set (fx_queues ?y r) \<longleftrightarrow> (\<exists>k. waiter_location ?y v = Some (k, r))" for v r
    using fx_invD(1) [OF inv, of v r] n f by (auto simp: l)
  moreover have "distinct (fx_queues ?y r)" for r using fx_invD(3) [OF inv, of r] n by auto
  moreover have "waiter_location ?y v = Some (k', r) \<Longrightarrow> fx_map x k' = Some r" for v k' r
    using k fx_invD(2) [OF inv] by (auto simp: l split: if_splits)
  moreover have "Suc ?w \<le> v \<Longrightarrow> waiter_location ?y v = None" for v using fx_invD(5) [OF inv, of v] by (simp add: l)
  ultimately show ?thesis using fx_invD(4,6) [OF inv] unfolding fx_inv_def by simp
qed

lemma block_on_futex_inv:
  assumes "fx_inv (fw_fx wd)" "block_current_on_futex_if t key b d c wd = (wd', r)"
  shows "fx_inv (fw_fx wd')"
proof -
  obtain x q where e: "queue_entry key (fw_fx wd) = (x, q)" by fastforce
  note x = queue_entry_spec [OF assms(1) e]
  show ?thesis
  proof (cases c)
    case True
    from enlist_inv [OF x(1,2), of t b] assms(2) e True show ?thesis
      by (auto simp: block_current_on_futex_if_def Let_def set_location_while_queued_def set_queue_def)
  next
    case False
    with assms(2) e x(1) map_remove_inv [OF x(1,2)] show ?thesis
      by (auto simp: block_current_on_futex_if_def split: if_splits)
  qed
qed

lemma wake_futex_inv:
  assumes "fx_inv (fw_fx wd)" "wake_futex_waiters hart q n b wd = Some (wd', k)"
  shows "fx_inv (fw_fx wd')"
proof -
  let ?M = "take n (filter (\<lambda>w. fw_bitset (fx_waiters (fw_fx wd) w) AND b \<noteq> 0) (fx_queues (fw_fx wd) q))"
  have "fw_fx wd' = drain ?M q (fw_fx wd)"
    using assms(2) collect_matching_drain [OF fx_invD(3) [OF assms(1)], of n b q "[]"]
    by (auto simp: wake_futex_waiters_def split: Option.bind_splits)
  moreover have "set ?M \<subseteq> set (fx_queues (fw_fx wd) q)" by (auto dest: in_set_takeD)
  ultimately show ?thesis using drain_inv [OF assms(1), of ?M q] by simp
qed

lemma requeue_inv:
  assumes inv: "fx_inv (fw_fx wd)" and r: "requeue_futex_waiters hart a b n m c wd = Some (wd', k)"
  shows "fx_inv (fw_fx wd')"
proof (cases "fx_map (fw_fx wd) a")
  case (Some src)
  obtain x dst where e: "(if m > 0 then map_prod id Some (queue_entry b (fw_fx wd)) else (fw_fx wd, None)) = (x, dst)" by fastforce
  have "fx_inv x \<and> (\<forall>d. dst = Some d \<longrightarrow> fx_map x b = Some d)"
  proof (cases "m > 0")
    case True
    obtain x' d' where qe: "queue_entry b (fw_fx wd) = (x', d')" by fastforce
    with e True have "x = x'" "dst = Some d'" by auto
    with queue_entry_spec(1,2) [OF inv qe] show ?thesis by simp
  qed (use e inv in auto)
  then have x: "fx_inv x" "dst = Some d \<Longrightarrow> fx_map x b = Some d" for d by blast+
  let ?T = "take n (fx_queues x src)"
  let ?y = "drain ?T src x"
  have p: "pop_wake n src x [] = (?y, ?T)" using pop_wake_drain [OF fx_invD(3) [OF x(1)]] by simp
  have y: "fx_inv ?y" by (rule drain_inv [OF x(1)]) (auto dest: in_set_takeD)
  have mv: "fx_inv (shift (take m (fx_queues ?y src)) src d b ?y)" if "dst = Some d" "src \<noteq> d" for d
    using shift_inv [OF y that(2), of b m] x(2) [OF that(1)] by simp
  from r Some e p y mv x(1) show ?thesis
    by (auto simp: requeue_futex_waiters_def move_waiters_shift split: if_splits option.splits Option.bind_splits)
qed (use assms in \<open>auto simp: requeue_futex_waiters_def\<close>)

lemma remove_alone:
  assumes inv: "fx_inv x"
  shows "remove_futex_waiter (\<lambda>_ y. y) i w x =
    (case waiter_location x w of
       None \<Rightarrow> Some (NotQueued x)
     | Some (k, q) \<Rightarrow> Some (Removed ((drain [w] q x)\<lparr>fx_held := (fx_held x)(q := fx_held x q + 1)\<rparr>) k q))"
proof (cases "waiter_location x w")
  case (Some p)
  obtain k q where p: "waiter_location x w = Some (k, q)" using Some by (cases p) auto
  have "fx_map x k = Some q" "w \<in> set (fx_queues x q)" "distinct (fx_queues x q)"
    using fx_invD(2) [OF inv p] fx_invD(1) [OF inv, of w q] fx_invD(3) [OF inv] p by auto
  with p drain_one [of x q w] show ?thesis
    by (subst remove_futex_waiter.simps) (auto simp: strong_count_def remove_waiter_def Let_def)
qed (subst remove_futex_waiter.simps, simp)

lemma wake_key_inv:
  "fx_inv (fw_fx wd) \<Longrightarrow> wake_key e key n b wd = Some (wd', k) \<Longrightarrow> fx_inv (fw_fx wd')"
  by (auto simp: wake_key_def retire_inv split: option.splits Option.bind_splits dest!: wake_futex_inv [rotated])

lemma wake_targets_inv:
  "futex_wake_targets e p ts m wd = Some (wd', k) \<Longrightarrow> fx_inv (fw_fx wd) \<Longrightarrow> fx_inv (fw_fx wd')"
  by (induction e p ts m wd rule: futex_wake_targets.induct)
    (auto split: if_splits option.splits Option.bind_splits dest: wake_key_inv)

lemma wait_enter_inv:
  assumes "futex_wait_enter e rc u op v ti v3 wd = (wd', r)" "fx_inv (fw_fx wd)"
  shows "fx_inv (fw_fx wd')"
  using assms block_on_futex_inv [of "wd\<lparr>fw_interrupted := (fw_interrupted wd)(fe_task e := False)\<rparr>"]
  by (auto simp: futex_wait_enter_def Let_def split: if_splits option.splits sum.splits prod.splits)

lemma wait_exit_inv:
  assumes "fx_inv (fw_fx wd)" "remove_futex_waiter (\<lambda>_ y. y) i w (fw_fx wd) = Some rm"
    "futex_wait_exit e q key d rm wd = Some (wd', r)"
  shows "fx_inv (fw_fx wd')"
proof -
  have "fx_inv (drain [w] q' (fw_fx wd))" if "waiter_location (fw_fx wd) w = Some (k, q')" for k q'
    using drain_inv [OF assms(1), of "[w]" q'] fx_invD(1) [OF assms(1), of w q'] that by auto
  with assms show ?thesis
    by (auto simp: remove_alone futex_wait_exit_def Let_def retire_inv split: option.splits prod.splits)
qed

lemma sys_futex_inv:
  assumes "sys_futex e rc u op v ti u2 v3 wd = Some (wd', r)" "fx_inv (fw_fx wd)"
  shows "fx_inv (fw_fx wd')"
proof -
  have q: "futex_requeue e u op v ti u2 v3 wd = Some (wd', k) \<Longrightarrow> fx_inv (fw_fx wd')" for k
    using assms(2) by (auto simp: futex_requeue_def Let_def retire_inv split: if_splits option.splits Option.bind_splits dest: requeue_inv [rotated])
  have w: "futex_wake e u op v v3 wd = Some (wd', k) \<Longrightarrow> fx_inv (fw_fx wd')" for k
    using assms(2) by (auto simp: futex_wake_def Let_def split: if_splits option.splits Option.bind_splits dest: wake_key_inv)
  have o: "futex_wake_op e u op v ti u2 wd = Some (wd', k) \<Longrightarrow> fx_inv (fw_fx wd')" for k
    using assms(2) by (auto simp: futex_wake_op_def simp del: futex_wake_targets.simps split: Option.bind_splits dest: wake_targets_inv)
  show ?thesis using assms q w o wait_enter_inv [of e rc u op v ti v3 wd wd' r]
    by (auto simp: sys_futex_def Let_def split: if_splits)
qed

subsection \<open>Properties\<close>

text \<open>
  Histories of the futex subsystem: system calls, the second half of a wait, and anything the
  scheduler, the timers and signals do to the rest of the world.
\<close>

inductive futex_step :: "futex_world \<Rightarrow> futex_world \<Rightarrow> bool" where
  Call: "sys_futex e rc u op v ti u2 v3 wd = Some (wd', r) \<Longrightarrow> futex_step wd wd'"
| Leave: "remove_futex_waiter (\<lambda>_ y. y) 0 w (fw_fx wd) = Some rm \<Longrightarrow>
    futex_wait_exit e q key d rm wd = Some (wd', r) \<Longrightarrow> futex_step wd wd'"
| Other: "fw_fx wd' = fw_fx wd \<Longrightarrow> futex_step wd wd'"

lemma futex_reach_inv: "futex_step\<^sup>*\<^sup>* wd wd' \<Longrightarrow> fx_inv (fw_fx wd) \<Longrightarrow> fx_inv (fw_fx wd')"
proof (induction rule: rtranclp_induct)
  case (step y z)
  then have "fx_inv (fw_fx y)" by blast
  with step(2) show ?case by cases (auto dest: sys_futex_inv wait_exit_inv)
qed

text \<open>
  C8. No futex waiter is ever lost: after any history of waits, wakes, requeues, timeouts and
  retirements of queues, a waiter is in a queue exactly when its location says so, exactly once and
  in no other queue, and the global map leads from its key to that queue, so that a wake-up on the key
  will find it.
\<close>

theorem futex_waiters_findable:
  assumes "futex_step\<^sup>*\<^sup>* wd wd'" "fw_fx wd = fx_new"
  shows "\<forall>w q. count (mset (fx_queues (fw_fx wd') q)) w \<le> 1
    \<and> (w \<in> set (fx_queues (fw_fx wd') q) \<longleftrightarrow>
        (\<exists>key. waiter_location (fw_fx wd') w = Some (key, q) \<and> fx_map (fw_fx wd') key = Some q))"
proof -
  have inv: "fx_inv (fw_fx wd')" using futex_reach_inv [OF assms(1)] assms(2) fx_inv_new by simp
  have "count (mset (fx_queues (fw_fx wd') q)) w \<le> 1" for q w
    using fx_invD(3) [OF inv, of q] by (simp add: distinct_count_atmost_1)
  then show ?thesis using fx_invD(1,2) [OF inv] by blast
qed

text \<open>
  C9. Waking is exact: \<open>wake_futex_waiters\<close> takes the first \<open>count\<close> waiters whose bit set meets the
  given one, in queue order, reports their number, leaves the others in order, and signals
  every task it took that is asleep.
\<close>

theorem futex_wake_exact:
  assumes "fx_inv (fw_fx wd)" "sys_inv (fw_sched wd)" "0 < length (sys_rqs (fw_sched wd))"
    and "size (sys_queued (fw_sched wd)) + length (fx_queues (fw_fx wd) q) < 2 ^ 64"
    and "ws = take n (filter (\<lambda>w. fw_bitset (fx_waiters (fw_fx wd) w) AND bitset \<noteq> 0) (fx_queues (fw_fx wd) q))"
  shows "\<exists>wd'. wake_futex_waiters hart q n bitset wd = Some (wd', length ws)
    \<and> fx_queues (fw_fx wd') q = filter (\<lambda>w. w \<notin> set ws) (fx_queues (fw_fx wd) q)
    \<and> (\<forall>w \<in> set ws. waiter_location (fw_fx wd') w = None
         \<and> (sleeping (fw_sched wd) (fw_task (fx_waiters (fw_fx wd) w)) \<longrightarrow>
              signalled (fw_sched wd') (fw_task (fx_waiters (fw_fx wd) w))))"
proof -
  let ?ts = "map (\<lambda>w. fw_task (fx_waiters (fw_fx wd) w)) ws"
  have "length ws \<le> length (fx_queues (fw_fx wd) q)"
    unfolding assms(5) by (simp add: min.coboundedI1)
  then have "roomy (fw_sched wd) (length ?ts)" using assms(2-4) by (simp add: roomy_def)
  from wake_each_spec [OF this, of hart 0] obtain s k where
    s: "wake_each hart (fw_sched wd) ?ts 0 = Some (s, k)" "wakes (fw_sched wd) ?ts s" by auto
  have "collect_matching n bitset q (fw_fx wd) [] = (drain ws q (fw_fx wd), ws)"
    unfolding assms(5) using collect_matching_drain [OF fx_invD(3) [OF assms(1)]] by simp
  with s(1) have "wake_futex_waiters hart q n bitset wd = Some (wd\<lparr>fw_sched := s, fw_fx := drain ws q (fw_fx wd)\<rparr>, length ws)"
    by (simp add: wake_futex_waiters_def)
  moreover have "waiter_location (drain ws q (fw_fx wd)) w = None" if "w \<in> set ws" for w
    using that by (simp add: drain_def waiter_location_def)
  ultimately show ?thesis using s(2) by (auto simp: wakes_def)
qed


text \<open>
  Removing a waiter that nobody else touches never panics: it comes off exactly the queue its
  location names, or is reported as already taken, and the search ends at the first attempt.
\<close>

theorem futex_remove_alone:
  assumes "fx_inv x"
  shows "\<exists>r. remove_futex_waiter (\<lambda>_ y. y) i w x = Some r \<and> r \<noteq> Panicked
    \<and> (\<forall>key q y. r = Removed y key q \<longrightarrow> waiter_location x w = Some (key, q) \<and> fx_queues y q = remove1 w (fx_queues x q)
         \<and> waiter_location y w = None)
    \<and> (waiter_location x w = None \<longrightarrow> r = NotQueued x)"
proof (cases "waiter_location x w")
  case (Some p)
  then show ?thesis using remove_alone [OF assms, of i w] fx_invD(3) [OF assms]
    by (cases p) (auto simp: distinct_remove1_filter waiter_location_def drain_def)
qed (use remove_alone [OF assms, of i w] in auto)

definition demo_world :: futex_world where
  "demo_world = \<lparr>fw_sched = busy_new, fw_fx = fx_new, fw_sleep = sq_new, fw_interrupted = (\<lambda>_. False)\<rparr>"

text \<open>
  C39. The check in \<open>remove_futex_waiter\<close> is a race.  While a task, woken by a signal or a timeout,
  removes itself from its futex queue, another processor requeues it to a second futex before the
  queue is searched and back again before the location is re-read.  The location is then the
  one first seen and the assertion fails: the kernel panics on a legal history.
\<close>

theorem futex_remove_race_panics:
  "\<exists>wd wd1 wd2.
     block_current_on_futex_if 7 (Private 1 16) (- 1) None True demo_world = (wd, Some (0, 0))
     \<and> requeue_futex_waiters 0 (Private 1 16) (Private 1 32) 0 1 True wd = Some (wd1, Some 1)
     \<and> requeue_futex_waiters 0 (Private 1 32) (Private 1 16) 0 1 True wd1 = Some (wd2, Some 1)
     \<and> remove_futex_waiter (\<lambda>i x. if i = 1 then fw_fx wd1 else if i = 2 then fw_fx wd2 else x) 0 0 (fw_fx wd)
         = Some Panicked"
  by (subst remove_futex_waiter.simps)
    (simp add: block_current_on_futex_if_def demo_world_def fx_new_def queue_entry_def Let_def set_queue_def
      set_location_while_queued_def requeue_futex_waiters_def waiter_location_def strong_count_def
      remove_waiter_def)

subsection \<open>Witnesses\<close>

definition demo_waiting :: futex_world where
  "demo_waiting = fst (block_current_on_futex_if 7 (Private 1 16) 5 None True demo_world)"

lemma demo_waiting_fx: "fx_inv (fw_fx demo_waiting)" "fx_queues (fw_fx demo_waiting) 0 = [0]"
  "fx_map (fw_fx demo_waiting) (Private 1 16) = Some 0" "waiter_location (fw_fx demo_waiting) 0 = Some (Private 1 16, 0)"
  "fw_bitset (fx_waiters (fw_fx demo_waiting) 0) = 5" "fw_task (fx_waiters (fw_fx demo_waiting) 0) = 7"
proof -
  have i: "fx_inv (fw_fx demo_world)" by (simp add: demo_world_def fx_inv_new)
  obtain wd r where b: "block_current_on_futex_if 7 (Private 1 16) 5 None True demo_world = (wd, r)" by fastforce
  show "fx_inv (fw_fx demo_waiting)" using block_on_futex_inv [OF i b] by (simp add: demo_waiting_def b)
qed (simp_all add: demo_waiting_def block_current_on_futex_if_def demo_world_def fx_new_def queue_entry_def Let_def
    set_queue_def set_location_while_queued_def waiter_location_def)

lemma demo_waiting_sched: "roomy (fw_sched demo_waiting) 2" "sleeping (fw_sched demo_waiting) 7"
proof -
  have e: "fw_sched demo_waiting = block_saving 7 busy_new"
    by (simp add: demo_waiting_def block_current_on_futex_if_def demo_world_def fx_new_def queue_entry_def Let_def)
  show "roomy (fw_sched demo_waiting) 2" unfolding e by (rule block_saving_roomy) (simp_all add: roomy_def)
  show "sleeping (fw_sched demo_waiting) 7" by (simp add: e)
qed

definition demo_env :: futex_env where
  "demo_env = \<lparr>fe_task = 7, fe_hart = 0, fe_word = (\<lambda>_. Some 3), fe_timespec = (\<lambda>_. None), fe_key = (\<lambda>a p. Some (Private 1 a)),
     fe_time_us = 0, fe_wallclock_us = 0, fe_pending = False\<rparr>"

lemma demo_wait_call:
  "\<exists>wd. sys_futex demo_env (Some 3) 16 0 3 0 0 0 demo_world = Some (wd, Waiting 0 0 (Private 1 16) None)
     \<and> fx_queues (fw_fx wd) 0 = [0] \<and> waiter_location (fw_fx wd) 0 = Some (Private 1 16, 0)"
  by (simp add: sys_futex_def futex_wait_enter_def demo_env_def read_deadline_def FUTEX_WAIT_def FUTEX_WAIT_BITSET_def
      block_current_on_futex_if_def demo_world_def fx_new_def queue_entry_def Let_def
      set_queue_def set_location_while_queued_def waiter_location_def)

theorem futex_waiters_findable_witness:
  "\<exists>wd. futex_step\<^sup>*\<^sup>* demo_world wd \<and> waiter_location (fw_fx wd) 0 = Some (Private 1 16, 0)
     \<and> fx_map (fw_fx wd) (Private 1 16) = Some 0"
proof -
  obtain wd where w: "sys_futex demo_env (Some 3) 16 0 3 0 0 0 demo_world = Some (wd, Waiting 0 0 (Private 1 16) None)"
    "fx_queues (fw_fx wd) 0 = [0]" "waiter_location (fw_fx wd) 0 = Some (Private 1 16, 0)" using demo_wait_call by blast
  have r: "futex_step\<^sup>*\<^sup>* demo_world wd" using Call [OF w(1)] by blast
  have n: "fw_fx demo_world = fx_new" by (simp add: demo_world_def)
  show ?thesis using futex_waiters_findable [OF r n, rule_format, of 0 0] r w(2,3) by auto
qed

theorem futex_wake_exact_witness:
  "\<exists>wd'. wake_futex_waiters 0 0 9 4 demo_waiting = Some (wd', 1) \<and> fx_queues (fw_fx wd') 0 = [] \<and> signalled (fw_sched wd') 7"
proof -
  have e: "[0] = take 9 (filter (\<lambda>w. fw_bitset (fx_waiters (fw_fx demo_waiting) w) AND 4 \<noteq> 0) (fx_queues (fw_fx demo_waiting) 0))"
    by (simp add: demo_waiting_fx)
  have r: "sys_inv (fw_sched demo_waiting)" "0 < length (sys_rqs (fw_sched demo_waiting))"
    "size (sys_queued (fw_sched demo_waiting)) + length (fx_queues (fw_fx demo_waiting) 0) < 2 ^ 64"
    using demo_waiting_sched(1) by (auto simp: roomy_def demo_waiting_fx)
  from futex_wake_exact [OF demo_waiting_fx(1) r e, of 0] demo_waiting_sched(2) show ?thesis
    by (auto simp: demo_waiting_fx)
qed


theorem futex_remove_alone_witness:
  "\<exists>y. remove_futex_waiter (\<lambda>_ y. y) 0 0 (fw_fx demo_waiting) = Some y \<and> y \<noteq> Panicked"
  using futex_remove_alone [OF demo_waiting_fx(1), of 0 0] by auto

end
