(* ===== verification/Pipe_Ring.thy ===== *)
theory Pipe_Ring
  imports Kernel_Prelude
begin

text \<open>
  The ring buffer of a pipe (\<open>fs/pipe.rs\<close>): sixteen page frames, two positions and a status that
  tells full from empty.  Its contract is the locale \<open>byte_fifo\<close>, a queue of bounded length;
  positions are natural numbers below the ring size.
\<close>

subsection \<open>Definitions\<close>

definition PIPE_BUF_PAGE_SIZE :: nat where "PIPE_BUF_PAGE_SIZE = 4096"
definition PIPE_BUF_PAGES :: nat where "PIPE_BUF_PAGES = 16"
definition RING_BUFFER_SIZE :: nat where "RING_BUFFER_SIZE = PIPE_BUF_PAGE_SIZE * PIPE_BUF_PAGES"

datatype ring_status = Full | Empty | Normal

record ring_buffer =
  rb_frames :: "u8 list list"
  rb_head :: nat
  rb_tail :: nat
  rb_status :: ring_status

definition ring_new :: ring_buffer where
  "ring_new = \<lparr>rb_frames = replicate 16 (replicate PIPE_BUF_PAGE_SIZE 0), rb_head = 0, rb_tail = 0, rb_status = Empty\<rparr>"

text \<open>\<open>get_byte_mut\<close>: reading and writing the byte at a position; an index out of range panics.\<close>

definition get_byte :: "ring_buffer \<Rightarrow> nat \<Rightarrow> u8 option" where
  "get_byte r index =
     (let frame_idx = index div PIPE_BUF_PAGE_SIZE; offset = index mod PIPE_BUF_PAGE_SIZE in
      if frame_idx < length (rb_frames r) \<and> offset < length (rb_frames r ! frame_idx)
      then Some (rb_frames r ! frame_idx ! offset) else None)"

definition set_byte :: "ring_buffer \<Rightarrow> nat \<Rightarrow> u8 \<Rightarrow> ring_buffer option" where
  "set_byte r index b =
     (let frame_idx = index div PIPE_BUF_PAGE_SIZE; offset = index mod PIPE_BUF_PAGE_SIZE in
      if frame_idx < length (rb_frames r) \<and> offset < length (rb_frames r ! frame_idx)
      then Some (r\<lparr>rb_frames := (rb_frames r)[frame_idx := (rb_frames r ! frame_idx)[offset := b]]\<rparr>) else None)"

definition write_byte :: "ring_buffer \<Rightarrow> u8 \<Rightarrow> ring_buffer option" where
  "write_byte r b =
     (let r = r\<lparr>rb_status := Normal\<rparr> in
      do { r \<leftarrow> set_byte r (rb_tail r) b;
           let r = r\<lparr>rb_tail := (rb_tail r + 1) mod RING_BUFFER_SIZE\<rparr>;
           Some (if rb_tail r = rb_head r then r\<lparr>rb_status := Full\<rparr> else r) })"

definition read_byte :: "ring_buffer \<Rightarrow> (ring_buffer \<times> u8) option" where
  "read_byte r =
     (let r = r\<lparr>rb_status := Normal\<rparr> in
      do { c \<leftarrow> get_byte r (rb_head r);
           let r = r\<lparr>rb_head := (rb_head r + 1) mod RING_BUFFER_SIZE\<rparr>;
           Some (if rb_head r = rb_tail r then r\<lparr>rb_status := Empty\<rparr> else r, c) })"

definition available_read :: "ring_buffer \<Rightarrow> nat" where
  "available_read r =
     (if rb_status r = Empty then 0
      else if rb_tail r > rb_head r then rb_tail r - rb_head r
      else rb_tail r + RING_BUFFER_SIZE - rb_head r)"

definition available_write :: "ring_buffer \<Rightarrow> nat" where
  "available_write r = (if rb_status r = Full then 0 else RING_BUFFER_SIZE - available_read r)"

subsection \<open>The contract\<close>

locale byte_fifo =
  fixes fifo_inv :: "'s \<Rightarrow> bool" and fifo_abs :: "'s \<Rightarrow> u8 list" and cap :: nat
    and put :: "'s \<Rightarrow> u8 \<Rightarrow> 's option" and get :: "'s \<Rightarrow> ('s \<times> u8) option"
  assumes put_ok: "fifo_inv s \<Longrightarrow> length (fifo_abs s) < cap \<Longrightarrow>
      \<exists>s'. put s b = Some s' \<and> fifo_inv s' \<and> fifo_abs s' = fifo_abs s @ [b]"
    and get_ok: "fifo_inv s \<Longrightarrow> fifo_abs s = b # bs \<Longrightarrow> \<exists>s'. get s = Some (s', b) \<and> fifo_inv s' \<and> fifo_abs s' = bs"
begin

text \<open>Moving many bytes, as the loops of the two ends do.\<close>

fun puts :: "'s \<Rightarrow> u8 list \<Rightarrow> 's option" where
  "puts s [] = Some s"
| "puts s (b # bs) = do { s' \<leftarrow> put s b; puts s' bs }"

fun gets :: "nat \<Rightarrow> 's \<Rightarrow> ('s \<times> u8 list) option" where
  "gets 0 s = Some (s, [])"
| "gets (Suc n) s = do { (s', b) \<leftarrow> get s; (s'', bs) \<leftarrow> gets n s'; Some (s'', b # bs) }"

lemma puts_ok:
  "fifo_inv s \<Longrightarrow> length (fifo_abs s) + length bs \<le> cap \<Longrightarrow>
     \<exists>s'. puts s bs = Some s' \<and> fifo_inv s' \<and> fifo_abs s' = fifo_abs s @ bs"
proof (induction bs arbitrary: s)
  case (Cons b bs)
  from put_ok [OF Cons.prems(1), of b] Cons.prems(2) obtain s1 where
    "put s b = Some s1" "fifo_inv s1" "fifo_abs s1 = fifo_abs s @ [b]" by auto
  with Cons.IH [of s1] Cons.prems(2) show ?case by auto
qed simp

lemma gets_ok:
  "fifo_inv s \<Longrightarrow> n \<le> length (fifo_abs s) \<Longrightarrow>
     \<exists>s'. gets n s = Some (s', take n (fifo_abs s)) \<and> fifo_inv s' \<and> fifo_abs s' = drop n (fifo_abs s)"
proof (induction n arbitrary: s)
  case (Suc n)
  then obtain b bs where e: "fifo_abs s = b # bs" by (cases "fifo_abs s") auto
  from get_ok [OF Suc.prems(1) e] obtain s1 where g: "get s = Some (s1, b)" "fifo_inv s1" "fifo_abs s1 = bs" by auto
  from Suc.IH [OF g(2)] Suc.prems(2) e g show ?case by auto
qed simp

end

subsection \<open>The ring meets it\<close>

definition ring_at :: "ring_buffer \<Rightarrow> nat \<Rightarrow> u8" where
  "ring_at r i = rb_frames r ! (i div PIPE_BUF_PAGE_SIZE) ! (i mod PIPE_BUF_PAGE_SIZE)"

definition ring_abs :: "ring_buffer \<Rightarrow> u8 list" where
  "ring_abs r = map (\<lambda>k. ring_at r ((rb_head r + k) mod RING_BUFFER_SIZE)) [0..<available_read r]"

definition ring_inv :: "ring_buffer \<Rightarrow> bool" where
  "ring_inv r \<longleftrightarrow> length (rb_frames r) = PIPE_BUF_PAGES \<and> (\<forall>f \<in> set (rb_frames r). length f = PIPE_BUF_PAGE_SIZE)
     \<and> rb_head r < RING_BUFFER_SIZE \<and> rb_tail r < RING_BUFFER_SIZE
     \<and> (rb_status r \<in> {Full, Empty} \<longleftrightarrow> rb_head r = rb_tail r)"

lemma sizes [simp]: "0 < RING_BUFFER_SIZE" "0 < PIPE_BUF_PAGE_SIZE" "0 < PIPE_BUF_PAGES"
  by (simp_all add: RING_BUFFER_SIZE_def PIPE_BUF_PAGE_SIZE_def PIPE_BUF_PAGES_def)

lemma ring_inv_new: "ring_inv ring_new" "ring_abs ring_new = []"
  by (simp_all add: ring_inv_def ring_new_def ring_abs_def available_read_def PIPE_BUF_PAGES_def)

lemma ring_index:
  assumes "ring_inv r" "i < RING_BUFFER_SIZE"
  shows "i div PIPE_BUF_PAGE_SIZE < length (rb_frames r)"
    "i mod PIPE_BUF_PAGE_SIZE < length (rb_frames r ! (i div PIPE_BUF_PAGE_SIZE))"
proof -
  have "i div PIPE_BUF_PAGE_SIZE < PIPE_BUF_PAGES"
    using assms(2) by (simp add: RING_BUFFER_SIZE_def less_mult_imp_div_less mult.commute)
  then show a: "i div PIPE_BUF_PAGE_SIZE < length (rb_frames r)" using assms(1) by (simp add: ring_inv_def)
  with assms(1) have "length (rb_frames r ! (i div PIPE_BUF_PAGE_SIZE)) = PIPE_BUF_PAGE_SIZE" by (simp add: ring_inv_def)
  then show "i mod PIPE_BUF_PAGE_SIZE < length (rb_frames r ! (i div PIPE_BUF_PAGE_SIZE))" by simp
qed

lemma available_read_mod:
  assumes "ring_inv r"
  shows "available_read r \<le> RING_BUFFER_SIZE" "(rb_head r + available_read r) mod RING_BUFFER_SIZE = rb_tail r"
    "available_read r = RING_BUFFER_SIZE \<longleftrightarrow> rb_status r = Full" "available_read r = 0 \<longleftrightarrow> rb_status r = Empty"
    "available_read r + available_write r = RING_BUFFER_SIZE"
  using assms by (cases "rb_status r"; auto simp: ring_inv_def available_read_def available_write_def)+

lemma ring_at_set:
  assumes "ring_inv r" "i < RING_BUFFER_SIZE"
  shows "\<exists>r'. set_byte r i b = Some r' \<and> rb_head r' = rb_head r \<and> rb_tail r' = rb_tail r \<and> rb_status r' = rb_status r
    \<and> length (rb_frames r') = length (rb_frames r) \<and> map length (rb_frames r') = map length (rb_frames r)
    \<and> (\<forall>j < RING_BUFFER_SIZE. ring_at r' j = (if j = i then b else ring_at r j))"
proof -
  let ?f = "i div PIPE_BUF_PAGE_SIZE" and ?o = "i mod PIPE_BUF_PAGE_SIZE"
  let ?r = "r\<lparr>rb_frames := (rb_frames r)[?f := (rb_frames r ! ?f)[?o := b]]\<rparr>"
  note ix = ring_index [OF assms]
  have "set_byte r i b = Some ?r" using ix by (simp add: set_byte_def Let_def)
  moreover have "map length (rb_frames ?r) = map length (rb_frames r)"
    using ix(1) by (simp add: map_update list_update_same_conv)
  moreover have "ring_at ?r j = (if j = i then b else ring_at r j)" for j
  proof (cases "j div PIPE_BUF_PAGE_SIZE = ?f")
    case True
    then have "j mod PIPE_BUF_PAGE_SIZE = ?o \<longleftrightarrow> j = i" by (metis div_mod_decomp)
    with True ix show ?thesis by (auto simp: ring_at_def nth_list_update)
  qed (use ix in \<open>auto simp: ring_at_def\<close>)
  ultimately show ?thesis by (intro exI [of _ ?r]) simp
qed

lemma frames_inv:
  "map length xs = map length ys \<Longrightarrow> (\<forall>f \<in> set xs. length f = n) \<longleftrightarrow> (\<forall>f \<in> set ys. length f = n)"
  by (metis (mono_tags, lifting) imageE imageI list.set_map)

lemma mod_add_distinct:
  fixes h :: nat
  assumes "k < n" "n < S" "(h + k) mod S = (h + n) mod S"
  shows False
proof -
  have "S dvd (h + n) - (h + k)" using assms(1,3) by (metis add_le_cancel_left less_imp_le mod_eq_dvd_iff_nat)
  then have "S dvd n - k" by simp
  with assms(1,2) show False by (auto dest: dvd_imp_le)
qed

lemma ring_abs_length [simp]: "length (ring_abs r) = available_read r"
  by (simp add: ring_abs_def)

lemma write_byte_spec:
  assumes inv: "ring_inv r" and room: "available_read r < RING_BUFFER_SIZE"
  shows "\<exists>r'. write_byte r b = Some r' \<and> ring_inv r' \<and> ring_abs r' = ring_abs r @ [b]"
proof -
  let ?S = RING_BUFFER_SIZE and ?n = "available_read r"
  let ?r0 = "r\<lparr>rb_status := Normal\<rparr>"
  have ht: "rb_head r < ?S" "rb_tail r < ?S" using inv by (simp_all add: ring_inv_def)
  have nf: "rb_status r \<noteq> Full" using room available_read_mod(3) [OF inv] by auto
  have i0: "length (rb_frames r) = PIPE_BUF_PAGES" "\<forall>f \<in> set (rb_frames r). length f = PIPE_BUF_PAGE_SIZE"
    using inv by (simp_all add: ring_inv_def)
  obtain r1 where r1: "set_byte r (rb_tail r) b = Some r1" "rb_head r1 = rb_head r" "rb_tail r1 = rb_tail r"
    "length (rb_frames r1) = length (rb_frames r)" "map length (rb_frames r1) = map length (rb_frames r)"
    "\<forall>j < ?S. ring_at r1 j = (if j = rb_tail r then b else ring_at r j)" using ring_at_set [OF inv ht(2), of b] by blast
  let ?t = "(rb_tail r + 1) mod ?S"
  let ?r' = "r1\<lparr>rb_status := (if ?t = rb_head r then Full else Normal), rb_tail := ?t\<rparr>"
  have e: "set_byte ?r0 (rb_tail r) b = Some (r1\<lparr>rb_status := Normal\<rparr>)"
    using r1(1) by (auto simp: set_byte_def Let_def split: if_splits)
  have w: "write_byte r b = Some ?r'" using e r1(2,3) by (simp add: write_byte_def Let_def)
  have "ring_inv ?r'" using i0 r1(2,4) ht frames_inv [OF r1(5)] by (simp add: ring_inv_def)
  moreover have av: "available_read ?r' = ?n + 1"
    using ht nf inv r1(2) by (cases "rb_status r") (auto simp: available_read_def mod_Suc ring_inv_def)
  moreover have "ring_abs ?r' = ring_abs r @ [b]"
  proof -
    have at: "ring_at ?r' j = ring_at r1 j" for j by (simp add: ring_at_def)
    have l: "(rb_head r + ?n) mod ?S = rb_tail r" using available_read_mod(2) [OF inv] .
    have "ring_at ?r' ((rb_head r + k) mod ?S) = ring_at r ((rb_head r + k) mod ?S)" if "k < ?n" for k
      using mod_add_distinct [OF that room, of "rb_head r"] r1(6) at l by auto
    moreover have "ring_at ?r' (rb_tail r) = b" using r1(6) ht(2) at by auto
    ultimately show ?thesis using av l r1(2) by (simp add: ring_abs_def)
  qed
  ultimately show ?thesis using w by blast
qed

lemma read_byte_spec:
  assumes inv: "ring_inv r" and e: "ring_abs r = b # bs"
  shows "\<exists>r'. read_byte r = Some (r', b) \<and> ring_inv r' \<and> ring_abs r' = bs"
proof -
  let ?S = RING_BUFFER_SIZE and ?n = "available_read r"
  have ht: "rb_head r < ?S" "rb_tail r < ?S" using inv by (simp_all add: ring_inv_def)
  have n: "?n = Suc (length bs)" using e ring_abs_length [of r] by simp
  then have ne: "rb_status r \<noteq> Empty" using available_read_mod(4) [OF inv] by simp
  let ?h = "(rb_head r + 1) mod ?S"
  let ?r' = "r\<lparr>rb_status := (if ?h = rb_tail r then Empty else Normal), rb_head := ?h\<rparr>"
  have c: "ring_at r (rb_head r) = b" "map (\<lambda>k. ring_at r ((rb_head r + Suc k) mod ?S)) [0..<length bs] = bs"
    using e ht(1) unfolding ring_abs_def n by (simp_all add: upt_conv_Cons map_Suc_upt [symmetric] comp_def del: upt_Suc)
  have "get_byte (r\<lparr>rb_status := Normal\<rparr>) (rb_head r) = Some b"
    using ring_index [OF inv ht(1)] c(1) by (simp add: get_byte_def ring_at_def Let_def)
  then have "read_byte r = Some (?r', b)" by (simp add: read_byte_def Let_def)
  moreover have "ring_inv ?r'" using inv by (simp add: ring_inv_def)
  moreover have "available_read ?r' = ?n - 1"
    using ht ne inv by (cases "rb_status r") (auto simp: available_read_def mod_Suc ring_inv_def)
  then have av: "available_read ?r' = length bs" using n by simp
  moreover have "ring_abs ?r' = bs"
  proof -
    have "(?h + k) mod ?S = (rb_head r + Suc k) mod ?S" for k by (simp add: mod_add_left_eq)
    then show ?thesis using c(2) av by (simp add: ring_abs_def ring_at_def)
  qed
  ultimately show ?thesis by blast
qed

interpretation ring: byte_fifo ring_inv ring_abs RING_BUFFER_SIZE write_byte read_byte
  using write_byte_spec read_byte_spec by unfold_locales auto

end
