(* ===== verification/Pipe.thy ===== *)
theory Pipe
  imports Pipe_Ring Wait_Queue Errno
begin

text \<open>
  The two ends of a pipe (\<open>fs/pipe.rs\<close>).  A call is a sequence of turns, each one critical section of
  the ring's lock; between turns other threads run.  An end is closed when its last \<open>Arc\<close> is
  gone; that can happen while a writer is copying, so the writer's tests of it are the argument
  \<open>closed\<close>, indexed by the test.  User buffers are byte lists.
\<close>

subsection \<open>State\<close>

record pipe =
  p_ring :: ring_buffer
  p_write_open :: bool
  p_read_open :: bool
  p_readers :: wait_queue
  p_writers :: wait_queue
  p_read_poll :: wait_queue
  p_write_poll :: wait_queue
  p_sched :: sched_sys
  p_sigpipe :: "tid \<Rightarrow> bool"

definition make_pipe :: "sched_sys \<Rightarrow> (tid \<Rightarrow> bool) \<Rightarrow> pipe" where
  "make_pipe s sig = \<lparr>p_ring = ring_new, p_write_open = True, p_read_open = True, p_readers = wq_new, p_writers = wq_new,
     p_read_poll = wq_new, p_write_poll = wq_new, p_sched = s, p_sigpipe = sig\<rparr>"

definition wake_writers :: "nat \<Rightarrow> pipe \<Rightarrow> pipe option" where
  "wake_writers hart p =
     do { (s, q, _) \<leftarrow> wake_up_one hart (p_sched p) (p_writers p);
          (s, q', _) \<leftarrow> wake_up_all_mp hart s (p_write_poll p);
          Some (p\<lparr>p_sched := s, p_writers := q, p_write_poll := q'\<rparr>) }"

definition wake_readers :: "nat \<Rightarrow> pipe \<Rightarrow> pipe option" where
  "wake_readers hart p =
     do { (s, q, _) \<leftarrow> wake_up_one hart (p_sched p) (p_readers p);
          (s, q', _) \<leftarrow> wake_up_all_mp hart s (p_read_poll p);
          Some (p\<lparr>p_sched := s, p_readers := q, p_read_poll := q'\<rparr>) }"

text \<open>\<open>broken_pipe_error\<close> of the write end; \<open>unblocked\<close> says that the task does not mask SIGPIPE.\<close>

definition broken_pipe_error :: "nat \<Rightarrow> tid \<Rightarrow> bool \<Rightarrow> bool \<Rightarrow> pipe \<Rightarrow> (pipe \<times> errno option) option" where
  "broken_pipe_error hart t unblocked closed p =
     (if \<not> closed then Some (p, None)
      else
        (let p = p\<lparr>p_sigpipe := (p_sigpipe p)(t := True)\<rparr> in
         if unblocked then do { (s, _) \<leftarrow> wake_up_task hart (p_sched p) t; Some (p\<lparr>p_sched := s\<rparr>, Some EPIPE) }
         else Some (p, Some EPIPE)))"

subsection \<open>Reading\<close>

fun read_bytes :: "nat \<Rightarrow> nat \<Rightarrow> ring_buffer \<Rightarrow> nat \<Rightarrow> (ring_buffer \<times> nat \<times> u8 list) option" where
  "read_bytes 0 want r already = Some (r, already, [])"
| "read_bytes (Suc k) want r already =
     (if already \<ge> want then Some (r, already, [])
      else do { (r, c) \<leftarrow> read_byte r;
                if already + 1 = want then Some (r, already + 1, [c])
                else do { (r, n, cs) \<leftarrow> read_bytes k want r (already + 1); Some (r, n, c # cs) } })"

datatype read_next = ReadDone "errno + nat" | ReadBlock | ReadAgain

definition read_turn :: "nat \<Rightarrow> nat \<Rightarrow> nat \<Rightarrow> pipe \<Rightarrow> (pipe \<times> u8 list \<times> read_next) option" where
  "read_turn hart want already p =
     (let loop_read = available_read (p_ring p) in
      if loop_read = 0 then Some (p, [], if \<not> p_write_open p then ReadDone (Inr already) else ReadBlock)
      else do { (r, n, cs) \<leftarrow> read_bytes loop_read want (p_ring p) already;
                p \<leftarrow> wake_writers hart (p\<lparr>p_ring := r\<rparr>);
                Some (p, cs, ReadDone (Inr n)) })"

definition read_block :: "tid \<Rightarrow> pipe \<Rightarrow> pipe \<times> bool" where
  "read_block t p =
     (let (s, q, blocked) = block_current_and_run_next_if t (available_read (p_ring p) = 0 \<and> p_write_open p) (p_readers p) (p_sched p) in
      (p\<lparr>p_sched := s, p_readers := q\<rparr>, blocked))"

definition read_resume :: "tid \<Rightarrow> bool \<Rightarrow> bool \<Rightarrow> nat \<Rightarrow> pipe \<Rightarrow> pipe \<times> read_next" where
  "read_resume t pending restart already p =
     (let p = p\<lparr>p_readers := wq_remove_by_tid (p_readers p) t\<rparr> in
      (p, if available_read (p_ring p) > 0 then ReadAgain
          else if \<not> p_write_open p then ReadDone (Inr already)
          else if pending then
            (if already = 0 then ReadDone (Inl (if restart then ERESTART else EINTR)) else ReadDone (Inr already))
          else ReadAgain))"

subsection \<open>Writing\<close>

datatype write_stop = WroteAll | BufferEnd | PeerClosed | RingFull

fun write_bytes ::
  "nat \<Rightarrow> nat \<Rightarrow> (nat \<Rightarrow> bool) \<Rightarrow> nat \<Rightarrow> u8 list \<Rightarrow> ring_buffer \<Rightarrow> nat \<Rightarrow> (ring_buffer \<times> nat \<times> u8 list \<times> write_stop) option" where
  "write_bytes 0 want closed i bs r already = Some (r, already, bs, RingFull)"
| "write_bytes (Suc k) want closed i [] r already = Some (r, already, [], BufferEnd)"
| "write_bytes (Suc k) want closed i (b # bs) r already =
     (if closed i then Some (r, already, b # bs, PeerClosed)
      else do { r \<leftarrow> write_byte r b;
                if already + 1 = want then Some (r, already + 1, bs, WroteAll)
                else write_bytes k want closed (i + 1) bs r (already + 1) })"

datatype write_next = WriteDone nat | WriteBlock | WriteAgain

definition write_turn ::
  "nat \<Rightarrow> tid \<Rightarrow> bool \<Rightarrow> bool \<Rightarrow> (nat \<Rightarrow> bool) \<Rightarrow> nat \<Rightarrow> nat \<Rightarrow> u8 list \<Rightarrow> pipe \<Rightarrow> (pipe \<times> nat \<times> u8 list \<times> write_next) option" where
  "write_turn hart t unblocked pending closed want already bs p =
     (let loop_write = available_write (p_ring p) in
      if loop_write = 0 then
        (if closed 0 then
           do { (p, _) \<leftarrow> broken_pipe_error hart t unblocked (closed 1) p; Some (p, already, bs, WriteDone already) }
         else
           do { p \<leftarrow> (if already > 0 then wake_readers hart p else Some p);
                Some (p, already, bs, if pending then WriteDone already else WriteBlock) })
      else
        do { (r, n, bs, stop) \<leftarrow> write_bytes loop_write want closed 0 bs (p_ring p) already;
             let p = p\<lparr>p_ring := r\<rparr>;
             case stop of
               PeerClosed \<Rightarrow> do { (p, _) \<leftarrow> broken_pipe_error hart t unblocked (closed (n - already + 1)) p; Some (p, n, bs, WriteDone n) }
             | WroteAll \<Rightarrow> do { p \<leftarrow> wake_readers hart p; Some (p, n, bs, WriteDone want) }
             | BufferEnd \<Rightarrow> do { p \<leftarrow> wake_readers hart p; Some (p, n, bs, WriteDone n) }
             | RingFull \<Rightarrow> Some (p, n, bs, WriteAgain) })"

definition write_block :: "tid \<Rightarrow> pipe \<Rightarrow> pipe \<times> bool" where
  "write_block t p =
     (let (s, q, blocked) = block_current_and_run_next_if t (available_write (p_ring p) = 0 \<and> p_read_open p) (p_writers p) (p_sched p) in
      (p\<lparr>p_sched := s, p_writers := q\<rparr>, blocked))"

definition write_resume :: "tid \<Rightarrow> pipe \<Rightarrow> pipe" where
  "write_resume t p = p\<lparr>p_writers := wq_remove_by_tid (p_writers p) t\<rparr>"

definition write_nonblock ::
  "nat \<Rightarrow> tid \<Rightarrow> bool \<Rightarrow> bool \<Rightarrow> (nat \<Rightarrow> bool) \<Rightarrow> u8 list \<Rightarrow> pipe \<Rightarrow> (pipe \<times> u8 list \<times> (errno + nat)) option" where
  "write_nonblock hart t writable unblocked closed buf p =
     (if \<not> writable then Some (p, buf, Inl EBADF)
      else
        (let loop_write = available_write (p_ring p) in
         if loop_write = 0 then
           (if closed 0 then
              do { (p, e) \<leftarrow> broken_pipe_error hart t unblocked (closed 1) p;
                   Some (p, buf, Inl (case e of Some e \<Rightarrow> e | None \<Rightarrow> EPIPE)) }
            else Some (p, buf, Inl EAGAIN))
         else
           do { (r, n, bs, stop) \<leftarrow> write_bytes loop_write (length buf) closed 0 buf (p_ring p) 0;
                let p = p\<lparr>p_ring := r\<rparr>;
                case stop of
                  PeerClosed \<Rightarrow>
                    if n = 0 then do { (p, e) \<leftarrow> broken_pipe_error hart t unblocked (closed 1) p;
                                       Some (p, bs, Inl (case e of Some e \<Rightarrow> e | None \<Rightarrow> EPIPE)) }
                    else Some (p, bs, Inr n)
                | WroteAll \<Rightarrow> do { p \<leftarrow> wake_readers hart p; Some (p, bs, Inr (length buf)) }
                | _ \<Rightarrow> do { p \<leftarrow> (if n > 0 then wake_readers hart p else Some p); Some (p, bs, Inr n) } }))"

subsection \<open>Polling and closing\<close>

definition ready_to_read :: "bool \<Rightarrow> pipe \<Rightarrow> bool" where
  "ready_to_read readable p \<longleftrightarrow> readable \<and> (available_read (p_ring p) > 0 \<or> \<not> p_write_open p)"

definition ready_to_write :: "bool \<Rightarrow> pipe \<Rightarrow> bool" where
  "ready_to_write writable p \<longleftrightarrow> writable \<and> (available_write (p_ring p) > 0 \<or> \<not> p_read_open p)"

definition poll_hangup :: "bool \<Rightarrow> bool \<Rightarrow> pipe \<Rightarrow> bool" where
  "poll_hangup readable writable p =
     (if readable then \<not> p_write_open p else if writable then \<not> p_read_open p else False)"

text \<open>The destructor of an end runs when its last \<open>Arc\<close> is gone, so the end is closed by then.\<close>

definition pipe_drop :: "nat \<Rightarrow> bool \<Rightarrow> bool \<Rightarrow> pipe \<Rightarrow> pipe option" where
  "pipe_drop hart readable writable p =
     do { let p = p\<lparr>p_read_open := p_read_open p \<and> \<not> readable, p_write_open := p_write_open p \<and> \<not> writable\<rparr>;
          p \<leftarrow> (if readable then do { (s, q, _) \<leftarrow> wake_up_all hart (p_sched p) (p_writers p) 0; Some (p\<lparr>p_sched := s, p_writers := q\<rparr>) }
                else Some p);
          p \<leftarrow> (if writable then do { (s, q, _) \<leftarrow> wake_up_all hart (p_sched p) (p_readers p) 0; Some (p\<lparr>p_sched := s, p_readers := q\<rparr>) }
                else Some p);
          (s, q, _) \<leftarrow> wake_up_all_mp hart (p_sched p) (p_read_poll p);
          (s, q', _) \<leftarrow> wake_up_all_mp hart s (p_write_poll p);
          Some (p\<lparr>p_sched := s, p_read_poll := q, p_write_poll := q'\<rparr>) }"

subsection \<open>Copying\<close>

lemma read_bytes_spec:
  assumes "ring_inv r" "k \<le> available_read r" "already \<le> want"
  shows "\<exists>r'. read_bytes k want r already = Some (r', already + min k (want - already), take (min k (want - already)) (ring_abs r))
    \<and> ring_inv r' \<and> ring_abs r' = drop (min k (want - already)) (ring_abs r)"
  using assms
proof (induction k arbitrary: r already)
  case (Suc k)
  show ?case
  proof (cases "already = want")
    case False
    with Suc.prems have w: "already < want" by simp
    obtain b bs where e: "ring_abs r = b # bs" using Suc.prems(2) ring_abs_length [of r] by (cases "ring_abs r") auto
    from read_byte_spec [OF Suc.prems(1) e] obtain r1 where
      r1: "read_byte r = Some (r1, b)" "ring_inv r1" "ring_abs r1 = bs" by blast
    show ?thesis
    proof (cases "already + 1 = want")
      case True
      then have "want - already = 1" by simp
      with r1 e True w show ?thesis by simp
    next
      case False
      have "k \<le> available_read r1" using Suc.prems(2) e r1(3) ring_abs_length [of r] ring_abs_length [of r1] by simp
      from Suc.IH [OF r1(2) this, of "already + 1"] w obtain r2 where
        "read_bytes k want r1 (already + 1) = Some (r2, already + 1 + min k (want - (already + 1)), take (min k (want - (already + 1))) bs)"
        "ring_inv r2" "ring_abs r2 = drop (min k (want - (already + 1))) bs" using r1(3) by auto
      moreover have "min (Suc k) (want - already) = Suc (min k (want - (already + 1)))" using w by linarith
      ultimately show ?thesis using r1(1) e w False by simp
    qed
  qed (use Suc in auto)
qed auto

lemma write_bytes_spec:
  assumes "ring_inv r" "k + available_read r \<le> RING_BUFFER_SIZE" "want = already + length bs"
  shows "\<exists>r' m stop. write_bytes k want closed i bs r already = Some (r', already + m, drop m bs, stop)
    \<and> ring_inv r' \<and> ring_abs r' = ring_abs r @ take m bs \<and> m \<le> k \<and> m \<le> length bs
    \<and> (case stop of RingFull \<Rightarrow> m = k | PeerClosed \<Rightarrow> closed (i + m) \<and> m < length bs
         | WroteAll \<Rightarrow> m = length bs \<and> 0 < m | BufferEnd \<Rightarrow> bs = [] \<and> 0 < k)
    \<and> (\<forall>j < m. \<not> closed (i + j))"
  using assms
proof (induction k want closed i bs r already rule: write_bytes.induct)
  case (3 k want closed i b bs r already)
  show ?case
  proof (cases "closed i")
    case False
    have "available_read r < RING_BUFFER_SIZE" using 3(3) by simp
    from write_byte_spec [OF 3(2) this, of b] obtain r1 where
      r1: "write_byte r b = Some r1" "ring_inv r1" "ring_abs r1 = ring_abs r @ [b]" by blast
    have l: "available_read r1 = Suc (available_read r)" using r1(3) ring_abs_length [of r1] by simp
    show ?thesis
    proof (cases "already + 1 = want")
      case True
      with 3(4) have "bs = []" by simp
      with True False r1 show ?thesis by (auto intro!: exI [of _ 1])
    next
      case nw: False
      have "k + available_read r1 \<le> RING_BUFFER_SIZE" "want = already + 1 + length bs" using 3(3,4) l by simp_all
      from 3(1) [OF False r1(1) nw r1(2) this] obtain r2 m stop where
        "write_bytes k want closed (i + 1) bs r1 (already + 1) = Some (r2, already + 1 + m, drop m bs, stop)"
        "ring_inv r2" "ring_abs r2 = ring_abs r1 @ take m bs" "m \<le> k" "m \<le> length bs"
        "case stop of RingFull \<Rightarrow> m = k | PeerClosed \<Rightarrow> closed (i + 1 + m) \<and> m < length bs
         | WroteAll \<Rightarrow> m = length bs \<and> 0 < m | BufferEnd \<Rightarrow> bs = [] \<and> 0 < k"
        "\<forall>j < m. \<not> closed (i + 1 + j)" by blast
      with False nw r1 3(4) show ?thesis
        by (intro exI [of _ r2] exI [of _ "Suc m"] exI [of _ stop]) (auto simp: less_Suc_eq_0_disj split: write_stop.splits)
    qed
  qed (use 3 in auto)
qed auto

lemma wake_keeps_ring:
  "wake_writers hart p = Some p' \<Longrightarrow> p_ring p' = p_ring p" "wake_readers hart p = Some p' \<Longrightarrow> p_ring p' = p_ring p"
  "broken_pipe_error hart t u c p = Some (p', e) \<Longrightarrow> p_ring p' = p_ring p"
  by (auto simp: wake_writers_def wake_readers_def broken_pipe_error_def Let_def split: Option.bind_splits if_splits)

lemma room_for_writes: "ring_inv r \<Longrightarrow> available_write r + available_read r \<le> RING_BUFFER_SIZE"
  using available_read_mod(5) [of r] by simp

lemma read_turn_stream:
  assumes inv: "ring_inv (p_ring p)" and w: "already \<le> want" and t: "read_turn hart want already p = Some (p', cs, r)"
  shows "ring_inv (p_ring p') \<and> ring_abs (p_ring p) = cs @ ring_abs (p_ring p')"
proof (cases "available_read (p_ring p) = 0")
  case False
  obtain r1 where r1: "read_bytes (available_read (p_ring p)) want (p_ring p) already =
      Some (r1, already + min (available_read (p_ring p)) (want - already), take (min (available_read (p_ring p)) (want - already)) (ring_abs (p_ring p)))"
    "ring_inv r1" "ring_abs r1 = drop (min (available_read (p_ring p)) (want - already)) (ring_abs (p_ring p))"
    using read_bytes_spec [OF inv le_refl w] by blast
  from t False r1(1) have "p_ring p' = r1" "cs = take (min (available_read (p_ring p)) (want - already)) (ring_abs (p_ring p))"
    by (auto simp: read_turn_def Let_def split: Option.bind_splits dest: wake_keeps_ring)
  with r1 show ?thesis by simp
qed (use t inv in \<open>auto simp: read_turn_def\<close>)

lemma write_turn_stream:
  assumes inv: "ring_inv (p_ring p)" and w: "want = already + length bs"
    and t: "write_turn hart tk u pe cl want already bs p = Some (p', n, bs', r)"
  shows "\<exists>m \<le> length bs. ring_inv (p_ring p') \<and> ring_abs (p_ring p') = ring_abs (p_ring p) @ take m bs \<and> bs' = drop m bs \<and> n = already + m"
proof (cases "available_write (p_ring p) = 0")
  case True
  with t have "p_ring p' = p_ring p" "bs' = bs" "n = already"
    by (auto simp: write_turn_def split: Option.bind_splits if_splits dest: wake_keeps_ring)
  with inv show ?thesis by (intro exI [of _ 0]) simp
next
  case False
  obtain r1 m stop where r1: "write_bytes (available_write (p_ring p)) want cl 0 bs (p_ring p) already = Some (r1, already + m, drop m bs, stop)"
    "ring_inv r1" "ring_abs r1 = ring_abs (p_ring p) @ take m bs" "m \<le> length bs"
    using write_bytes_spec [OF inv room_for_writes [OF inv] w] by blast
  from t False r1(1) have "p_ring p' = r1 \<and> bs' = drop m bs \<and> n = already + m"
    by (cases stop) (auto simp: write_turn_def Let_def split: Option.bind_splits dest: wake_keeps_ring)
  with r1 show ?thesis by blast
qed

lemma write_nonblock_stream:
  assumes inv: "ring_inv (p_ring p)" and t: "write_nonblock hart tk wr u cl buf p = Some (p', bs', r)"
  shows "\<exists>m \<le> length buf. ring_inv (p_ring p') \<and> ring_abs (p_ring p') = ring_abs (p_ring p) @ take m buf \<and> bs' = drop m buf
    \<and> (\<forall>n. r = Inr n \<longrightarrow> n = m)"
proof (cases "wr \<and> available_write (p_ring p) \<noteq> 0")
  case False
  with t have "p_ring p' = p_ring p" "bs' = buf" "\<forall>n. r \<noteq> Inr n"
    by (auto simp: write_nonblock_def split: Option.bind_splits if_splits dest: wake_keeps_ring)
  with inv show ?thesis by (intro exI [of _ 0]) simp
next
  case True
  obtain r1 m stop where r1: "write_bytes (available_write (p_ring p)) (length buf) cl 0 buf (p_ring p) 0 = Some (r1, 0 + m, drop m buf, stop)"
    "ring_inv r1" "ring_abs r1 = ring_abs (p_ring p) @ take m buf" "m \<le> length buf"
    "case stop of RingFull \<Rightarrow> m = available_write (p_ring p) | PeerClosed \<Rightarrow> cl (0 + m) \<and> m < length buf
       | WroteAll \<Rightarrow> m = length buf \<and> 0 < m | BufferEnd \<Rightarrow> buf = [] \<and> 0 < available_write (p_ring p)"
    using write_bytes_spec [OF inv room_for_writes [OF inv] add_0 [symmetric], of buf cl 0] by blast
  from t True r1(1,5) have "p_ring p' = r1 \<and> bs' = drop m buf \<and> (\<forall>n. r = Inr n \<longrightarrow> n = m)"
    by (cases stop) (auto simp: write_nonblock_def Let_def split: Option.bind_splits if_splits dest: wake_keeps_ring)
  with r1 show ?thesis by blast
qed

subsection \<open>No panics\<close>

definition pipe_ok :: "pipe \<Rightarrow> bool" where
  "pipe_ok p \<longleftrightarrow> ring_inv (p_ring p) \<and> roomy (p_sched p) (1 + length (p_read_poll p) + length (p_write_poll p))"

lemma wake_ok:
  assumes "pipe_ok p"
  shows "\<exists>p'. wake_readers hart p = Some p'" "\<exists>p'. wake_writers hart p = Some p'"
    "\<exists>p' e. broken_pipe_error hart t u c p = Some (p', e)"
proof -
  have r: "roomy (p_sched p) 1" using assms by (simp add: pipe_ok_def roomy_def)
  have *: "\<exists>s q' b. wake_up_one hart (p_sched p) q = Some (s, q', b) \<and> roomy s (length (p_read_poll p) + length (p_write_poll p))" for q
  proof -
    obtain s q' b pre where w: "wake_up_one hart (p_sched p) q = Some (s, q', b)" "wakes (p_sched p) pre s"
      "if b then \<exists>t. filter (wakeable (p_sched p)) pre = [t] \<and> last pre = t else s = p_sched p \<and> q' = [] \<and> filter (wakeable (p_sched p)) q = []"
      using wake_up_one_spec [OF r, of hart q] by blast
    have "size (sys_queued s) \<le> size (sys_queued (p_sched p)) + 1" by (rule wake_up_one_size [OF r w(1)])
    then have "roomy s (length (p_read_poll p) + length (p_write_poll p))"
      using w(2) assms by (simp add: wakes_def roomy_def pipe_ok_def)
    with w(1) show ?thesis by blast
  qed
  have all: "\<exists>s' k. wake_up_all_mp hart s q = Some (s', [], k)" if "roomy s (length q)" for s q
    using wake_each_spec [OF that, of hart 0] by (auto simp: wake_up_all_mp_def)
  have ro: "roomy s n" if "roomy s (n + m)" for s n m using that by (simp add: roomy_def)
  obtain s q b where 1: "wake_up_one hart (p_sched p) (p_readers p) = Some (s, q, b)" "roomy s (length (p_read_poll p) + length (p_write_poll p))"
    using * [of "p_readers p"] by blast
  from all [OF ro [OF 1(2)]] 1(1) show "\<exists>p'. wake_readers hart p = Some p'" by (auto simp: wake_readers_def)
  obtain s q b where 2: "wake_up_one hart (p_sched p) (p_writers p) = Some (s, q, b)" "roomy s (length (p_write_poll p) + length (p_read_poll p))"
    using * [of "p_writers p"] by (auto simp: add.commute)
  from all [OF ro [OF 2(2)]] 2(1) show "\<exists>p'. wake_writers hart p = Some p'" by (auto simp: wake_writers_def)
  from wake_up_task_wakes [OF r, of hart t] show "\<exists>p' e. broken_pipe_error hart t u c p = Some (p', e)"
    by (auto simp: broken_pipe_error_def Let_def)
qed

lemma pipe_ok_ring: "pipe_ok p \<Longrightarrow> ring_inv r \<Longrightarrow> pipe_ok (p\<lparr>p_ring := r\<rparr>)"
  by (simp add: pipe_ok_def)

lemma read_turn_total:
  assumes ok: "pipe_ok p" and w: "already \<le> want"
  shows "read_turn hart want already p \<noteq> None"
proof -
  have inv: "ring_inv (p_ring p)" using ok by (simp add: pipe_ok_def)
  obtain r1 n cs where r1: "read_bytes (available_read (p_ring p)) want (p_ring p) already = Some (r1, n, cs)" "ring_inv r1"
    using read_bytes_spec [OF inv le_refl w] by blast
  obtain p' where "wake_writers hart (p\<lparr>p_ring := r1\<rparr>) = Some p'" using wake_ok(2) [OF pipe_ok_ring [OF ok r1(2)]] by blast
  with r1(1) show ?thesis by (simp add: read_turn_def Let_def)
qed

lemma write_turn_total:
  assumes ok: "pipe_ok p" and w: "want = already + length bs"
  shows "write_turn hart t u pe cl want already bs p \<noteq> None"
proof (cases "available_write (p_ring p) = 0")
  case True
  with wake_ok(1) [OF ok, of hart] wake_ok(3) [OF ok, of hart t u "cl 1"] show ?thesis by (auto simp: write_turn_def)
next
  case False
  have inv: "ring_inv (p_ring p)" using ok by (simp add: pipe_ok_def)
  obtain r1 m stop where r1: "write_bytes (available_write (p_ring p)) want cl 0 bs (p_ring p) already = Some (r1, already + m, drop m bs, stop)"
    "ring_inv r1" using write_bytes_spec [OF inv room_for_writes [OF inv] w] by blast
  note k = pipe_ok_ring [OF ok r1(2)]
  from False r1(1) wake_ok(1) [OF k, of hart] wake_ok(3) [OF k, of hart t u "cl (m + 1)"] show ?thesis
    by (cases stop) (auto simp: write_turn_def Let_def)
qed

subsection \<open>Properties\<close>

text \<open>
  C16. The ring of page frames is a bounded queue of bytes: a write appends, a read takes the oldest
  byte, neither panics while there is room or data, the two counters are the length of the queue and
  the free space, and filling and draining any number of bytes that fit gives them back in order.
\<close>

theorem ring_refines_fifo:
  assumes "ring_inv r" "length bs \<le> available_write r"
  shows "length (ring_abs r) = available_read r \<and> available_read r + available_write r = RING_BUFFER_SIZE
    \<and> (\<exists>r1 r2. ring.puts r bs = Some r1 \<and> ring_inv r1 \<and> ring_abs r1 = ring_abs r @ bs
         \<and> ring.gets (available_read r1) r1 = Some (r2, ring_abs r @ bs) \<and> ring_abs r2 = [])"
proof -
  note a = available_read_mod(5) [OF assms(1)]
  from ring.puts_ok [OF assms(1), of bs] assms(2) a obtain r1 where
    r1: "ring.puts r bs = Some r1" "ring_inv r1" "ring_abs r1 = ring_abs r @ bs" by auto
  from ring.gets_ok [OF r1(2), of "available_read r1"] obtain r2 where
    "ring.gets (available_read r1) r1 = Some (r2, ring_abs r1)" "ring_abs r2 = []" by auto
  with r1 a show ?thesis by auto
qed

text \<open>One turn of any thread, with the bytes accepted and delivered so far.\<close>

inductive pipe_step :: "pipe \<times> u8 list \<times> u8 list \<Rightarrow> pipe \<times> u8 list \<times> u8 list \<Rightarrow> bool" where
  ReadTurn: "already \<le> want \<Longrightarrow> read_turn hart want already p = Some (p', cs, r) \<Longrightarrow>
    pipe_step (p, sent, got) (p', sent, got @ cs)"
| WriteTurn: "want = already + length bs \<Longrightarrow> write_turn hart t u pe cl want already bs p = Some (p', n, bs', r) \<Longrightarrow>
    pipe_step (p, sent, got) (p', sent @ take (n - already) bs, got)"
| Nonblock: "write_nonblock hart t wr u cl buf p = Some (p', bs', r) \<Longrightarrow>
    pipe_step (p, sent, got) (p', sent @ take (length buf - length bs') buf, got)"
| Other: "p_ring p' = p_ring p \<Longrightarrow> pipe_step (p, sent, got) (p', sent, got)"

lemma pipe_step_stream:
  assumes "pipe_step (p, sent, got) (p', sent', got')" "ring_inv (p_ring p)" "sent = got @ ring_abs (p_ring p)"
  shows "ring_inv (p_ring p') \<and> sent' = got' @ ring_abs (p_ring p')"
  using assms(1)
proof cases
  case (ReadTurn already want hart cs r)
  with read_turn_stream [OF assms(2) ReadTurn(3,4)] assms(3) show ?thesis by auto
next
  case (WriteTurn want already bs hart t u pe cl n bs' r)
  with write_turn_stream [OF assms(2) WriteTurn(3,4)] assms(3) show ?thesis by auto
next
  case (Nonblock hart t wr u cl buf bs' r)
  with write_nonblock_stream [OF assms(2) Nonblock(3)] assms(3) show ?thesis by auto
qed (use assms in auto)

definition stream_ok :: "pipe \<times> u8 list \<times> u8 list \<Rightarrow> bool" where
  "stream_ok c \<longleftrightarrow> (case c of (p, sent, got) \<Rightarrow> ring_inv (p_ring p) \<and> sent = got @ ring_abs (p_ring p))"

lemma stream_ok_step: "pipe_step c d \<Longrightarrow> stream_ok c \<Longrightarrow> stream_ok d"
proof -
  assume a: "pipe_step c d" "stream_ok c"
  obtain p sent got p' sent' got' where e: "c = (p, sent, got)" "d = (p', sent', got')" by (metis prod_cases3)
  from pipe_step_stream [of p sent got p' sent' got'] a e show ?thesis by (simp add: stream_ok_def)
qed

lemma stream_ok_reach: "pipe_step\<^sup>*\<^sup>* c d \<Longrightarrow> stream_ok c \<Longrightarrow> stream_ok d"
  by (induction rule: rtranclp_induct) (auto intro: stream_ok_step)

lemma stream_ok_new: "stream_ok (make_pipe s sig, [], [])"
  by (simp add: stream_ok_def make_pipe_def ring_inv_new)

text \<open>
  C11. A pipe is a faithful byte stream: whatever turns of whatever readers and writers interleave,
  blocking or not, with whatever closings and wake-ups in between, the bytes accepted so far are the
  bytes delivered so far followed by the contents of the ring, in order, none lost or repeated;
  the ring never exceeds its capacity; and no turn on a well-formed scheduler panics.
\<close>

theorem pipe_stream_intact:
  assumes "pipe_step\<^sup>*\<^sup>* (make_pipe s sig, [], []) (p, sent, got)"
  shows "sent = got @ ring_abs (p_ring p) \<and> available_read (p_ring p) \<le> 65536
    \<and> (roomy (p_sched p) (1 + length (p_read_poll p) + length (p_write_poll p)) \<longrightarrow>
         (already \<le> want \<longrightarrow> read_turn hart want already p \<noteq> None)
         \<and> write_turn hart t u pe cl (already + length bs) already bs p \<noteq> None)"
proof -
  have i: "ring_inv (p_ring p)" "sent = got @ ring_abs (p_ring p)"
    using stream_ok_reach [OF assms stream_ok_new] by (simp_all add: stream_ok_def)
  have "available_read (p_ring p) \<le> 65536"
    using available_read_mod(1) [OF i(1)] by (simp add: RING_BUFFER_SIZE_def PIPE_BUF_PAGE_SIZE_def PIPE_BUF_PAGES_def)
  moreover have "pipe_ok p" if "roomy (p_sched p) (1 + length (p_read_poll p) + length (p_write_poll p))"
    using that i(1) unfolding pipe_ok_def by blast
  ultimately show ?thesis
    using i(2) read_turn_total [of p already want hart] write_turn_total [of p _ already bs hart t u pe cl] by blast
qed

lemma broken_pipe_EPIPE:
  "broken_pipe_error hart t u True p = Some (p', e) \<Longrightarrow> e = Some EPIPE \<and> p_sigpipe p' t"
  by (auto simp: broken_pipe_error_def Let_def split: Option.bind_splits if_splits)


definition p_stranded :: "pipe \<Rightarrow> bool" where
  "p_stranded p \<longleftrightarrow> 0 < available_read (p_ring p) \<and>
     (\<exists>t \<in> set (p_readers p). sleeping (p_sched p) t \<and> \<not> signalled (p_sched p) t)"

text \<open>
  C40. A reader can be left asleep with data in the pipe.  Two readers block on an empty pipe; a write
  of two bytes wakes only the first of them, which takes one byte and returns without waking the
  next; the second stays blocked although a byte is available, until somebody writes again.
\<close>

theorem pipe_strands_second_reader:
  "\<exists>p1 p2 p3 p4 p5. read_block 7 (make_pipe busy_new (\<lambda>_. False)) = (p1, True) \<and> read_block 8 p1 = (p2, True)
     \<and> write_turn 0 9 True False (\<lambda>_. False) 2 0 [1, 2] p2 = Some (p3, 2, [], WriteDone 2)
     \<and> read_resume 7 False False 0 p3 = (p4, ReadAgain) \<and> read_turn 0 1 0 p4 = Some (p5, [1], ReadDone (Inr 1))
     \<and> available_read (p_ring p5) = 1 \<and> p_readers p5 = [8] \<and> p_stranded p5"
proof -
  let ?s = "block_saving 8 (block_saving 7 busy_new)"
  let ?s' = "?s\<lparr>sys_tasks := upd_task 7 (\<lambda>i. i\<lparr>wake_pending := True, wake_source_cpu := Some 0\<rparr>) (sys_tasks ?s)\<rparr>"
  let ?p = "make_pipe busy_new (\<lambda>_. False)"
  have z: "available_read ring_new = 0" "available_write ring_new = RING_BUFFER_SIZE"
    by (simp_all add: available_read_def available_write_def ring_new_def)
  have b1: "read_block 7 ?p = (?p\<lparr>p_sched := block_saving 7 busy_new, p_readers := [7]\<rparr>, True)"
    by (simp add: read_block_def make_pipe_def z block_current_and_run_next_if_def wq_push_back_def wq_new_def)
  let ?p2 = "?p\<lparr>p_sched := ?s, p_readers := [7, 8]\<rparr>"
  have b2: "read_block 8 (?p\<lparr>p_sched := block_saving 7 busy_new, p_readers := [7]\<rparr>) = (?p2, True)"
    by (simp add: read_block_def make_pipe_def z block_current_and_run_next_if_def wq_push_back_def)
  obtain r1 where w1: "write_byte ring_new 1 = Some r1" "ring_inv r1" "ring_abs r1 = [1]"
    using write_byte_spec [OF ring_inv_new(1), of 1] z ring_inv_new(2) by auto
  have "available_read r1 < RING_BUFFER_SIZE"
    using ring_abs_length [of r1] w1(3) by (simp add: RING_BUFFER_SIZE_def PIPE_BUF_PAGE_SIZE_def PIPE_BUF_PAGES_def)
  from write_byte_spec [OF w1(2) this, of 2] obtain r2 where w2: "write_byte r1 2 = Some r2" "ring_inv r2" "ring_abs r2 = [1, 2]"
    using w1(3) by auto
  from read_byte_spec [OF w2(2,3)] obtain r3 where r3: "read_byte r2 = Some (r3, 1)" "ring_inv r3" "ring_abs r3 = [2]" by blast
  have a: "available_read r2 = 2" "available_read r3 = 1" using ring_abs_length [of r2] ring_abs_length [of r3] w2(3) r3(3) by simp_all
  obtain n where n: "RING_BUFFER_SIZE = Suc (Suc n)"
    by (rule that [of 65534]) (simp add: RING_BUFFER_SIZE_def PIPE_BUF_PAGE_SIZE_def PIPE_BUF_PAGES_def)
  have wb: "write_bytes RING_BUFFER_SIZE 2 (\<lambda>_. False) 0 [1, 2] ring_new 0 = Some (r2, 2, [], WroteAll)"
    unfolding n by (simp add: w1(1) w2(1))
  have k: "wake_up_one 0 ?s [7, 8] = Some (?s', [8], True)" by (simp add: wake_up_one.simps block_saving_def)
  let ?p3 = "?p2\<lparr>p_ring := r2, p_sched := ?s', p_readers := [8]\<rparr>"
  have wt: "write_turn 0 9 True False (\<lambda>_. False) 2 0 [1, 2] ?p2 = Some (?p3, 2, [], WriteDone 2)"
    using z wb k by (simp add: write_turn_def make_pipe_def wake_readers_def wake_up_all_mp_def wq_new_def)
  have rs: "read_resume 7 False False 0 ?p3 = (?p3, ReadAgain)" using a by (simp add: read_resume_def wq_remove_by_tid_def)
  obtain p5 where p5: "p5 = ?p3\<lparr>p_ring := r3\<rparr>" by blast
  have rt: "read_turn 0 1 0 ?p3 = Some (p5, [1], ReadDone (Inr 1))"
    using a r3(1) by (simp add: p5 read_turn_def numeral_2_eq_2 wake_writers_def wake_up_all_mp_def make_pipe_def wq_new_def)
  have "p_stranded p5" using a by (simp add: p5 p_stranded_def sleeping_def signalled_def block_saving_def)
  with b1 b2 wt rs rt a show ?thesis by (auto simp: p5)
qed

subsection \<open>Witnesses\<close>

theorem ring_refines_fifo_witness:
  "\<exists>r1 r2. ring.puts ring_new [1, 2, 3] = Some r1 \<and> ring.gets (available_read r1) r1 = Some (r2, [1, 2, 3])"
proof -
  have "length [1 :: u8, 2, 3] \<le> available_write ring_new"
    by (simp add: available_write_def available_read_def ring_new_def RING_BUFFER_SIZE_def PIPE_BUF_PAGE_SIZE_def PIPE_BUF_PAGES_def)
  from ring_refines_fifo [OF ring_inv_new(1) this] show ?thesis by (auto simp: ring_inv_new(2))
qed

lemma fresh_pipe_write:
  "\<exists>p. write_turn 0 9 True False (\<lambda>_. False) 1 0 [5] (make_pipe busy_new (\<lambda>_. False)) = Some (p, 1, [], WriteDone 1)
     \<and> ring_abs (p_ring p) = [5]"
proof -
  have z: "available_read ring_new = 0" "available_write ring_new = RING_BUFFER_SIZE"
    by (simp_all add: available_read_def available_write_def ring_new_def)
  obtain n where n: "RING_BUFFER_SIZE = Suc n"
    by (rule that [of 65535]) (simp add: RING_BUFFER_SIZE_def PIPE_BUF_PAGE_SIZE_def PIPE_BUF_PAGES_def)
  obtain r1 where w1: "write_byte ring_new 5 = Some r1" "ring_abs r1 = [5]"
    using write_byte_spec [OF ring_inv_new(1), of 5] z ring_inv_new(2) by auto
  have wb: "write_bytes RING_BUFFER_SIZE 1 (\<lambda>_. False) 0 [5] ring_new 0 = Some (r1, 1, [], WroteAll)"
    unfolding n by (simp add: w1(1))
  then show ?thesis
    using z w1(2) by (simp add: write_turn_def make_pipe_def wake_readers_def wake_up_all_mp_def wq_new_def)
qed

theorem pipe_stream_intact_witness:
  "\<exists>p. pipe_step\<^sup>*\<^sup>* (make_pipe busy_new (\<lambda>_. False), [], []) (p, [5], []) \<and> [5] = [] @ ring_abs (p_ring p)"
proof -
  obtain p where w: "write_turn 0 9 True False (\<lambda>_. False) 1 0 [5] (make_pipe busy_new (\<lambda>_. False)) = Some (p, 1, [], WriteDone 1)"
    using fresh_pipe_write by blast
  have "pipe_step (make_pipe busy_new (\<lambda>_. False), [], []) (p, [] @ take (1 - 0) [5], [])" by (rule WriteTurn [OF _ w]) simp
  then have r: "pipe_step\<^sup>*\<^sup>* (make_pipe busy_new (\<lambda>_. False), [], []) (p, [5], [])" by (simp add: r_into_rtranclp)
  have "[5] = [] @ ring_abs (p_ring p)" by (rule conjunct1 [OF pipe_stream_intact [OF r]])
  with r show ?thesis by blast
qed


end
