(* ===== verification/Spec2Isabelle.thy ===== *)
theory Spec2Isabelle
  imports Rb_Props Sched_Props Boot_Memory Frame_Alloc Kernel_Stack Mm_Address Rw_Lock Futex Pipe
begin

text \<open>
  Verification of the ShellCore kernel under \<open>src/os/src\<close>.
\<close>

end
